(* ===== verification/Prelude.thy ===== *)
theory Prelude
  imports "HOL-Library.Word" "HOL-Library.AList"
begin

text \<open>
  Shared vocabulary of the development. Go's byte slices are lists of bytes, its fixed-width
  unsigned integers are words, and a Go function with an error result is a function into
  \<open>('e, 'a) res\<close>: a value, an error value of the component's own error type, or a run-time
  panic (an index or a slice bound out of range). The rest of the theory is the part of
  \<open>encoding/binary\<close>, \<open>io\<close> and \<open>copy\<close> that the wire formats use, with the layout lemmas
  their round trips rest on, and the interface of a self-delimiting codec.
\<close>

section \<open>Types\<close>

type_synonym byte = "8 word"
type_synonym bytes = "byte list"
type_synonym u16 = "16 word"
type_synonym u32 = "32 word"
type_synonym u64 = "64 word"

named_theorems layout_simps \<open>lengths and contents of encoded fields\<close>
named_theorems res_simps \<open>evaluation of fallible computations\<close>
named_theorems field_convs \<open>fields of an encoded message by computation\<close>
named_theorems res_iffs \<open>when a fallible computation gives a value or panics\<close>

section \<open>Fallible computations\<close>

datatype 'e fail = Panic | Err 'e

type_synonym ('e, 'a) res = "'e fail + 'a"

abbreviation ok :: "'a \<Rightarrow> ('e, 'a) res" where
  "ok \<equiv> Inr"

abbreviation err :: "'e \<Rightarrow> ('e, 'a) res" where
  "err e \<equiv> Inl (Err e)"

definition and_then :: "('e, 'a) res \<Rightarrow> ('a \<Rightarrow> ('e, 'b) res) \<Rightarrow> ('e, 'b) res" where
  "and_then m f = (case m of Inl e \<Rightarrow> Inl e | Inr x \<Rightarrow> f x)"

definition guard :: "bool \<Rightarrow> 'e \<Rightarrow> ('e, 'a) res \<Rightarrow> ('e, 'a) res" where
  \<comment> \<open>\<open>if bad { return e }; rest\<close>\<close>
  "guard bad e rest = (if bad then err e else rest)"

lemma and_then_simps [simp, res_simps]:
  "and_then (Inr x) f = f x"
  "and_then (Inl e) f = Inl e"
  by (simp_all add: and_then_def)

lemma guard_simps [simp, res_simps]:
  "guard True e r = err e"
  "guard False e r = r"
  by (simp_all add: guard_def)

lemma and_then_eq_Inr [res_iffs]:
  "and_then m f = Inr y \<longleftrightarrow> (\<exists>x. m = Inr x \<and> f x = Inr y)"
  by (cases m) auto

lemma and_then_eq_Panic [res_iffs]:
  "and_then m f = Inl Panic \<longleftrightarrow> m = Inl Panic \<or> (\<exists>x. m = Inr x \<and> f x = Inl Panic)"
  by (cases m) auto

lemma guard_eq_Inr [res_iffs]: "guard b e r = Inr y \<longleftrightarrow> \<not> b \<and> r = Inr y"
  by (simp add: guard_def)

lemma guard_eq_Panic [res_iffs]: "guard b e r = Inl Panic \<longleftrightarrow> \<not> b \<and> r = Inl Panic"
  by (simp add: guard_def)

section \<open>Slices and copies\<close>

definition slice :: "'a list \<Rightarrow> nat \<Rightarrow> nat \<Rightarrow> ('e, 'a list) res" where
  \<comment> \<open>\<open>xs[i:j]\<close>, on a slice without spare capacity\<close>
  "slice xs i j = (if i \<le> j \<and> j \<le> length xs then ok (take (j - i) (drop i xs)) else Inl Panic)"

definition byte_at :: "'a list \<Rightarrow> nat \<Rightarrow> ('e, 'a) res" where
  "byte_at xs i = (if i < length xs then ok (xs ! i) else Inl Panic)"

definition copy_at :: "'a list \<Rightarrow> nat \<Rightarrow> 'a list \<Rightarrow> 'a list" where
  \<comment> \<open>\<open>copy(buf[off:], xs)\<close>: at most the bytes that fit are written\<close>
  "copy_at buf off xs = take off buf @ take (length buf - off) xs @ drop (off + length xs) buf"

lemma slice_eq_Inr [res_iffs]:
  "slice xs i j = Inr ys \<longleftrightarrow> i \<le> j \<and> j \<le> length xs \<and> ys = take (j - i) (drop i xs)"
  by (auto simp: slice_def)

lemma slice_eq_Panic [simp]: "slice xs i j = Inl Panic \<longleftrightarrow> \<not> (i \<le> j \<and> j \<le> length xs)"
  by (auto simp: slice_def)

lemma slice_not_Err [simp]: "slice xs i j \<noteq> Inl (Err e)"
  by (simp add: slice_def)

lemma byte_at_eq_Inr [res_iffs]: "byte_at xs i = Inr y \<longleftrightarrow> i < length xs \<and> y = xs ! i"
  by (auto simp: byte_at_def)

lemma byte_at_eq_Panic [simp]: "byte_at xs i = Inl Panic \<longleftrightarrow> \<not> i < length xs"
  by (simp add: byte_at_def)

lemma byte_at_not_Err [simp]: "byte_at xs i \<noteq> Inl (Err e)"
  by (simp add: byte_at_def)

lemma length_copy_at [simp, layout_simps]:
  "off \<le> length buf \<Longrightarrow> length (copy_at buf off xs) = length buf"
  by (simp add: copy_at_def min_def)

text \<open>
  A buffer made with \<open>make([]byte, n)\<close> and filled from left to right is the concatenation of
  its fields: each copy extends the filled part and shortens the zeros behind it.
\<close>

lemma copy_at_fill [layout_simps]:
  assumes "off = length p" "length xs \<le> n"
  shows "copy_at (p @ replicate n z) off xs = (p @ xs) @ replicate (n - length xs) z"
  using assms by (simp add: copy_at_def)

lemma copy_at_fill_start [layout_simps]:
  "length xs \<le> n \<Longrightarrow> copy_at (replicate n z) 0 xs = xs @ replicate (n - length xs) z"
  by (simp add: copy_at_def)

lemma drop_field: "drop i xs = take n (drop i xs) @ drop (i + n) xs"
  by (metis add.commute append_take_drop_id drop_drop)

section \<open>Go maps\<close>

text \<open>
  A Go map that is iterated, counted or compared is an association list with distinct keys; the
  order of the list is not observable where the code sorts what it collects.
\<close>

lemma set_alist_delete: "set (AList.delete k al) = {p \<in> set al. fst p \<noteq> k}"
  by (induction al) auto

lemma set_alist_update_subset: "set (AList.update k v al) \<subseteq> insert (k, v) (set al)"
  by (induction al) auto

lemma set_alist_update:
  "distinct (map fst al) \<Longrightarrow> set (AList.update k v al) = insert (k, v) {p \<in> set al. fst p \<noteq> k}"
  by (induction al) force+

lemma length_alist_update:
  "length (AList.update k v al) = (if k \<in> fst ` set al then length al else Suc (length al))"
  by (induction al) auto

lemma length_alist_delete_less:
  "map_of al k = Some v \<Longrightarrow> length (AList.delete k al) < length al"
proof (induction al)
  case (Cons p al)
  then show ?case using length_delete_le [of k al] by (cases p) (auto simp: less_Suc_eq_le)
qed simp

text \<open>The sum of a quantity over the values of a map.\<close>

definition asum :: "('v \<Rightarrow> int) \<Rightarrow> ('k \<times> 'v) list \<Rightarrow> int" where
  "asum f al = sum_list (map (\<lambda>p. f (snd p)) al)"

lemma asum_Nil [simp]: "asum f [] = 0" and asum_Cons [simp]: "asum f (p # al) = f (snd p) + asum f al"
  by (simp_all add: asum_def)

lemma asum_delete_absent: "k \<notin> fst ` set al \<Longrightarrow> AList.delete k al = al"
  by (induction al) auto

lemma asum_delete:
  "distinct (map fst al) \<Longrightarrow>
     asum f (AList.delete k al) = asum f al - (case map_of al k of None \<Rightarrow> 0 | Some v \<Rightarrow> f v)"
proof (induction al)
  case (Cons p al)
  then show ?case
    by (cases p) (auto simp: asum_delete_absent)
qed simp

lemma asum_update:
  "distinct (map fst al) \<Longrightarrow>
     asum f (AList.update k v al) = asum f al - (case map_of al k of None \<Rightarrow> 0 | Some w \<Rightarrow> f w) + f v"
proof (induction al)
  case (Cons p al)
  then show ?case by (cases p) auto
qed simp

lemma asum_nonneg: "(\<And>k v. (k, v) \<in> set al \<Longrightarrow> 0 \<le> f v) \<Longrightarrow> 0 \<le> asum f al"
  by (induction al) (force+)

lemma asum_ge:
  "distinct (map fst al) \<Longrightarrow> (\<And>k v. (k, v) \<in> set al \<Longrightarrow> 0 \<le> f v) \<Longrightarrow> map_of al k = Some v \<Longrightarrow> f v \<le> asum f al"
  using asum_delete [of al f k] asum_nonneg [of "AList.delete k al" f]
  by (auto simp: set_alist_delete)

lemma asum_keys:
  "distinct (map fst al) \<Longrightarrow> asum f al = (\<Sum>k\<in>fst ` set al. f (the (map_of al k)))"
proof (induction al)
  case (Cons p al)
  obtain k v where p: "p = (k, v)" by fastforce
  have k: "k \<notin> fst ` set al" using Cons.prems p by simp
  have "(\<Sum>j\<in>fst ` set al. f (the (map_of (p # al) j))) = (\<Sum>j\<in>fst ` set al. f (the (map_of al j)))"
    by (rule sum.cong) (use k p in auto)
  then show ?case using Cons k p by simp
qed simp

section \<open>Big-endian integers\<close>

definition put16 :: "u16 \<Rightarrow> bytes" where
  "put16 w = [ucast (drop_bit 8 w), ucast w]"

definition put32 :: "u32 \<Rightarrow> bytes" where
  "put32 w = [ucast (drop_bit 24 w), ucast (drop_bit 16 w), ucast (drop_bit 8 w), ucast w]"

definition put64 :: "u64 \<Rightarrow> bytes" where
  "put64 w = put32 (ucast (drop_bit 32 w)) @ put32 (ucast w)"

definition join16 :: "byte \<Rightarrow> byte \<Rightarrow> u16" where
  "join16 a b = word_cat a b"

definition join32 :: "byte \<Rightarrow> byte \<Rightarrow> byte \<Rightarrow> byte \<Rightarrow> u32" where
  "join32 a b c d = word_cat (join16 a b) (join16 c d)"

definition get16 :: "bytes \<Rightarrow> nat \<Rightarrow> ('e, u16) res" where
  \<comment> \<open>\<open>binary.BigEndian.Uint16(xs[i:])\<close>\<close>
  "get16 xs i =
     (if i + 2 \<le> length xs then ok (join16 (xs ! i) (xs ! (i + 1))) else Inl Panic)"

definition get32 :: "bytes \<Rightarrow> nat \<Rightarrow> ('e, u32) res" where
  "get32 xs i =
     (if i + 4 \<le> length xs
      then ok (join32 (xs ! i) (xs ! (i + 1)) (xs ! (i + 2)) (xs ! (i + 3))) else Inl Panic)"

definition get64 :: "bytes \<Rightarrow> nat \<Rightarrow> ('e, u64) res" where
  "get64 xs i = and_then (get32 xs i) (\<lambda>hi. and_then (get32 xs (i + 4)) (\<lambda>lo. ok (word_cat hi lo)))"

lemma length_put [simp, layout_simps]:
  "length (put16 w) = 2" "length (put32 x) = 4" "length (put64 y) = 8"
  by (simp_all add: put16_def put32_def put64_def)

lemma join16_put: "join16 (ucast (drop_bit 8 w)) (ucast w) = w"
  unfolding join16_def
  by (rule bit_word_eqI) (auto simp: bit_word_cat_iff bit_ucast_iff bit_drop_bit_eq)

lemma join32_put:
  "join32 (ucast (drop_bit 24 w)) (ucast (drop_bit 16 w)) (ucast (drop_bit 8 w)) (ucast w) = w"
  unfolding join32_def join16_def
  by (rule bit_word_eqI) (auto simp: bit_word_cat_iff bit_ucast_iff bit_drop_bit_eq)

lemma put16_join16: "put16 (join16 a b) = [a, b]"
  unfolding put16_def join16_def
  by (auto intro!: bit_word_eqI simp: bit_word_cat_iff bit_ucast_iff bit_drop_bit_eq)

lemma put32_join32: "put32 (join32 a b c d) = [a, b, c, d]"
  unfolding put32_def join32_def join16_def
  by (auto intro!: bit_word_eqI simp: bit_word_cat_iff bit_ucast_iff bit_drop_bit_eq)

lemma cat64_put: "(word_cat (ucast (drop_bit 32 w) :: u32) (ucast w :: u32) :: u64) = w"
  by (rule bit_word_eqI) (auto simp: bit_word_cat_iff bit_ucast_iff bit_drop_bit_eq)

lemma unat_of_nat_small [layout_simps]:
  "n < 65536 \<Longrightarrow> unat (of_nat n :: u16) = n"
  "n < 4294967296 \<Longrightarrow> unat (of_nat n :: u32) = n"
  by (simp_all add: unat_of_nat)

lemma inj_of_nat_u32: "n \<le> 2 ^ 32 \<Longrightarrow> inj_on (of_nat :: nat \<Rightarrow> u32) {0..<n}"
proof (rule inj_onI)
  fix x y assume n: "n \<le> 2 ^ 32" "x \<in> {0..<n}" "y \<in> {0..<n}" and eq: "(of_nat x :: u32) = of_nat y"
  from n have "unat (of_nat x :: u32) = x" "unat (of_nat y :: u32) = y"
    by (simp_all add: unat_of_nat_small)
  with eq show "x = y" by metis
qed

lemma of_nat_u32_iff:
  assumes "i < 2 ^ 32" "j < 2 ^ 32"
  shows "(of_nat i :: u32) = of_nat j \<longleftrightarrow> i = j" "(of_nat i :: u32) < of_nat j \<longleftrightarrow> i < j"
    "(of_nat i :: u32) \<le> of_nat j \<longleftrightarrow> i \<le> j"
  using assms inj_onD [OF inj_of_nat_u32 [OF order_refl], of i j]
  by (auto simp: word_less_nat_alt word_le_nat_alt unat_of_nat_small)

text \<open>
  The reading rules: a field is found wherever dropping the bytes before it leaves its encoding
  in front, which the simplifier decides from the lengths of the fields.
\<close>

lemma get16_drop [layout_simps]: "drop i xs = put16 w @ r \<Longrightarrow> get16 xs i = ok w"
proof -
  assume d: "drop i xs = put16 w @ r"
  then have "length xs - i = 2 + length r" by (metis length_append length_drop length_put(1))
  then have len: "i + 2 \<le> length xs" by arith
  have "xs ! i = drop i xs ! 0" "xs ! (i + 1) = drop i xs ! 1"
    using len by simp_all
  with d len show ?thesis by (simp add: get16_def put16_def join16_put)
qed

lemma get32_drop [layout_simps]: "drop i xs = put32 w @ r \<Longrightarrow> get32 xs i = ok w"
proof -
  assume d: "drop i xs = put32 w @ r"
  then have "length xs - i = 4 + length r" by (metis length_append length_drop length_put(2))
  then have len: "i + 4 \<le> length xs" by arith
  have "xs ! i = drop i xs ! 0" "xs ! (i + 1) = drop i xs ! 1"
    "xs ! (i + 2) = drop i xs ! 2" "xs ! (i + 3) = drop i xs ! 3"
    using len by simp_all
  with d len show ?thesis by (simp add: get32_def put32_def join32_put)
qed

lemma get64_drop [layout_simps]:
  assumes "drop i xs = put64 w @ r"
  shows "get64 xs i = ok w"
proof -
  from assms have 1: "drop i xs = put32 (ucast (drop_bit 32 w)) @ put32 (ucast w) @ r"
    by (simp add: put64_def)
  have "drop (i + 4) xs = drop 4 (drop i xs)"
    by (simp add: add.commute)
  with 1 have 2: "drop (i + 4) xs = put32 (ucast w) @ r"
    by simp
  show ?thesis
    unfolding get64_def get32_drop [OF 1] get32_drop [OF 2] by (simp add: cat64_put)
qed

lemma get16_eq_Panic [simp]: "get16 xs i = Inl Panic \<longleftrightarrow> \<not> i + 2 \<le> length xs"
  by (simp add: get16_def)

lemma get32_eq_Panic [simp]: "get32 xs i = Inl Panic \<longleftrightarrow> \<not> i + 4 \<le> length xs"
  by (simp add: get32_def)

lemma get64_eq_Panic [simp]: "get64 xs i = Inl Panic \<longleftrightarrow> \<not> i + 8 \<le> length xs"
  by (auto simp: get64_def get32_def)

lemma get_not_Err [simp]:
  "get16 xs i \<noteq> Inl (Err e)" "get32 xs i \<noteq> Inl (Err e)" "get64 xs i \<noteq> Inl (Err e)"
  by (simp_all add: get16_def get32_def get64_def and_then_def split: sum.splits)

text \<open>Reading a field back determines the bytes it was read from.\<close>

lemma get16_eq_Inr:
  assumes "get16 xs i = Inr w"
  shows "i + 2 \<le> length xs" "take 2 (drop i xs) = put16 w"
proof -
  show len: "i + 2 \<le> length xs" using assms by (simp add: get16_def split: if_splits)
  then have "take 2 (drop i xs) = [xs ! i, xs ! (i + 1)]"
    by (auto simp: list_eq_iff_nth_eq less_Suc_eq eval_nat_numeral)
  with assms len show "take 2 (drop i xs) = put16 w"
    by (auto simp: get16_def put16_join16)
qed

lemma get32_eq_Inr:
  assumes "get32 xs i = Inr w"
  shows "i + 4 \<le> length xs" "take 4 (drop i xs) = put32 w"
proof -
  show len: "i + 4 \<le> length xs" using assms by (simp add: get32_def split: if_splits)
  then have "take 4 (drop i xs) = [xs ! i, xs ! (i + 1), xs ! (i + 2), xs ! (i + 3)]"
    by (auto simp: list_eq_iff_nth_eq less_Suc_eq eval_nat_numeral)
  with assms len show "take 4 (drop i xs) = put32 w"
    by (auto simp: get32_def put32_join32)
qed

text \<open>
  Fields of a concatenation, by computation: reading a field is decoding the bytes at its place,
  and the simplifier finds those from the lengths of the parts.
\<close>

definition dec16 :: "bytes \<Rightarrow> u16" where "dec16 bs = join16 (bs ! 0) (bs ! 1)"
definition dec32 :: "bytes \<Rightarrow> u32" where "dec32 bs = join32 (bs ! 0) (bs ! 1) (bs ! 2) (bs ! 3)"
definition dec64 :: "bytes \<Rightarrow> u64" where "dec64 bs = word_cat (dec32 (take 4 bs)) (dec32 (drop 4 bs))"

lemma dec_put [simp]: "dec16 (put16 w) = w" "dec32 (put32 x) = x" "dec64 (put64 y) = y"
  by (simp_all add: dec16_def dec32_def dec64_def put16_def put32_def put64_def join16_put join32_put
      cat64_put [unfolded put32_def])

lemma get_conv [field_convs]:
  "i + 2 \<le> length xs \<Longrightarrow> get16 xs i = ok (dec16 (take 2 (drop i xs)))"
  "i + 4 \<le> length xs \<Longrightarrow> get32 xs i = ok (dec32 (take 4 (drop i xs)))"
  "i + 8 \<le> length xs \<Longrightarrow> get64 xs i = ok (dec64 (take 8 (drop i xs)))"
  "i \<le> j \<Longrightarrow> j \<le> length xs \<Longrightarrow> slice xs i j = ok (take (j - i) (drop i xs))"
  "i < length xs \<Longrightarrow> byte_at xs i = ok (hd (drop i xs))"
  by (auto simp: get16_def get32_def get64_def slice_def byte_at_def dec16_def dec32_def dec64_def
      hd_drop_conv_nth add.commute drop_take)

section \<open>Reading from a byte stream\<close>

text \<open>
  An \<open>io.Reader\<close> is the list of bytes still to come. \<open>io.ReadFull\<close> fails with \<open>EOF\<close> when
  nothing is left and with \<open>ErrUnexpectedEOF\<close> when the stream ends inside the field; \<open>wrap\<close> is
  what the caller makes of that error.
\<close>

datatype io_error = EOF | UnexpectedEOF

definition readFull :: "(io_error \<Rightarrow> 'e) \<Rightarrow> bytes \<Rightarrow> nat \<Rightarrow> ('e, bytes \<times> bytes) res" where
  "readFull wrap bs n =
     (if n \<le> length bs then ok (take n bs, drop n bs)
      else err (wrap (if bs = [] then EOF else UnexpectedEOF)))"

lemma readFull_append [res_simps]:
  "n = length xs \<Longrightarrow> readFull wrap (xs @ rest) n = ok (xs, rest)"
  by (simp add: readFull_def)

lemma readFull_eq_Inr:
  "readFull wrap bs n = Inr (xs, rest) \<longleftrightarrow> bs = xs @ rest \<and> length xs = n"
  by (auto simp: readFull_def)

lemma readFull_not_Panic [simp]: "readFull wrap bs n \<noteq> Inl Panic"
  by (simp add: readFull_def)

section \<open>Self-delimiting codecs\<close>

text \<open>
  What a framing layer promises its reader: an encoded frame is decoded back with the bytes
  behind it untouched, and whatever is decoded is the encoding of what was read. A stream of
  frames then parses in exactly one way.
\<close>

primrec read_frames :: "(bytes \<Rightarrow> ('e, 'f \<times> bytes) res) \<Rightarrow> nat \<Rightarrow> bytes \<Rightarrow> ('e, 'f list \<times> bytes) res" where
  "read_frames dec 0 bs = ok ([], bs)"
| "read_frames dec (Suc n) bs =
     and_then (dec bs) (\<lambda>(f, rest).
     and_then (read_frames dec n rest) (\<lambda>(fs, rest'). ok (f # fs, rest')))"

locale stream_codec =
  fixes enc :: "'f \<Rightarrow> bytes"
    and dec :: "bytes \<Rightarrow> ('e, 'f \<times> bytes) res"
    and wf :: "'f \<Rightarrow> bool"
  assumes dec_enc: "wf f \<Longrightarrow> dec (enc f @ rest) = ok (f, rest)"
    and dec_sound: "dec bs = ok (f, rest) \<Longrightarrow> wf f \<and> bs = enc f @ rest"
    and enc_nonempty: "wf f \<Longrightarrow> enc f \<noteq> []"
begin

lemma enc_prefix_free:
  assumes "wf f" "wf g" "enc f @ r = enc g @ s"
  shows "f = g \<and> r = s"
proof -
  from dec_enc [OF assms(1), of r] dec_enc [OF assms(2), of s]
  have "(f, r) = (g, s)" unfolding assms(3) by (metis Inr_inject)
  then show ?thesis by simp
qed

lemma dec_progress: "dec bs = ok (f, rest) \<Longrightarrow> length rest < length bs"
proof -
  assume "dec bs = ok (f, rest)"
  then have "wf f" "bs = enc f @ rest" using dec_sound by blast+
  then show ?thesis using enc_nonempty by simp
qed

lemma read_frames_concat:
  "\<forall>f\<in>set fs. wf f \<Longrightarrow> read_frames dec (length fs) (concat (map enc fs) @ rest) = ok (fs, rest)"
  by (induction fs) (auto simp: dec_enc)

lemma read_frames_sound:
  "read_frames dec n bs = ok (fs, rest) \<Longrightarrow>
     length fs = n \<and> (\<forall>f\<in>set fs. wf f) \<and> bs = concat (map enc fs) @ rest"
proof (induction n arbitrary: bs fs)
  case 0
  then show ?case by simp
next
  case (Suc n)
  from Suc.prems obtain f rest' fs' where
    d: "dec bs = ok (f, rest')" and r: "read_frames dec n rest' = ok (fs', rest)"
    and fs: "fs = f # fs'"
    by (auto simp: and_then_eq_Inr)
  from dec_sound [OF d] Suc.IH [OF r] fs show ?case by simp
qed

lemma concat_enc_inj:
  assumes "\<forall>f\<in>set fs. wf f" "\<forall>g\<in>set gs. wf g" "concat (map enc fs) = concat (map enc gs)"
  shows "fs = gs"
  using assms
proof (induction fs arbitrary: gs)
  case Nil
  then show ?case by (cases gs) (auto simp: enc_nonempty)
next
  case (Cons f fs)
  from Cons.prems obtain g gs' where gs: "gs = g # gs'"
    by (cases gs) (auto simp: enc_nonempty)
  with Cons.prems have "enc f @ concat (map enc fs) = enc g @ concat (map enc gs')" by simp
  with Cons.prems gs have "f = g \<and> concat (map enc fs) = concat (map enc gs')"
    by (intro enc_prefix_free) auto
  with Cons.IH [of gs'] Cons.prems gs show ?case by simp
qed

end

section \<open>Message codecs\<close>

text \<open>
  What a message format promises: every well-formed message has an encoding that decodes back to
  it, and the decoder answers every input, however malformed, with a message or an error. Where
  the decoder accepts nothing but encodings the format is canonical.
\<close>

locale message_codec =
  fixes enc :: "'m \<Rightarrow> ('e, bytes) res" and dec :: "bytes \<Rightarrow> ('e, 'm) res" and wf :: "'m \<Rightarrow> bool"
  assumes dec_enc: "wf m \<Longrightarrow> \<exists>bs. enc m = ok bs \<and> dec bs = ok m"
    and dec_no_panic: "dec bs \<noteq> Inl Panic"
begin

lemma enc_inj: "wf m \<Longrightarrow> wf m' \<Longrightarrow> enc m = enc m' \<Longrightarrow> m = m'"
  using dec_enc [of m] dec_enc [of m'] by auto

lemma dec_answers: "(\<exists>m. dec bs = ok m) \<or> (\<exists>e. dec bs = err e)"
  using dec_no_panic [of bs] by (cases "dec bs") (auto intro: fail.exhaust)

end

locale canonical_codec = message_codec +
  assumes dec_sound: "dec bs = ok m \<Longrightarrow> wf m \<and> enc m = ok bs"
begin

lemma dec_inj: "dec bs = ok m \<Longrightarrow> dec bs' = ok m \<Longrightarrow> bs = bs'"
  using dec_sound [of bs m] dec_sound [of bs' m] by simp

end

end
