(* ===== verification/Smux_Frame.thy ===== *)
theory Smux_Frame
  imports Prelude
begin

text \<open>
  The wire format of the stream multiplexer (\<open>internal/smux/frame.go\<close>, \<open>errors.go\<close>): the frame
  record, its 12-byte header, the reader with its allocation cap, the writer, and the frame
  constructors the session uses.
\<close>

section \<open>Constants\<close>

definition FrameData :: byte where "FrameData = 0"
definition FrameSyn :: byte where "FrameSyn = 1"
definition FrameFin :: byte where "FrameFin = 2"
definition FrameRst :: byte where "FrameRst = 3"
definition FramePing :: byte where "FramePing = 4"
definition FrameGoAway :: byte where "FrameGoAway = 5"

definition FlagSyn :: u16 where "FlagSyn = 1"
definition FlagFin :: u16 where "FlagFin = 2"
definition FlagRst :: u16 where "FlagRst = 4"
definition FlagAck :: u16 where "FlagAck = 8"

definition HeaderSize :: nat where "HeaderSize = 12"
definition ProtocolVersion :: byte where "ProtocolVersion = 1"
definition MaxStreamID :: u32 where "MaxStreamID = 0x7FFFFFFF"

definition GoAwayNormal :: u32 where "GoAwayNormal = 0"
definition GoAwayProtocolError :: u32 where "GoAwayProtocolError = 1"
definition RSTRefused :: u32 where "RSTRefused = 1"

lemmas frame_consts =
  FrameData_def FrameSyn_def FrameFin_def FrameRst_def FramePing_def FrameGoAway_def
  FlagSyn_def FlagFin_def FlagRst_def FlagAck_def HeaderSize_def ProtocolVersion_def
  MaxStreamID_def GoAwayNormal_def GoAwayProtocolError_def RSTRefused_def

section \<open>Frames\<close>

record frame =
  Version :: byte
  FType :: byte
  Flags :: u16
  StreamID :: u32
  Length :: u32
  Payload :: bytes

datatype frame_error =
    FrameIO io_error
  | FrameTooLong u32 int

definition encodeHeader :: "frame \<Rightarrow> bytes \<Rightarrow> bytes" where
  \<comment> \<open>writes the header into the first 12 bytes of \<open>dst\<close>\<close>
  "encodeHeader f dst =
     copy_at (copy_at (copy_at (copy_at (copy_at dst
       0 [Version f]) 1 [FType f]) 2 (put16 (Flags f))) 4 (put32 (StreamID f))) 8 (put32 (Length f))"

definition readFrame :: "bytes \<Rightarrow> int \<Rightarrow> (frame_error, frame \<times> bytes) res" where
  "readFrame r maxPayload =
     and_then (readFull FrameIO r HeaderSize) (\<lambda>(hdr, r).
     and_then (byte_at hdr 0) (\<lambda>v.
     and_then (byte_at hdr 1) (\<lambda>t.
     and_then (get16 hdr 2) (\<lambda>fl.
     and_then (get32 hdr 4) (\<lambda>sid.
     and_then (get32 hdr 8) (\<lambda>len.
     guard (maxPayload > 0 \<and> len > of_int maxPayload) (FrameTooLong len maxPayload)
       (let f = \<lparr>Version = v, FType = t, Flags = fl, StreamID = sid, Length = len, Payload = []\<rparr>
        in if len > 0
           then and_then (readFull FrameIO r (unat len)) (\<lambda>(p, r). ok (f\<lparr>Payload := p\<rparr>, r))
           else ok (f, r))))))))"

definition writeFrame :: "frame \<Rightarrow> bytes" where
  "writeFrame f =
     (let buf = replicate (HeaderSize + length (Payload f)) 0;
          buf = encodeHeader f (take HeaderSize buf) @ drop HeaderSize buf
      in copy_at buf HeaderSize (Payload f))"

definition newDataFrame :: "u32 \<Rightarrow> bytes \<Rightarrow> frame" where
  "newDataFrame streamID payload =
     \<lparr>Version = ProtocolVersion, FType = FrameData, Flags = 0, StreamID = streamID,
      Length = of_nat (length payload), Payload = payload\<rparr>"

definition newSynFrame :: "u32 \<Rightarrow> bool \<Rightarrow> frame" where
  "newSynFrame streamID ack =
     \<lparr>Version = ProtocolVersion, FType = FrameSyn,
      Flags = (if ack then or FlagSyn FlagAck else FlagSyn), StreamID = streamID,
      Length = 0, Payload = []\<rparr>"

definition newFinFrame :: "u32 \<Rightarrow> frame" where
  "newFinFrame streamID =
     \<lparr>Version = ProtocolVersion, FType = FrameFin, Flags = FlagFin, StreamID = streamID,
      Length = 0, Payload = []\<rparr>"

definition newRstFrame :: "u32 \<Rightarrow> u32 \<Rightarrow> frame" where
  "newRstFrame streamID code =
     \<lparr>Version = ProtocolVersion, FType = FrameRst, Flags = FlagRst, StreamID = streamID,
      Length = 4, Payload = put32 code\<rparr>"

definition newPingFrame :: "u32 \<Rightarrow> frame" where
  "newPingFrame opaque =
     \<lparr>Version = ProtocolVersion, FType = FramePing, Flags = 0, StreamID = 0,
      Length = 4, Payload = put32 opaque\<rparr>"

definition newGoAwayFrame :: "u32 \<Rightarrow> frame" where
  "newGoAwayFrame code =
     \<lparr>Version = ProtocolVersion, FType = FrameGoAway, Flags = 0, StreamID = 0,
      Length = 4, Payload = put32 code\<rparr>"

section \<open>Layout and round trip\<close>

definition wf_frame :: "int \<Rightarrow> frame \<Rightarrow> bool" where
  \<comment> \<open>the declared length is the payload's, and the reader's cap admits it\<close>
  "wf_frame maxPayload f \<longleftrightarrow>
     unat (Length f) = length (Payload f) \<and> \<not> (maxPayload > 0 \<and> Length f > of_int maxPayload)"

lemma encodeHeader_layout:
  "encodeHeader f (replicate 12 z) =
     [Version f, FType f] @ put16 (Flags f) @ put32 (StreamID f) @ put32 (Length f)"
proof -
  have "replicate 12 z = [z, z, z, z, z, z, z, z, z, z, z, z]"
    by (simp add: eval_nat_numeral)
  then show ?thesis
    by (simp add: encodeHeader_def copy_at_def put16_def put32_def)
qed

lemma writeFrame_layout:
  "writeFrame f =
     [Version f, FType f] @ put16 (Flags f) @ put32 (StreamID f) @ put32 (Length f) @ Payload f"
proof -
  let ?hdr = "[Version f, FType f] @ put16 (Flags f) @ put32 (StreamID f) @ put32 (Length f)"
  have "writeFrame f = copy_at (?hdr @ replicate (length (Payload f)) 0) 12 (Payload f)"
    by (simp only: writeFrame_def Let_def HeaderSize_def take_replicate drop_replicate
          encodeHeader_layout) (simp add: encodeHeader_layout)
  also have "\<dots> = (?hdr @ Payload f) @ replicate (length (Payload f) - length (Payload f)) 0"
    by (rule copy_at_fill) simp_all
  finally show ?thesis by simp
qed

abbreviation header_bytes :: "frame \<Rightarrow> bytes" where
  "header_bytes f \<equiv> Version f # FType f # put16 (Flags f) @ put32 (StreamID f) @ put32 (Length f)"

lemma header_flags: "get16 (header_bytes f) 2 = ok (Flags f)"
  by (rule get16_drop [where r = "put32 (StreamID f) @ put32 (Length f)"]) simp

lemma header_stream: "get32 (header_bytes f) 4 = ok (StreamID f)"
  by (rule get32_drop [where r = "put32 (Length f)"]) simp

lemma header_length: "get32 (header_bytes f) 8 = ok (Length f)"
  by (rule get32_drop [where r = "[]"]) simp

lemmas header_fields = header_flags header_stream header_length

lemma readFrame_writeFrame:
  assumes "wf_frame maxPayload f"
  shows "readFrame (writeFrame f @ rest) maxPayload = ok (f, rest)"
proof -
  have split: "writeFrame f @ rest = header_bytes f @ (Payload f @ rest)"
    by (simp add: writeFrame_layout)
  have hdr: "readFull FrameIO (writeFrame f @ rest) HeaderSize = ok (header_bytes f, Payload f @ rest)"
    unfolding split by (rule readFull_append) (simp add: HeaderSize_def)
  have pay: "readFull FrameIO (Payload f @ rest) (unat (Length f)) = ok (Payload f, rest)"
    using assms by (intro readFull_append) (simp add: wf_frame_def)
  have cap: "\<not> (maxPayload > 0 \<and> Length f > of_int maxPayload)"
    using assms by (simp add: wf_frame_def)
  have "Payload f = []" if "\<not> Length f > 0"
    using assms that by (simp add: wf_frame_def word_greater_zero_iff)
  with cap pay show ?thesis
    unfolding readFrame_def hdr and_then_simps prod.case header_fields
    by (cases f) (auto simp: byte_at_def guard_def Let_def)
qed

lemma readFrame_sound:
  assumes "readFrame bs maxPayload = ok (f, rest)"
  shows "wf_frame maxPayload f \<and> bs = writeFrame f @ rest"
proof -
  from assms obtain hdr r where
    hdr: "bs = hdr @ r" "length hdr = 12"
    and v: "Version f = hdr ! 0" and t: "FType f = hdr ! 1"
    and fl: "(get16 hdr 2 :: (frame_error, u16) res) = ok (Flags f)"
    and sid: "(get32 hdr 4 :: (frame_error, u32) res) = ok (StreamID f)"
    and len: "(get32 hdr 8 :: (frame_error, u32) res) = ok (Length f)"
    and cap: "\<not> (maxPayload > 0 \<and> Length f > of_int maxPayload)"
    and pay: "r = Payload f @ rest" "length (Payload f) = unat (Length f)"
    by (auto simp: readFrame_def res_iffs readFull_eq_Inr Let_def HeaderSize_def
          word_greater_zero_iff split: if_splits)
  have "hdr = take 2 hdr @ take 2 (drop 2 hdr) @ take 4 (drop 4 hdr) @ take 4 (drop 8 hdr)"
    using drop_field [of 0 hdr 2] drop_field [of 2 hdr 2] drop_field [of 4 hdr 4] hdr(2) by simp
  moreover have "take 2 hdr = [hdr ! 0, hdr ! 1]"
    using hdr(2) by (auto simp: list_eq_iff_nth_eq less_Suc_eq eval_nat_numeral)
  ultimately have "hdr = header_bytes f"
    using get16_eq_Inr(2) [OF fl] get32_eq_Inr(2) [OF sid] get32_eq_Inr(2) [OF len] v t by simp
  with hdr(1) pay cap show ?thesis
    by (simp add: writeFrame_layout wf_frame_def)
qed

text \<open>
  The reader under the cap \<open>maxPayload\<close> and the writer are a self-delimiting codec on the frames
  the cap admits.
\<close>

interpretation smux: stream_codec writeFrame "\<lambda>bs. readFrame bs maxPayload" "wf_frame maxPayload"
  for maxPayload
proof
  fix f assume "wf_frame maxPayload f"
  then show "readFrame (writeFrame f @ rest) maxPayload = ok (f, rest)" for rest
    by (rule readFrame_writeFrame)
  show "writeFrame f \<noteq> []" by (simp add: writeFrame_layout)
qed (rule readFrame_sound)

lemma readFrame_no_panic: "readFrame bs maxPayload \<noteq> Inl Panic"
  by (auto simp: readFrame_def res_iffs readFull_eq_Inr HeaderSize_def Let_def split: if_splits)

lemma wf_frame_bound:
  assumes "wf_frame maxPayload f" "0 < maxPayload" "maxPayload < 2 ^ 32"
  shows "int (length (Payload f)) \<le> maxPayload"
proof -
  have "uint (Length f) \<le> uint (of_int maxPayload :: u32)"
    using assms(1,2) by (simp add: wf_frame_def word_le_def not_less)
  also have "\<dots> = maxPayload"
    using assms(2,3) by (simp add: uint_word_of_int)
  finally show ?thesis
    using assms(1) by (metis uint_nat wf_frame_def)
qed

section \<open>Properties\<close>

text \<open>
  C15. A sequence of frames whose declared lengths are their payload lengths and are within the
  reader's cap, written back to back, is read back as exactly that sequence, and the bytes that
  follow it are left in the stream.
\<close>

theorem readFrame_stream_roundtrip:
  assumes "\<forall>f\<in>set fs. wf_frame maxPayload f"
  shows "read_frames (\<lambda>bs. readFrame bs maxPayload) (length fs)
           (concat (map writeFrame fs) @ rest) = ok (fs, rest)"
  using assms by (rule smux.read_frames_concat)

theorem readFrame_stream_roundtrip_witness:
  "read_frames (\<lambda>bs. readFrame bs 64) (length [newSynFrame 1 False, newDataFrame 1 [7, 8]])
     (concat (map writeFrame [newSynFrame 1 False, newDataFrame 1 [7, 8]]) @ [9])
   = ok ([newSynFrame 1 False, newDataFrame 1 [7, 8]], [9])"
  by (rule readFrame_stream_roundtrip)
    (simp add: wf_frame_def newSynFrame_def newDataFrame_def)

text \<open>
  Whatever the reader accepts from the wire is the encoding of the frame it returns, so no
  byte is skipped or invented; it never panics; and with a positive cap below \<open>2^32\<close> no payload
  longer than the cap is ever allocated.
\<close>

lemma readFrame_safe:
  assumes "0 < maxPayload" "maxPayload < 2 ^ 32"
  shows "readFrame bs maxPayload \<noteq> Inl Panic \<and>
         (\<forall>f rest. readFrame bs maxPayload = ok (f, rest) \<longrightarrow>
            bs = writeFrame f @ rest \<and> int (length (Payload f)) \<le> maxPayload)"
  using assms readFrame_no_panic readFrame_sound wf_frame_bound by blast

end
