(* ===== verification/Smux_Session.thy ===== *)
theory Smux_Session
  imports Smux_Frame
begin

text \<open>
  The multiplexed session (\<open>internal/smux/smux.go\<close>, \<open>session.go\<close>, \<open>stream.go\<close>). A session is a
  record of its Go fields. Streams are heap objects (the session's map, the accept queue and the
  application share pointers to them), so the heap is a list and an address is a position in it;
  objects are never freed. The buffered channels are lists with the capacity the code gives
  them, and the \<open>MaxStreams\<close> semaphore is its number of tokens. Each method runs as one step
  between the places where it can block; a method stopped at a full channel returns \<open>Blocked\<close>
  with the state reached so far. Where a \<open>select\<close> has several ready cases, the argument \<open>pick\<close>
  stands for Go's random choice.
\<close>

section \<open>Configuration\<close>

record config =
  MaxStreams :: int
  MaxFrameSize :: int
  WriteBufferSize :: int
  AcceptBacklog :: int
  HandshakeTimeout :: int
  StreamIdleTimeout :: int
  PingInterval :: int
  PingTimeout :: int

definition second :: int where "second = 1000000000"

definition DefaultConfig :: config where
  "DefaultConfig =
     \<lparr>MaxStreams = 256, MaxFrameSize = 16384, WriteBufferSize = 262144, AcceptBacklog = 64,
      HandshakeTimeout = 30 * second, StreamIdleTimeout = 0, PingInterval = 0, PingTimeout = 0\<rparr>"

definition validateConfig :: "config \<Rightarrow> config" where
  "validateConfig c =
     (let c = (if MaxFrameSize c < 64 then c\<lparr>MaxFrameSize := 16384\<rparr> else c);
          c = (if MaxFrameSize c > 65535 then c\<lparr>MaxFrameSize := 65535\<rparr> else c);
          c = (if AcceptBacklog c < 1 then c\<lparr>AcceptBacklog := 64\<rparr> else c)
      in if HandshakeTimeout c = 0 then c\<lparr>HandshakeTimeout := 10 * second\<rparr> else c)"

section \<open>State\<close>

record stream =
  st_id :: u32
  readBuf :: bytes
  readCh :: bool
  closeOnce :: bool
  localClosed :: bool
  remoteClosed :: bool
  resetErr :: bool
  maxReadBuf :: int

record session =
  cfg :: config
  clientMode :: bool
  heap :: "stream list"
  streams :: "(u32 \<times> nat) list"
  nextStreamID :: u32
  streamSlotCh :: nat
  acceptCh :: "nat list"
  writeCh :: "frame list"
  closed :: bool
  handshakeDone :: bool
  connClosed :: bool
  lastActivity :: int
  bytesSent :: u64
  bytesReceived :: u64

datatype smux_error =
    ErrSessionClosed | ErrStreamsExhausted | ErrStreamReset | ErrStreamClosed | ErrMaxStreams
  | ErrEOF | ErrClosedPipe | ErrContext | ErrHandshakeTimeout

datatype 'a outcome = Blocked | Ret 'a | Fail smux_error

definition writeChCap :: nat where "writeChCap = 256"

definition newSession :: "bool \<Rightarrow> u32 \<Rightarrow> config \<Rightarrow> session" where
  "newSession mode firstID c =
     \<lparr>cfg = validateConfig c, clientMode = mode, heap = [], streams = [], nextStreamID = firstID,
      streamSlotCh = 0, acceptCh = [], writeCh = [], closed = False, handshakeDone = False,
      connClosed = False, lastActivity = 0, bytesSent = 0, bytesReceived = 0\<rparr>"

definition smux_Client :: "config \<Rightarrow> session" where "smux_Client c = newSession True 1 c"
definition smux_Server :: "config \<Rightarrow> session" where "smux_Server c = newSession False 2 c"

section \<open>Channels\<close>

datatype sent = Sent session | Done | Full

definition sendFrame :: "bool \<Rightarrow> frame \<Rightarrow> session \<Rightarrow> sent" where
  \<comment> \<open>\<open>select { case s.writeCh <- f: case <-s.doneCh: }\<close>\<close>
  "sendFrame pick f s =
     (if length (writeCh s) < writeChCap \<and> (\<not> closed s \<or> pick)
      then Sent (s\<lparr>writeCh := writeCh s @ [f]\<rparr>)
      else if closed s then Done else Full)"

definition trySend :: "frame \<Rightarrow> session \<Rightarrow> session" where
  \<comment> \<open>\<open>select { case s.writeCh <- f: default: }\<close>\<close>
  "trySend f s =
     (if length (writeCh s) < writeChCap then s\<lparr>writeCh := writeCh s @ [f]\<rparr> else s)"

definition releaseSlot :: "session \<Rightarrow> session" where
  \<comment> \<open>\<open>select { case <-s.streamSlotCh: default: }\<close>\<close>
  "releaseSlot s = s\<lparr>streamSlotCh := streamSlotCh s - 1\<rparr>"

section \<open>Streams\<close>

definition newStream :: "u32 \<Rightarrow> session \<Rightarrow> stream" where
  "newStream i s =
     \<lparr>st_id = i, readBuf = [], readCh = False, closeOnce = False, localClosed = False,
      remoteClosed = False, resetErr = False,
      maxReadBuf = (if WriteBufferSize (cfg s) \<le> 0 then 262144 else WriteBufferSize (cfg s))\<rparr>"

definition signalRead :: "stream \<Rightarrow> stream" where
  "signalRead st = st\<lparr>readCh := True\<rparr>"

definition onData :: "bytes \<Rightarrow> stream \<Rightarrow> stream" where
  "onData payload st =
     (if int (length (readBuf st)) + int (length payload) > maxReadBuf st
      then signalRead (st\<lparr>resetErr := True, remoteClosed := True\<rparr>)
      else signalRead (st\<lparr>readBuf := readBuf st @ payload\<rparr>))"

definition onFin :: "stream \<Rightarrow> stream" where
  "onFin st = signalRead (st\<lparr>remoteClosed := True\<rparr>)"

definition onRst :: "stream \<Rightarrow> stream" where
  "onRst st = signalRead (st\<lparr>resetErr := True, remoteClosed := True\<rparr>)"

definition upd :: "nat \<Rightarrow> (stream \<Rightarrow> stream) \<Rightarrow> session \<Rightarrow> session" where
  "upd a g s = s\<lparr>heap := (heap s)[a := g (heap s ! a)]\<rparr>"

definition removeStream :: "u32 \<Rightarrow> session \<Rightarrow> session" where
  "removeStream i s = s\<lparr>streams := AList.delete i (streams s)\<rparr>"

definition streamClosed :: "u32 \<Rightarrow> session \<Rightarrow> session" where
  "streamClosed i s =
     (let s = removeStream i s in if MaxStreams (cfg s) > 0 then releaseSlot s else s)"

definition registerStream :: "u32 \<Rightarrow> session \<Rightarrow> session" where
  \<comment> \<open>\<open>st := newStream(id, s); s.streams[id] = st\<close>: the new object's address is \<open>length (heap s)\<close>\<close>
  "registerStream i s =
     s\<lparr>heap := heap s @ [newStream i s], streams := AList.update i (length (heap s)) (streams s)\<rparr>"

section \<open>Session operations\<close>

definition OpenStream :: "bool \<Rightarrow> bool \<Rightarrow> session \<Rightarrow> nat outcome \<times> session" where
  "OpenStream pick ctxDone s =
     (if closed s then (Fail ErrSessionClosed, s)
      else
        let limited = MaxStreams (cfg s) > 0;
            slotReady = int (streamSlotCh s) < MaxStreams (cfg s)
        in if limited \<and> \<not> slotReady
           then (if ctxDone then (Fail ErrMaxStreams, s) else (Blocked, s))
           else if limited \<and> ctxDone \<and> \<not> pick then (Fail ErrMaxStreams, s)
           else
             let s = (if limited then s\<lparr>streamSlotCh := streamSlotCh s + 1\<rparr> else s)
             in if nextStreamID s \<ge> MaxStreamID
                then (Fail ErrStreamsExhausted, if limited then releaseSlot s else s)
                else
                  let streamID = nextStreamID s;
                      a = length (heap s);
                      s = registerStream streamID (s\<lparr>nextStreamID := nextStreamID s + 2\<rparr>)
                  in (case sendFrame pick (newSynFrame streamID False) s of
                        Sent s \<Rightarrow> (Ret a, s)
                      | Done \<Rightarrow> (Fail ErrSessionClosed, removeStream streamID s)
                      | Full \<Rightarrow> (Blocked, s)))"

definition AcceptStream :: "bool \<Rightarrow> bool \<Rightarrow> session \<Rightarrow> nat outcome \<times> session" where
  "AcceptStream pick ctxDone s =
     (if closed s then (Fail ErrSessionClosed, s)
      else case acceptCh s of
        a # as \<Rightarrow>
          if ctxDone \<and> \<not> pick then (Fail ErrContext, s) else (Ret a, s\<lparr>acceptCh := as\<rparr>)
      | [] \<Rightarrow> if ctxDone then (Fail ErrContext, s) else (Blocked, s))"

definition NumStreams :: "session \<Rightarrow> nat" where
  "NumStreams s = length (streams s)"

definition finAll :: "session \<Rightarrow> session" where
  \<comment> \<open>\<open>for _, st := range s.streams { st.onFin() }; s.streams = make(...)\<close>\<close>
  "finAll s = (fold (\<lambda>(_, a). upd a onFin) (streams s) s)\<lparr>streams := []\<rparr>"

definition session_Close :: "session \<Rightarrow> session" where
  "session_Close s =
     (if closed s then s
      else (finAll (trySend (newGoAwayFrame GoAwayNormal) (s\<lparr>closed := True\<rparr>)))\<lparr>connClosed := True\<rparr>)"

definition abort :: "session \<Rightarrow> session" where
  "abort s = (if closed s then s else (finAll (s\<lparr>closed := True\<rparr>))\<lparr>connClosed := True\<rparr>)"

section \<open>Frame handlers\<close>

definition handleData :: "frame \<Rightarrow> session \<Rightarrow> session" where
  "handleData f s =
     (case map_of (streams s) (StreamID f) of
        Some a \<Rightarrow> upd a (onData (Payload f)) s
      | None \<Rightarrow> s)"

definition deliverRemote :: "bool \<Rightarrow> u32 \<Rightarrow> session \<Rightarrow> unit outcome \<times> session" where
  \<comment> \<open>the end of \<open>handleSyn\<close>: create the stream, send SYN+ACK, queue it for \<open>AcceptStream\<close>\<close>
  "deliverRemote pick i s =
     (let a = length (heap s);
          s = registerStream i s
      in (case sendFrame pick (newSynFrame i True) s of
            Done \<Rightarrow> (Ret (), s)
          | Full \<Rightarrow> (Blocked, s)
          | Sent s \<Rightarrow>
              if closed s \<and> \<not> pick then (Ret (), s)
              else (Ret (), s\<lparr>acceptCh := acceptCh s @ [a]\<rparr>)))"

definition handleSyn :: "bool \<Rightarrow> frame \<Rightarrow> session \<Rightarrow> unit outcome \<times> session" where
  "handleSyn pick f s =
     (if and (Flags f) FlagAck \<noteq> 0 then (Ret (), s)
      else if map_of (streams s) (StreamID f) \<noteq> None then (Ret (), s)
      else if int (length (acceptCh s)) \<ge> AcceptBacklog (cfg s)
      then (case sendFrame pick (newRstFrame (StreamID f) RSTRefused) s of
              Sent s \<Rightarrow> (Ret (), s) | Done \<Rightarrow> (Ret (), s) | Full \<Rightarrow> (Blocked, s))
      else if MaxStreams (cfg s) > 0
      then (let slotReady = int (streamSlotCh s) < MaxStreams (cfg s)
            in if closed s \<and> \<not> (slotReady \<and> pick) then (Ret (), s)
               else if \<not> slotReady then (Blocked, s)
               else deliverRemote pick (StreamID f) (s\<lparr>streamSlotCh := streamSlotCh s + 1\<rparr>))
      else deliverRemote pick (StreamID f) s)"

definition handleFin :: "frame \<Rightarrow> session \<Rightarrow> session" where
  "handleFin f s =
     (case map_of (streams s) (StreamID f) of
        Some a \<Rightarrow>
          let s = upd a onFin s
          in if localClosed (heap s ! a) then removeStream (StreamID f) s else s
      | None \<Rightarrow> s)"

definition handleRst :: "frame \<Rightarrow> session \<Rightarrow> session" where
  "handleRst f s =
     (case map_of (streams s) (StreamID f) of
        Some a \<Rightarrow>
          let s = removeStream (StreamID f) (upd a onRst s)
          in if MaxStreams (cfg s) > 0 then releaseSlot s else s
      | None \<Rightarrow> s)"

definition handleHandshakeSyn :: "bool \<Rightarrow> frame \<Rightarrow> session \<Rightarrow> unit outcome \<times> session" where
  "handleHandshakeSyn pick f s =
     (if StreamID f \<noteq> 0 then (Ret (), s)
      else if clientMode s then (Ret (), s\<lparr>handshakeDone := True\<rparr>)
      else case sendFrame pick (newSynFrame 0 True) s of
             Full \<Rightarrow> (Blocked, s)
           | Done \<Rightarrow> (Ret (), s\<lparr>handshakeDone := True\<rparr>)
           | Sent s \<Rightarrow> (Ret (), s\<lparr>handshakeDone := True\<rparr>))"

definition dispatch :: "bool \<Rightarrow> frame \<Rightarrow> session \<Rightarrow> unit outcome \<times> session" where
  "dispatch pick f s =
     (if StreamID f = 0
      then if FType f = FrameSyn then handleHandshakeSyn pick f s
           else if FType f = FrameGoAway then (Ret (), session_Close s)
           else (Ret (), s)
      else if FType f = FrameData then (Ret (), handleData f s)
      else if FType f = FrameSyn then handleSyn pick f s
      else if FType f = FrameFin then (Ret (), handleFin f s)
      else if FType f = FrameRst then (Ret (), handleRst f s)
      else (Ret (), s))"

section \<open>The background goroutines\<close>

datatype loop_status = Running | Stopped | Stuck

definition reader_step :: "bool \<Rightarrow> int \<Rightarrow> bytes \<Rightarrow> session \<Rightarrow> loop_status \<times> bytes \<times> session" where
  \<comment> \<open>one turn of \<open>reader\<close>: \<open>r\<close> is what the connection still delivers\<close>
  "reader_step pick now r s =
     (case readFrame r (MaxFrameSize (cfg s)) of
        Inl _ \<Rightarrow> (Stopped, r, abort s)
      | Inr (f, r) \<Rightarrow>
          let s = s\<lparr>bytesReceived := bytesReceived s + of_nat (HeaderSize + length (Payload f)),
                    lastActivity := now\<rparr>
          in if Version f \<noteq> ProtocolVersion
             then (Stopped, r, abort (trySend (newGoAwayFrame GoAwayProtocolError) s))
             else (case dispatch pick f s of
                     (Blocked, s) \<Rightarrow> (Stuck, r, s)
                   | (_, s) \<Rightarrow> (Running, r, s)))"

definition writer_step :: "bool \<Rightarrow> bool \<Rightarrow> session \<Rightarrow> loop_status \<times> bytes \<times> session" where
  \<comment> \<open>one turn of \<open>writer\<close>: the bytes handed to the connection, unless the write fails\<close>
  "writer_step pick ioErr s =
     (case writeCh s of
        [] \<Rightarrow> ((if closed s then Stopped else Stuck), [], s)
      | f # fs \<Rightarrow>
          if closed s \<and> \<not> pick then (Stopped, [], s)
          else let s = s\<lparr>writeCh := fs\<rparr>
               in if ioErr then (Stopped, [], abort s)
                  else (Running, writeFrame f,
                        s\<lparr>bytesSent := bytesSent s + of_nat (HeaderSize + length (Payload f))\<rparr>))"

definition keepalive_tick :: "int \<Rightarrow> session \<Rightarrow> loop_status \<times> session" where
  \<comment> \<open>one tick of \<open>keepaliveLoop\<close>; a ping that cannot be queued for \<open>timeout\<close> aborts the session\<close>
  "keepalive_tick now s =
     (let timeout = (if PingTimeout (cfg s) \<le> 0 then 3 * PingInterval (cfg s)
                     else PingTimeout (cfg s))
      in if closed s then (Stopped, s)
         else (case sendFrame True (newPingFrame 0) s of
                 Sent s \<Rightarrow> if now - lastActivity s > timeout then (Stopped, abort s) else (Running, s)
               | _ \<Rightarrow> (Stopped, abort s)))"

section \<open>Stream operations\<close>

definition stream_Read :: "nat \<Rightarrow> nat \<Rightarrow> session \<Rightarrow> bytes outcome \<times> session" where
  \<comment> \<open>\<open>Read\<close> into a buffer of \<open>n\<close> bytes of the stream at address \<open>a\<close>\<close>
  "stream_Read a n s =
     (let st = heap s ! a
      in if readBuf st \<noteq> []
         then (Ret (take n (readBuf st)), upd a (\<lambda>st. st\<lparr>readBuf := drop n (readBuf st)\<rparr>) s)
         else if resetErr st then (Fail ErrStreamReset, s)
         else if remoteClosed st then (Fail ErrEOF, s)
         else if localClosed st then (Fail ErrClosedPipe, s)
         else if closed s then (Fail ErrEOF, s)
         else (Blocked, upd a (\<lambda>st. st\<lparr>readCh := False\<rparr>) s))"

function writeLoop :: "u32 \<Rightarrow> bytes \<Rightarrow> nat \<Rightarrow> session \<Rightarrow> nat \<times> unit outcome \<times> session" where
  \<comment> \<open>the loop of \<open>Write\<close>, with the bytes sent so far; a positive frame size is what
    \<open>validateConfig\<close> gives every session\<close>
  "writeLoop i b n s =
     (if b = [] then (n, Ret (), s)
      else if MaxFrameSize (cfg s) \<le> 0 then (n, Blocked, s)
      else let k = min (length b) (nat (MaxFrameSize (cfg s)))
           in case sendFrame False (newDataFrame i (take k b)) s of
                Sent s \<Rightarrow> writeLoop i (drop k b) (n + k) s
              | Done \<Rightarrow> (n, Fail ErrSessionClosed, s)
              | Full \<Rightarrow> (n, Blocked, s))"
  by pat_completeness auto
termination
  by (relation "measure (\<lambda>(i, b, n, s). length b)") auto

declare writeLoop.simps [simp del]

definition stream_Write :: "nat \<Rightarrow> bytes \<Rightarrow> session \<Rightarrow> nat \<times> unit outcome \<times> session" where
  "stream_Write a b s =
     (if localClosed (heap s ! a) then (0, Fail ErrStreamClosed, s)
      else if closed s then (0, Fail ErrSessionClosed, s)
      else writeLoop (st_id (heap s ! a)) b 0 s)"

definition stream_Close :: "bool \<Rightarrow> nat \<Rightarrow> session \<Rightarrow> unit outcome \<times> session" where
  "stream_Close pick a s =
     (if closeOnce (heap s ! a) then (Ret (), s)
      else
        let s = upd a (\<lambda>st. st\<lparr>closeOnce := True, localClosed := True\<rparr>) s;
            i = st_id (heap s ! a);
            finish = (\<lambda>s. (Ret (), streamClosed i (upd a signalRead s)))
        in (case sendFrame pick (newFinFrame i) s of
              Sent s \<Rightarrow> finish s | Done \<Rightarrow> finish s | Full \<Rightarrow> (Blocked, s)))"

section \<open>The session handshake\<close>

definition handshake_wait :: "bool \<Rightarrow> bool \<Rightarrow> session \<Rightarrow> unit outcome" where
  \<comment> \<open>the final \<open>select\<close> of \<open>handshake\<close>; \<open>timedOut\<close> is whether the timer has fired\<close>
  "handshake_wait pick timedOut s =
     (if handshakeDone s \<and> (pick \<or> \<not> closed s \<and> \<not> timedOut) then Ret ()
      else if closed s \<and> (pick \<or> \<not> timedOut) then Fail ErrSessionClosed
      else if timedOut then Fail ErrHandshakeTimeout
      else Blocked)"

definition handshake :: "bool \<Rightarrow> bool \<Rightarrow> session \<Rightarrow> unit outcome \<times> session" where
  "handshake pick timedOut s =
     (if clientMode s
      then (case sendFrame pick (newSynFrame 0 False) s of
              Sent s \<Rightarrow> (handshake_wait pick timedOut s, s)
            | Done \<Rightarrow> (Fail ErrSessionClosed, s)
            | Full \<Rightarrow> (if timedOut then Fail ErrHandshakeTimeout else Blocked, s))
      else (handshake_wait pick timedOut s, s))"

definition smux_connect :: "bool \<Rightarrow> bool \<Rightarrow> session \<Rightarrow> unit outcome \<times> session" where
  \<comment> \<open>the end of \<open>Client\<close> and \<open>Server\<close>: a failed handshake closes the session\<close>
  "smux_connect pick timedOut s =
     (case handshake pick timedOut s of
        (Fail e, s) \<Rightarrow> (Fail e, session_Close s)
      | (out, s) \<Rightarrow> (out, s))"

section \<open>The step relation\<close>

definition frame_ok :: "config \<Rightarrow> frame \<Rightarrow> bool" where
  "frame_ok c f \<longleftrightarrow> wf_frame (MaxFrameSize c) f \<and> Version f = ProtocolVersion"

text \<open>
  The steps a session can take: a method called by the application, a turn of a background
  goroutine on whatever bytes the peer sends, a keepalive tick. The \<open>resume\<close> steps are the rest
  of a method that returned \<open>Blocked\<close>: its pending frame goes into the channel, and what follows
  the send in \<open>OpenStream\<close>, \<open>handleSyn\<close> and \<open>stream_Close\<close> happens later. They are allowed for
  every stream and every frame a session may send, so they cover all interleavings.
\<close>

inductive smux_step :: "session \<Rightarrow> session \<Rightarrow> bool" where
  do_open_stream: "smux_step s (snd (OpenStream pick ctxDone s))"
| do_accept_stream: "smux_step s (snd (AcceptStream pick ctxDone s))"
| do_close_session: "smux_step s (session_Close s)"
| do_reader: "smux_step s (snd (snd (reader_step pick now r s)))"
| do_writer: "smux_step s (snd (snd (writer_step pick ioErr s)))"
| do_keepalive: "smux_step s (snd (keepalive_tick now s))"
| do_read: "a < length (heap s) \<Longrightarrow> smux_step s (snd (stream_Read a n s))"
| do_write: "a < length (heap s) \<Longrightarrow> smux_step s (snd (snd (stream_Write a b s)))"
| do_close: "a < length (heap s) \<Longrightarrow> smux_step s (snd (stream_Close pick a s))"
| do_connect: "smux_step s (snd (smux_connect pick timedOut s))"
| resume_send: "frame_ok (cfg s) f \<Longrightarrow> sendFrame pick f s = Sent t \<Longrightarrow> smux_step s t"
| resume_open: "closed s \<Longrightarrow> smux_step s (removeStream i s)"
| resume_accept: "a < length (heap s) \<Longrightarrow> int (length (acceptCh s)) < AcceptBacklog (cfg s) \<Longrightarrow>
    smux_step s (s\<lparr>acceptCh := acceptCh s @ [a]\<rparr>)"
| resume_close: "a < length (heap s) \<Longrightarrow>
    smux_step s (streamClosed (st_id (heap s ! a)) (upd a signalRead s))"

inductive smux_reachable :: "config \<Rightarrow> session \<Rightarrow> bool" for c where
  client: "smux_reachable c (smux_Client c)"
| server: "smux_reachable c (smux_Server c)"
| step: "smux_reachable c s \<Longrightarrow> smux_step s t \<Longrightarrow> smux_reachable c t"

section \<open>The resource invariant\<close>

definition stream_ok :: "config \<Rightarrow> stream \<Rightarrow> bool" where
  "stream_ok c st \<longleftrightarrow>
     maxReadBuf st = (if WriteBufferSize c \<le> 0 then 262144 else WriteBufferSize c) \<and>
     int (length (readBuf st)) \<le> maxReadBuf st"

definition session_inv :: "session \<Rightarrow> bool" where
  "session_inv s \<longleftrightarrow>
     64 \<le> MaxFrameSize (cfg s) \<and> MaxFrameSize (cfg s) \<le> 65535 \<and> 1 \<le> AcceptBacklog (cfg s) \<and>
     (\<forall>st\<in>set (heap s). stream_ok (cfg s) st) \<and>
     distinct (map fst (streams s)) \<and>
     (\<forall>(i, a)\<in>set (streams s). a < length (heap s) \<and> st_id (heap s ! a) = i) \<and>
     (\<forall>a\<in>set (acceptCh s). a < length (heap s)) \<and>
     int (length (acceptCh s)) \<le> AcceptBacklog (cfg s) \<and>
     length (writeCh s) \<le> writeChCap \<and>
     (\<forall>f\<in>set (writeCh s). frame_ok (cfg s) f) \<and>
     int (streamSlotCh s) \<le> max 0 (MaxStreams (cfg s))"

lemma validateConfig_bounds [simp]:
  "64 \<le> MaxFrameSize (validateConfig c)" "MaxFrameSize (validateConfig c) \<le> 65535"
  "1 \<le> AcceptBacklog (validateConfig c)" "0 \<le> AcceptBacklog (validateConfig c)"
  by (simp_all add: validateConfig_def Let_def)

lemma newSession_inv: "session_inv (newSession m i c)"
  by (simp add: session_inv_def newSession_def)

named_theorems inv_intros \<open>the primitive state changes keep the invariant\<close>

lemma session_inv_cong [inv_intros]:
  "session_inv s \<Longrightarrow> session_inv (s\<lparr>closed := b\<rparr>)"
  "session_inv s \<Longrightarrow> session_inv (s\<lparr>connClosed := b\<rparr>)"
  "session_inv s \<Longrightarrow> session_inv (s\<lparr>handshakeDone := b\<rparr>)"
  "session_inv s \<Longrightarrow> session_inv (s\<lparr>nextStreamID := i\<rparr>)"
  "session_inv s \<Longrightarrow> session_inv (s\<lparr>bytesSent := n\<rparr>)"
  "session_inv s \<Longrightarrow> session_inv (s\<lparr>bytesReceived := n\<rparr>)"
  "session_inv s \<Longrightarrow> session_inv (s\<lparr>bytesReceived := n, lastActivity := t\<rparr>)"
  "session_inv s \<Longrightarrow> session_inv (s\<lparr>streams := []\<rparr>)"
  by (simp_all add: session_inv_def)

lemma session_inv_slot [inv_intros]:
  "session_inv s \<Longrightarrow> int (streamSlotCh s) < MaxStreams (cfg s) \<Longrightarrow>
     session_inv (s\<lparr>streamSlotCh := Suc (streamSlotCh s)\<rparr>)"
  by (simp add: session_inv_def)

lemma session_inv_enqueue [inv_intros]:
  "session_inv s \<Longrightarrow> frame_ok (cfg s) f \<Longrightarrow> length (writeCh s) < writeChCap \<Longrightarrow>
     session_inv (s\<lparr>writeCh := writeCh s @ [f]\<rparr>)"
  by (auto simp: session_inv_def)

lemma session_inv_accept_push [inv_intros]:
  "session_inv s \<Longrightarrow> a < length (heap s) \<Longrightarrow> int (length (acceptCh s)) < AcceptBacklog (cfg s) \<Longrightarrow>
     session_inv (s\<lparr>acceptCh := acceptCh s @ [a]\<rparr>)"
  by (auto simp: session_inv_def)

lemma session_inv_trySend [inv_intros]:
  "session_inv s \<Longrightarrow> frame_ok (cfg s) f \<Longrightarrow> session_inv (trySend f s)"
  by (simp add: trySend_def inv_intros)

lemma session_inv_releaseSlot [inv_intros]: "session_inv s \<Longrightarrow> session_inv (releaseSlot s)"
  by (auto simp: session_inv_def releaseSlot_def)

lemma session_inv_removeStream [inv_intros]: "session_inv s \<Longrightarrow> session_inv (removeStream i s)"
  by (auto simp: session_inv_def removeStream_def distinct_delete set_alist_delete)

lemma session_inv_upd [inv_intros]:
  assumes "session_inv s" "a < length (heap s)" "stream_ok (cfg s) (g (heap s ! a))"
    and "st_id (g (heap s ! a)) = st_id (heap s ! a)"
  shows "session_inv (upd a g s)"
  using assms by (auto simp: session_inv_def upd_def nth_list_update dest!: set_update_subset_insert [THEN subsetD])

lemma session_inv_registerStream [inv_intros]:
  assumes "session_inv s"
  shows "session_inv (registerStream i s)"
proof -
  have "set (AList.update i (length (heap s)) (streams s))
      = insert (i, length (heap s)) {p \<in> set (streams s). fst p \<noteq> i}"
    using assms by (intro set_alist_update) (simp add: session_inv_def)
  moreover have "stream_ok (cfg s) (newStream i s)" "st_id (newStream i s) = i"
    by (simp_all add: stream_ok_def newStream_def)
  ultimately show ?thesis using assms
    unfolding session_inv_def registerStream_def
    by (simp add: distinct_update nth_append) fastforce
qed

lemma stream_ok_events [simp]:
  "stream_ok c st \<Longrightarrow> stream_ok c (onData p st)"
  "stream_ok c st \<Longrightarrow> stream_ok c (onFin st)"
  "stream_ok c st \<Longrightarrow> stream_ok c (onRst st)"
  "stream_ok c st \<Longrightarrow> stream_ok c (signalRead st)"
  by (auto simp: stream_ok_def onData_def onFin_def onRst_def signalRead_def)

lemma st_id_events [simp]:
  "st_id (onData p st) = st_id st" "st_id (onFin st) = st_id st" "st_id (onRst st) = st_id st"
  "st_id (signalRead st) = st_id st"
  by (simp_all add: onData_def onFin_def onRst_def signalRead_def)

lemma inv_stream_ok [simp]:
  "session_inv s \<Longrightarrow> a < length (heap s) \<Longrightarrow> stream_ok (cfg s) (heap s ! a)"
  by (simp add: session_inv_def)

lemma inv_lookup:
  "session_inv s \<Longrightarrow> map_of (streams s) i = Some a \<Longrightarrow> a < length (heap s) \<and> st_id (heap s ! a) = i"
  by (auto simp: session_inv_def dest: map_of_SomeD)

lemma session_inv_event [inv_intros]:
  assumes "session_inv s" "map_of (streams s) i = Some a"
  shows "session_inv (upd a (onData p) s)" "session_inv (upd a onFin s)" "session_inv (upd a onRst s)"
  using assms inv_lookup [OF assms] by (simp_all add: session_inv_upd)

lemma upd_fields [simp]:
  "cfg (upd a g s) = cfg s" "length (heap (upd a g s)) = length (heap s)"
  "streams (upd a g s) = streams s" "closed (upd a g s) = closed s"
  "writeCh (upd a g s) = writeCh s" "acceptCh (upd a g s) = acceptCh s"
  "nextStreamID (upd a g s) = nextStreamID s" "streamSlotCh (upd a g s) = streamSlotCh s"
  by (simp_all add: upd_def)

lemma cfg_simps [simp]:
  "cfg (trySend f s) = cfg s" "cfg (releaseSlot s) = cfg s" "cfg (removeStream i s) = cfg s"
  "cfg (registerStream i s) = cfg s"
  by (simp_all add: trySend_def releaseSlot_def removeStream_def registerStream_def)

lemma registerStream_fields [simp]:
  "length (heap (registerStream i s)) = Suc (length (heap s))"
  "acceptCh (registerStream i s) = acceptCh s" "writeCh (registerStream i s) = writeCh s"
  "closed (registerStream i s) = closed s" "nextStreamID (registerStream i s) = nextStreamID s"
  by (simp_all add: registerStream_def)

lemma frame_ok_control [simp]:
  assumes "session_inv s"
  shows "frame_ok (cfg s) (newSynFrame i b)" "frame_ok (cfg s) (newFinFrame i)"
    "frame_ok (cfg s) (newRstFrame i c)" "frame_ok (cfg s) (newPingFrame c)"
    "frame_ok (cfg s) (newGoAwayFrame c)"
proof -
  have "64 \<le> MaxFrameSize (cfg s)" "MaxFrameSize (cfg s) \<le> 65535"
    using assms by (simp_all add: session_inv_def)
  then have "uint (of_int (MaxFrameSize (cfg s)) :: u32) = MaxFrameSize (cfg s)"
    by (simp add: uint_word_of_int)
  with \<open>64 \<le> _\<close> have "\<not> (4 :: u32) > of_int (MaxFrameSize (cfg s))"
    by (simp add: word_less_def)
  then show "frame_ok (cfg s) (newSynFrame i b)" "frame_ok (cfg s) (newFinFrame i)"
    "frame_ok (cfg s) (newRstFrame i c)" "frame_ok (cfg s) (newPingFrame c)"
    "frame_ok (cfg s) (newGoAwayFrame c)"
    by (simp_all add: frame_ok_def wf_frame_def newSynFrame_def newFinFrame_def newRstFrame_def
        newPingFrame_def newGoAwayFrame_def)
qed

lemma sendFrame_inv:
  "sendFrame pick f s = Sent t \<Longrightarrow> session_inv s \<Longrightarrow> frame_ok (cfg s) f \<Longrightarrow> session_inv t"
  by (auto simp: sendFrame_def inv_intros split: if_splits)

lemma sendFrame_Sent:
  "sendFrame pick f s = Sent t \<Longrightarrow>
     t = s\<lparr>writeCh := writeCh s @ [f]\<rparr> \<and> length (writeCh s) < writeChCap"
  by (auto simp: sendFrame_def split: if_splits)

lemma fold_onFin_inv:
  "session_inv s \<Longrightarrow> \<forall>(i, a)\<in>set ps. a < length (heap s) \<Longrightarrow>
     session_inv (fold (\<lambda>(_, a). upd a onFin) ps s)"
  by (induction ps arbitrary: s) (auto simp: inv_intros)

lemma finAll_inv [inv_intros]: "session_inv s \<Longrightarrow> session_inv (finAll s)"
  unfolding finAll_def
  by (intro inv_intros fold_onFin_inv) (auto simp: session_inv_def)

lemma session_Close_inv [inv_intros]: "session_inv s \<Longrightarrow> session_inv (session_Close s)"
proof -
  assume inv: "session_inv s"
  then have "frame_ok (cfg s) (newGoAwayFrame GoAwayNormal)" by simp
  with inv show ?thesis by (simp add: session_Close_def inv_intros)
qed

lemma abort_inv [inv_intros]: "session_inv s \<Longrightarrow> session_inv (abort s)"
  by (simp add: abort_def inv_intros)

lemma streamClosed_inv [inv_intros]: "session_inv s \<Longrightarrow> session_inv (streamClosed i s)"
  by (simp add: streamClosed_def Let_def inv_intros)

lemma OpenStream_inv: "session_inv s \<Longrightarrow> session_inv (snd (OpenStream pick ctxDone s))"
  by (auto simp: OpenStream_def Let_def intro!: inv_intros elim: sendFrame_inv split: sent.splits)

lemma AcceptStream_inv: "session_inv s \<Longrightarrow> session_inv (snd (AcceptStream pick ctxDone s))"
  by (auto simp: AcceptStream_def session_inv_def split: list.splits)

lemma handleData_inv: "session_inv s \<Longrightarrow> session_inv (handleData f s)"
  by (auto simp: handleData_def intro: inv_intros split: option.splits)

lemma handleFin_inv: "session_inv s \<Longrightarrow> session_inv (handleFin f s)"
  by (auto simp: handleFin_def Let_def intro: inv_intros split: option.splits)

lemma handleRst_inv: "session_inv s \<Longrightarrow> session_inv (handleRst f s)"
  by (auto simp: handleRst_def Let_def intro: inv_intros split: option.splits)

lemma handleHandshakeSyn_inv: "session_inv s \<Longrightarrow> session_inv (snd (handleHandshakeSyn pick f s))"
  by (auto simp: handleHandshakeSyn_def intro!: inv_intros elim: sendFrame_inv split: sent.splits)

lemma deliverRemote_inv:
  assumes "session_inv s" "int (length (acceptCh s)) < AcceptBacklog (cfg s)"
  shows "session_inv (snd (deliverRemote pick i s))"
proof -
  have reg: "session_inv (registerStream i s)" using assms(1) by (rule inv_intros)
  show ?thesis
  proof (cases "sendFrame pick (newSynFrame i True) (registerStream i s)")
    case (Sent t)
    from Sent reg have "session_inv t"
      by (rule sendFrame_inv) (use frame_ok_control(1) [OF reg] in simp)
    moreover have "length (heap t) = Suc (length (heap s))" "acceptCh t = acceptCh s" "cfg t = cfg s"
      using sendFrame_Sent [OF Sent] by auto
    ultimately show ?thesis using assms(2) Sent session_inv_accept_push [of t "length (heap s)"]
      by (simp add: deliverRemote_def Let_def)
  qed (simp_all add: deliverRemote_def Let_def reg)
qed

lemma handleSyn_inv: "session_inv s \<Longrightarrow> session_inv (snd (handleSyn pick f s))"
  by (auto simp: handleSyn_def Let_def intro!: deliverRemote_inv session_inv_slot elim: sendFrame_inv
      split: sent.splits)

lemma dispatch_inv: "session_inv s \<Longrightarrow> session_inv (snd (dispatch pick f s))"
  by (simp add: dispatch_def handleHandshakeSyn_inv session_Close_inv handleData_inv handleSyn_inv
      handleFin_inv handleRst_inv)

lemma reader_step_inv: "session_inv s \<Longrightarrow> session_inv (snd (snd (reader_step pick now r s)))"
proof -
  assume inv: "session_inv s"
  show ?thesis
  proof (cases "readFrame r (MaxFrameSize (cfg s))")
    case (Inl e)
    with inv show ?thesis by (simp add: reader_step_def abort_inv)
  next
    case (Inr p)
    obtain f r' where p: "p = (f, r')" by (cases p)
    let ?s = "s\<lparr>bytesReceived := bytesReceived s + of_nat (HeaderSize + length (Payload f)),
                lastActivity := now\<rparr>"
    have "session_inv ?s" using inv by (rule inv_intros)
    then have "session_inv (snd (dispatch pick f ?s))"
      "session_inv (abort (trySend (newGoAwayFrame GoAwayProtocolError) ?s))"
      by (auto intro!: dispatch_inv inv_intros frame_ok_control(5))
    with Inr p show ?thesis
      by (auto simp: reader_step_def Let_def split: prod.splits outcome.splits)
  qed
qed

lemma writer_step_inv: "session_inv s \<Longrightarrow> session_inv (snd (snd (writer_step pick ioErr s)))"
proof -
  assume inv: "session_inv s"
  have "session_inv (s\<lparr>writeCh := fs\<rparr>)" if "writeCh s = f # fs" for f fs
    using inv that by (simp add: session_inv_def)
  then show ?thesis using inv
    by (auto simp: writer_step_def Let_def intro!: abort_inv session_inv_cong split: list.splits)
qed

lemma keepalive_tick_inv: "session_inv s \<Longrightarrow> session_inv (snd (keepalive_tick now s))"
  by (auto simp: keepalive_tick_def Let_def intro!: abort_inv elim: sendFrame_inv split: sent.splits)

lemma stream_Read_inv:
  "session_inv s \<Longrightarrow> a < length (heap s) \<Longrightarrow> session_inv (snd (stream_Read a n s))"
  using inv_stream_ok [of s a]
  by (auto simp: stream_Read_def Let_def stream_ok_def intro!: session_inv_upd)

lemma stream_Close_inv:
  assumes "session_inv s" "a < length (heap s)"
  shows "session_inv (snd (stream_Close pick a s))"
proof -
  let ?g = "\<lambda>st. st\<lparr>closeOnce := True, localClosed := True\<rparr>"
  have upd: "session_inv (upd a ?g s)"
    using assms inv_stream_ok [OF assms] by (intro session_inv_upd) (simp_all add: stream_ok_def)
  have fin: "session_inv (streamClosed i (upd a signalRead t))"
    if "session_inv t" "length (heap t) = length (heap s)" for t i
    using that assms(2) by (auto intro!: inv_intros)
  show ?thesis
  proof (cases "sendFrame pick (newFinFrame (st_id (heap (upd a ?g s) ! a))) (upd a ?g s)")
    case (Sent t)
    from Sent upd have "session_inv t"
      by (rule sendFrame_inv) (use frame_ok_control(2) [OF upd] in simp)
    moreover have "length (heap t) = length (heap s)"
      using sendFrame_Sent [OF Sent] by auto
    ultimately show ?thesis using Sent assms(1) by (simp add: stream_Close_def Let_def fin)
  qed (use upd fin [OF upd] assms in \<open>simp_all add: stream_Close_def Let_def\<close>)
qed

lemma session_inv_frame_size:
  "session_inv s \<Longrightarrow> 64 \<le> MaxFrameSize (cfg s) \<and> MaxFrameSize (cfg s) \<le> 65535"
  by (simp add: session_inv_def)

lemma frame_ok_data:
  assumes "session_inv s" "int (length p) \<le> MaxFrameSize (cfg s)"
  shows "frame_ok (cfg s) (newDataFrame i p)"
proof -
  have b: "64 \<le> MaxFrameSize (cfg s)" "MaxFrameSize (cfg s) \<le> 65535"
    using assms(1) by (simp_all add: session_inv_def)
  then have max: "uint (of_int (MaxFrameSize (cfg s)) :: u32) = MaxFrameSize (cfg s)"
    by (simp add: uint_word_of_int)
  have len: "unat (of_nat (length p) :: u32) = length p"
    using assms(2) b(2) by (simp add: unat_of_nat_small)
  then have "uint (of_nat (length p) :: u32) = int (length p)"
    by (metis uint_nat)
  with assms(2) max have "\<not> (of_nat (length p) :: u32) > of_int (MaxFrameSize (cfg s))"
    by (simp add: word_less_def)
  with len show ?thesis by (simp add: frame_ok_def wf_frame_def newDataFrame_def)
qed

lemma writeLoop_inv: "session_inv s \<Longrightarrow> session_inv (snd (snd (writeLoop i b n s)))"
proof (induction i b n s rule: writeLoop.induct)
  case (1 i b n s)
  let ?k = "min (length b) (nat (MaxFrameSize (cfg s)))"
  have fo: "frame_ok (cfg s) (newDataFrame i (take ?k b))"
    using 1(2) session_inv_frame_size [OF 1(2)] by (intro frame_ok_data) (auto simp: min_def)
  show ?case
  proof (cases "b = [] \<or> MaxFrameSize (cfg s) \<le> 0")
    case True
    then show ?thesis using 1(2) by (auto simp: writeLoop.simps [of i b n s])
  next
    case False
    show ?thesis
    proof (cases "sendFrame False (newDataFrame i (take ?k b)) s")
      case (Sent t)
      have "session_inv t" using Sent 1(2) fo by (rule sendFrame_inv)
      with 1(1) False Sent show ?thesis by (simp add: writeLoop.simps [of i b n s] Let_def)
    qed (use False 1(2) in \<open>simp_all add: writeLoop.simps [of i b n s] Let_def\<close>)
  qed
qed

lemma stream_Write_inv: "session_inv s \<Longrightarrow> session_inv (snd (snd (stream_Write a b s)))"
  by (simp add: stream_Write_def writeLoop_inv)

lemma smux_connect_inv: "session_inv s \<Longrightarrow> session_inv (snd (smux_connect pick timedOut s))"
proof -
  assume "session_inv s"
  then have "session_inv (snd (handshake pick timedOut s))"
    by (auto simp: handshake_def elim: sendFrame_inv split: sent.split)
  then show ?thesis
    by (auto simp: smux_connect_def session_Close_inv split: prod.split outcome.split)
qed

lemma smux_step_inv: "smux_step s t \<Longrightarrow> session_inv s \<Longrightarrow> session_inv t"
  by (induction rule: smux_step.induct)
    (simp_all add: OpenStream_inv AcceptStream_inv session_Close_inv reader_step_inv writer_step_inv
      keepalive_tick_inv stream_Read_inv stream_Write_inv stream_Close_inv smux_connect_inv
      sendFrame_inv inv_intros)

lemma smux_reachable_inv: "smux_reachable c s \<Longrightarrow> session_inv s"
  by (induction rule: smux_reachable.induct)
    (auto simp: smux_Client_def smux_Server_def newSession_inv dest: smux_step_inv)

section \<open>Writing\<close>

function frames_of :: "nat \<Rightarrow> bytes \<Rightarrow> bytes list" where
  \<comment> \<open>the reference splitting: pieces of \<open>m\<close> bytes, the last one shorter\<close>
  "frames_of m b = (if b = [] \<or> m = 0 then [] else take m b # frames_of m (drop m b))"
  by pat_completeness auto
termination
  by (relation "measure (\<lambda>(m, b). length b)") auto

declare frames_of.simps [simp del]

lemma frames_of_Nil [simp]: "frames_of m [] = []"
  by (simp add: frames_of.simps [of m "[]"])

lemma frames_of_concat: "0 < m \<Longrightarrow> concat (frames_of m b) = b"
proof (induction m b rule: frames_of.induct)
  case (1 m b)
  then show ?case by (simp add: frames_of.simps [of m b])
qed

lemma frames_of_sizes: "p \<in> set (frames_of m b) \<Longrightarrow> 0 < length p \<and> length p \<le> m"
proof (induction m b rule: frames_of.induct)
  case (1 m b)
  then show ?case by (auto simp: frames_of.simps [of m b] split: if_splits)
qed

lemma writeLoop_Nil [simp]: "writeLoop i [] n s = (n, Ret (), s)"
  by (simp add: writeLoop.simps [of i "[]" n s])

lemma writeLoop_frames:
  assumes "\<not> closed s" "0 < MaxFrameSize (cfg s)"
    and "length (writeCh s) + length (frames_of (nat (MaxFrameSize (cfg s))) b) \<le> writeChCap"
  shows "writeLoop i b n s =
     (n + length b, Ret (),
      s\<lparr>writeCh := writeCh s @ map (newDataFrame i) (frames_of (nat (MaxFrameSize (cfg s))) b)\<rparr>)"
  using assms
proof (induction i b n s rule: writeLoop.induct)
  case (1 i b n s)
  let ?m = "nat (MaxFrameSize (cfg s))"
  let ?k = "min (length b) ?m"
  show ?case
  proof (cases "b = []")
    case True
    then show ?thesis by simp
  next
    case False
    have split: "frames_of ?m b = take ?m b # frames_of ?m (drop ?m b)"
      using False "1.prems"(2) by (simp add: frames_of.simps [of ?m b])
    have tk: "take ?k b = take ?m b" "drop ?k b = drop ?m b"
      by (auto simp: min_def)
    let ?t = "s\<lparr>writeCh := writeCh s @ [newDataFrame i (take ?m b)]\<rparr>"
    have sent: "sendFrame False (newDataFrame i (take ?k b)) s = Sent ?t"
      using "1.prems" split tk by (simp add: sendFrame_def)
    have "writeLoop i (drop ?k b) (n + ?k) ?t =
        (n + ?k + length (drop ?k b), Ret (),
         ?t\<lparr>writeCh := writeCh ?t @ map (newDataFrame i) (frames_of ?m (drop ?k b))\<rparr>)"
      using "1.IH" [OF False _ refl sent] "1.prems" split tk by simp
    then show ?thesis
      using False "1.prems"(2) sent split tk by (simp add: writeLoop.simps [of i b n s] Let_def)
  qed
qed

section \<open>From one end of a connection to the other\<close>

primrec reader_run :: "bool \<Rightarrow> int \<Rightarrow> nat \<Rightarrow> bytes \<Rightarrow> session \<Rightarrow> bytes \<times> session" where
  \<comment> \<open>\<open>n\<close> turns of the reader loop, or fewer when it stops\<close>
  "reader_run pick now 0 r s = (r, s)"
| "reader_run pick now (Suc n) r s =
     (case reader_step pick now r s of
        (Running, r, s) \<Rightarrow> reader_run pick now n r s
      | (_, r, s) \<Rightarrow> (r, s))"

primrec writer_run :: "bool \<Rightarrow> nat \<Rightarrow> session \<Rightarrow> bytes \<times> session" where
  \<comment> \<open>\<open>n\<close> turns of the writer loop: all it puts on the wire\<close>
  "writer_run pick 0 s = ([], s)"
| "writer_run pick (Suc n) s =
     (case writer_step pick False s of
        (Running, out, s) \<Rightarrow> (case writer_run pick n s of (out', s) \<Rightarrow> (out @ out', s))
      | (_, out, s) \<Rightarrow> (out, s))"

lemma writer_run_all:
  "\<not> closed s \<Longrightarrow> fst (writer_run pick (length (writeCh s)) s) = concat (map writeFrame (writeCh s))"
proof (induction "writeCh s" arbitrary: s)
  case Nil
  then show ?case by simp
next
  case (Cons f fs)
  let ?t = "s\<lparr>writeCh := fs, bytesSent := bytesSent s + of_nat (HeaderSize + length (Payload f))\<rparr>"
  have "writer_step pick False s = (Running, writeFrame f, ?t)"
    using Cons.hyps(2) Cons.prems by (simp add: writer_step_def flip: Cons.hyps(2))
  moreover have "fst (writer_run pick (length fs) ?t) = concat (map writeFrame fs)"
    using Cons.hyps(1) [of ?t] Cons.prems by simp
  ultimately show ?case
    by (simp add: split_beta flip: Cons.hyps(2))
qed

definition received :: "int \<Rightarrow> frame \<Rightarrow> session \<Rightarrow> session" where
  \<comment> \<open>the counters after a frame has been read\<close>
  "received now f s =
     s\<lparr>bytesReceived := bytesReceived s + of_nat (HeaderSize + length (Payload f)), lastActivity := now\<rparr>"

lemma reader_step_data:
  assumes "wf_frame (MaxFrameSize (cfg s)) (newDataFrame i p)" "i \<noteq> 0"
    and "map_of (streams s) i = Some c"
  shows "reader_step pick now (writeFrame (newDataFrame i p) @ rest) s
    = (Running, rest, upd c (onData p) (received now (newDataFrame i p) s))"
proof -
  have "readFrame (writeFrame (newDataFrame i p) @ rest) (MaxFrameSize (cfg s))
      = ok (newDataFrame i p, rest)"
    using assms(1) by (rule readFrame_writeFrame)
  then show ?thesis using assms(2,3)
    by (simp add: reader_step_def received_def dispatch_def handleData_def newDataFrame_def)
qed

lemma onData_room:
  "int (length (readBuf st)) + int (length p) \<le> maxReadBuf st \<Longrightarrow>
     readBuf (onData p st) = readBuf st @ p \<and> maxReadBuf (onData p st) = maxReadBuf st \<and>
     resetErr (onData p st) = resetErr st \<and> remoteClosed (onData p st) = remoteClosed st"
  by (simp add: onData_def signalRead_def)

lemma received_fields [simp]:
  "cfg (received now f s) = cfg s" "heap (received now f s) = heap s"
  "streams (received now f s) = streams s"
  by (simp_all add: received_def)

lemma reader_run_data:
  assumes "\<forall>p\<in>set ps. wf_frame (MaxFrameSize (cfg s)) (newDataFrame i p)" "i \<noteq> 0"
    and "map_of (streams s) i = Some c" "c < length (heap s)"
    and "int (length (readBuf (heap s ! c))) + int (length (concat ps)) \<le> maxReadBuf (heap s ! c)"
  shows "let (r, t) = reader_run pick now (length ps)
                        (concat (map (\<lambda>p. writeFrame (newDataFrame i p)) ps) @ rest) s
         in r = rest \<and> streams t = streams s \<and>
            readBuf (heap t ! c) = readBuf (heap s ! c) @ concat ps \<and>
            resetErr (heap t ! c) = resetErr (heap s ! c)"
  using assms
proof (induction ps arbitrary: s)
  case Nil
  then show ?case by simp
next
  case (Cons p ps)
  let ?t = "upd c (onData p) (received now (newDataFrame i p) s)"
  have step: "reader_step pick now
      (writeFrame (newDataFrame i p) @ concat (map (\<lambda>p. writeFrame (newDataFrame i p)) ps) @ rest) s
      = (Running, concat (map (\<lambda>p. writeFrame (newDataFrame i p)) ps) @ rest, ?t)"
    using Cons.prems by (intro reader_step_data) auto
  have t: "heap ?t ! c = onData p (heap s ! c)"
    using Cons.prems(4) by (simp add: upd_def)
  have room: "int (length (readBuf (heap s ! c))) + int (length p) \<le> maxReadBuf (heap s ! c)"
    using Cons.prems(5) by simp
  note od = onData_room [OF room]
  have "let (r, u) = reader_run pick now (length ps)
                       (concat (map (\<lambda>p. writeFrame (newDataFrame i p)) ps) @ rest) ?t
        in r = rest \<and> streams u = streams ?t \<and>
           readBuf (heap u ! c) = readBuf (heap ?t ! c) @ concat ps \<and>
           resetErr (heap u ! c) = resetErr (heap ?t ! c)"
    using Cons.prems by (intro Cons.IH) (simp_all add: t od)
  then show ?case by (simp add: step t od)
qed

section \<open>Properties\<close>

text \<open>
  C9. In every state a session can reach, whatever its peer sends and however its application
  calls it, no stream buffers more than its read limit, the accept queue is within
  \<open>AcceptBacklog\<close>, the write channel within its capacity, and the semaphore within
  \<open>MaxStreams\<close>; every queued frame is one that a reader with the same frame cap accepts.
\<close>

theorem smux_resources_bounded:
  assumes "smux_reachable c s"
  shows "(\<forall>st\<in>set (heap s). int (length (readBuf st)) \<le> maxReadBuf st) \<and>
         int (length (acceptCh s)) \<le> AcceptBacklog (cfg s) \<and>
         length (writeCh s) \<le> writeChCap \<and>
         (0 < MaxStreams (cfg s) \<longrightarrow> int (streamSlotCh s) \<le> MaxStreams (cfg s)) \<and>
         (\<forall>f\<in>set (writeCh s). readFrame (writeFrame f @ rest) (MaxFrameSize (cfg s)) = ok (f, rest))"
  using smux_reachable_inv [OF assms]
  by (auto simp: session_inv_def stream_ok_def frame_ok_def readFrame_writeFrame)

theorem smux_resources_bounded_witness:
  "length (writeCh (snd (OpenStream True False (smux_Client DefaultConfig)))) \<le> writeChCap"
proof -
  have "smux_reachable DefaultConfig (snd (OpenStream True False (smux_Client DefaultConfig)))"
    by (intro smux_reachable.step [OF smux_reachable.client] smux_step.intros)
  from smux_resources_bounded [OF this] show ?thesis by blast
qed


text \<open>
  C2. What one end writes is what the other end reads. Data written to an open stream is put on
  the wire in frames; when the peer has the stream registered and room for the data in its read
  buffer, its reader loop consumes exactly those bytes and appends the data, in order and
  complete, to that stream's buffer.
\<close>

theorem smux_write_delivers:
  assumes A: "session_inv A" "\<not> closed A" "\<not> localClosed (heap A ! a)" "writeCh A = []"
    and i: "st_id (heap A ! a) = i" "i \<noteq> 0"
    and fits: "length (frames_of (nat (MaxFrameSize (cfg A))) b) \<le> writeChCap"
    and B: "session_inv B" "map_of (streams B) i = Some c" "cfg B = cfg A"
    and room: "int (length (readBuf (heap B ! c))) + int (length b) \<le> maxReadBuf (heap B ! c)"
  shows "let (n, out, A') = stream_Write a b A;
             wire = fst (writer_run pick (length (writeCh A')) A');
             (r, B') = reader_run pick now (length (writeCh A')) (wire @ rest) B
         in out = Ret () \<and> n = length b \<and> r = rest \<and>
            readBuf (heap B' ! c) = readBuf (heap B ! c) @ b \<and>
            resetErr (heap B' ! c) = resetErr (heap B ! c)"
proof -
  let ?m = "nat (MaxFrameSize (cfg A))"
  let ?ps = "frames_of ?m b"
  have m: "64 \<le> MaxFrameSize (cfg A)" using session_inv_frame_size [OF A(1)] by simp
  let ?A' = "A\<lparr>writeCh := map (newDataFrame i) ?ps\<rparr>"
  have wr: "stream_Write a b A = (length b, Ret (), ?A')"
    using A m i(1) fits writeLoop_frames [of A b i 0] by (simp add: stream_Write_def)
  have wire: "fst (writer_run pick (length ?ps) ?A')
      = concat (map (\<lambda>p. writeFrame (newDataFrame i p)) ?ps)"
    using writer_run_all [of ?A' pick] A(2) by (simp add: comp_def)
  have "\<forall>p\<in>set ?ps. wf_frame (MaxFrameSize (cfg B)) (newDataFrame i p)"
  proof
    fix p assume "p \<in> set ?ps"
    then have "int (length p) \<le> MaxFrameSize (cfg B)"
      using frames_of_sizes [of p ?m b] m B(3) by (simp add: le_nat_iff)
    then show "wf_frame (MaxFrameSize (cfg B)) (newDataFrame i p)"
      using frame_ok_data [OF B(1)] by (simp add: frame_ok_def)
  qed
  note wf = this
  obtain r B' where rr: "reader_run pick now (length ?ps)
      (concat (map (\<lambda>p. writeFrame (newDataFrame i p)) ?ps) @ rest) B = (r, B')"
    by fastforce
  have "concat ?ps = b" using m by (intro frames_of_concat) simp
  with reader_run_data [OF wf i(2) B(2), of pick now rest] inv_lookup [OF B(1,2)] room
  have "r = rest" "readBuf (heap B' ! c) = readBuf (heap B ! c) @ b"
    "resetErr (heap B' ! c) = resetErr (heap B ! c)"
    by (simp_all add: rr)
  then show ?thesis by (simp add: wr wire rr)
qed

definition exampleA :: session where
  "exampleA = snd (snd (writer_step True False (snd (OpenStream True False (smux_Client DefaultConfig)))))"

definition exampleB :: session where
  "exampleB = snd (snd (reader_step True 0 (writeFrame (newSynFrame 1 False)) (smux_Server DefaultConfig)))"

lemma example_inv: "session_inv exampleA" "session_inv exampleB"
proof -
  have "smux_reachable DefaultConfig exampleA"
    unfolding exampleA_def
    by (rule smux_reachable.step [OF smux_reachable.step [OF smux_reachable.client
          smux_step.do_open_stream] smux_step.do_writer])
  moreover have "smux_reachable DefaultConfig exampleB"
    unfolding exampleB_def
    by (intro smux_reachable.step [OF smux_reachable.server] smux_step.do_reader)
  ultimately show "session_inv exampleA" "session_inv exampleB"
    by (auto intro: smux_reachable_inv)
qed

theorem smux_write_delivers_witness:
  "let (n, out, A') = stream_Write 0 [1, 2, 3] exampleA;
       wire = fst (writer_run True (length (writeCh A')) A');
       (r, B') = reader_run True 0 (length (writeCh A')) (wire @ [9]) exampleB
   in out = Ret () \<and> n = length [1, 2, 3 :: byte] \<and> r = [9] \<and>
      readBuf (heap B' ! 0) = readBuf (heap exampleB ! 0) @ [1, 2, 3] \<and>
      resetErr (heap B' ! 0) = resetErr (heap exampleB ! 0)"
proof -
  have "\<not> closed exampleA" "\<not> localClosed (heap exampleA ! 0)" "writeCh exampleA = []"
    "st_id (heap exampleA ! 0) = 1" "map_of (streams exampleB) 1 = Some 0" "cfg exampleB = cfg exampleA"
    "MaxFrameSize (cfg exampleA) = 16384"
    "length (readBuf (heap exampleB ! 0)) = 0" "maxReadBuf (heap exampleB ! 0) = 262144"
    by code_simp+
  note ex = this
  have fits: "length (frames_of (nat (MaxFrameSize (cfg exampleA))) [1, 2, 3 :: byte]) \<le> writeChCap"
    by (simp add: ex writeChCap_def frames_of.simps [of "16384" "[1, 2, 3]"])
  show ?thesis
    by (rule smux_write_delivers [OF example_inv(1) ex(1-4) _ fits example_inv(2) ex(5,6)])
      (simp_all add: ex)
qed

section \<open>Facts every step keeps\<close>

text \<open>
  A predicate that does not depend on the fields the operations assign survives every operation.
  The locale asks only that the single assignments keep it and concludes for all of them;
  \<open>nextStreamID\<close> is left to the extension, as \<open>OpenStream\<close> alone assigns it.
\<close>

locale session_frame =
  fixes P :: "session \<Rightarrow> bool"
  assumes keep_heap: "P s \<Longrightarrow> P (s\<lparr>heap := h\<rparr>)"
    and keep_streams: "P s \<Longrightarrow> P (s\<lparr>streams := m\<rparr>)"
    and keep_slot: "P s \<Longrightarrow> P (s\<lparr>streamSlotCh := n\<rparr>)"
    and keep_acceptCh: "P s \<Longrightarrow> P (s\<lparr>acceptCh := q\<rparr>)"
    and keep_writeCh: "P s \<Longrightarrow> P (s\<lparr>writeCh := w\<rparr>)"
    and keep_closed: "P s \<Longrightarrow> P (s\<lparr>closed := True\<rparr>)"
    and keep_handshakeDone: "P s \<Longrightarrow> P (s\<lparr>handshakeDone := True\<rparr>)"
    and keep_connClosed: "P s \<Longrightarrow> P (s\<lparr>connClosed := True\<rparr>)"
    and keep_lastActivity: "P s \<Longrightarrow> P (s\<lparr>lastActivity := t\<rparr>)"
    and keep_bytesSent: "P s \<Longrightarrow> P (s\<lparr>bytesSent := c\<rparr>)"
    and keep_bytesReceived: "P s \<Longrightarrow> P (s\<lparr>bytesReceived := c\<rparr>)"
begin

lemmas keeps = keep_heap keep_streams keep_slot keep_acceptCh keep_writeCh keep_closed
  keep_handshakeDone keep_connClosed keep_lastActivity keep_bytesSent keep_bytesReceived

lemma keep_received: "P s \<Longrightarrow> P (s\<lparr>bytesReceived := c, lastActivity := t\<rparr>)"
  using keep_lastActivity [OF keep_bytesReceived] by simp

lemma keep_prims:
  "P s \<Longrightarrow> P (upd a g s)" "P s \<Longrightarrow> P (removeStream i s)" "P s \<Longrightarrow> P (releaseSlot s)"
  "P s \<Longrightarrow> P (trySend f s)"
  by (simp_all add: upd_def removeStream_def releaseSlot_def trySend_def keeps)

lemma keep_registerStream: "P s \<Longrightarrow> P (registerStream i s)"
  unfolding registerStream_def
  using keep_streams [OF keep_heap, of s] by simp

lemma keep_streamClosed: "P s \<Longrightarrow> P (streamClosed i s)"
  by (simp add: streamClosed_def Let_def keep_prims)

lemma keep_Sent: "sendFrame pick f s = Sent t \<Longrightarrow> P s \<Longrightarrow> P t"
  by (auto dest!: sendFrame_Sent intro: keeps)

lemma keep_finAll: "P s \<Longrightarrow> P (finAll s)"
proof -
  have "P s \<Longrightarrow> P (fold (\<lambda>(_, a). upd a onFin) ps s)" for ps
    by (induction ps arbitrary: s) (simp_all add: split_beta keep_prims)
  then show "P s \<Longrightarrow> P (finAll s)" unfolding finAll_def by (intro keep_streams)
qed

lemma keep_close: "P s \<Longrightarrow> P (session_Close s)" "P s \<Longrightarrow> P (abort s)"
  by (simp_all add: session_Close_def abort_def keeps keep_prims keep_finAll)

lemma keep_deliver: "P s \<Longrightarrow> P (snd (deliverRemote pick i s))"
  by (auto simp: deliverRemote_def Let_def intro: keeps keep_registerStream dest: keep_Sent
      split: sent.split)

lemma keep_handlers: "P s \<Longrightarrow> P (handleData f s)" "P s \<Longrightarrow> P (handleFin f s)" "P s \<Longrightarrow> P (handleRst f s)"
  by (simp_all add: handleData_def handleFin_def handleRst_def Let_def keep_prims split: option.split)

lemma keep_handshake: "P s \<Longrightarrow> P (snd (handleHandshakeSyn pick f s))"
  by (auto simp: handleHandshakeSyn_def intro: keeps dest: keep_Sent split: sent.split)

lemma keep_syn: "P s \<Longrightarrow> P (snd (handleSyn pick f s))"
proof -
  assume s: "P s"
  then have "P (snd (case sendFrame pick (newRstFrame (StreamID f) RSTRefused) s of
      Sent u \<Rightarrow> (Ret (), u) | Done \<Rightarrow> (Ret (), s) | Full \<Rightarrow> (Blocked, s)))"
    by (auto dest: keep_Sent split: sent.split)
  with s show ?thesis by (simp add: handleSyn_def Let_def keep_deliver keeps)
qed

lemma keep_dispatch: "P s \<Longrightarrow> P (snd (dispatch pick f s))"
  by (simp add: dispatch_def keep_handlers keep_handshake keep_syn keep_close)

lemma keep_reader:
  assumes "P s"
  shows "P (snd (snd (reader_step pick now r s)))"
proof (cases "readFrame r (MaxFrameSize (cfg s))")
  case (Inr p)
  obtain f r' where p: "p = (f, r')" by (cases p)
  let ?t = "s\<lparr>bytesReceived := bytesReceived s + of_nat (HeaderSize + length (Payload f)),
              lastActivity := now\<rparr>"
  have "P ?t" using assms by (rule keep_received)
  then have "P (snd (dispatch pick f ?t))" "P (abort (trySend (newGoAwayFrame GoAwayProtocolError) ?t))"
    by (simp_all add: keep_dispatch keep_close keep_prims)
  with Inr p show ?thesis
    by (auto simp: reader_step_def Let_def split: prod.splits outcome.splits)
qed (use assms in \<open>simp add: reader_step_def keep_close\<close>)

lemma keep_writer: "P s \<Longrightarrow> P (snd (snd (writer_step pick ioErr s)))"
  using keep_bytesSent [OF keep_writeCh, of s]
  by (simp add: writer_step_def Let_def keeps keep_close split: list.splits)

lemma keep_keepalive: "P s \<Longrightarrow> P (snd (keepalive_tick now s))"
  by (auto simp: keepalive_tick_def Let_def intro: keep_close dest: keep_Sent split: sent.splits)

lemma keep_writeLoop: "P s \<Longrightarrow> P (snd (snd (writeLoop i b n s)))"
proof (induction i b n s rule: writeLoop.induct)
  case (1 i b n s)
  then show ?case
    by (auto simp: writeLoop.simps [of i b n s] Let_def dest: keep_Sent split: sent.splits)
qed

lemma keep_stream_ops:
  assumes "P s"
  shows "P (snd (stream_Read a n s))" "P (snd (snd (stream_Write a b s)))"
    "P (snd (AcceptStream pick ctx s))"
  using assms
  by (simp_all add: stream_Read_def stream_Write_def AcceptStream_def Let_def keep_prims keeps
      keep_writeLoop split: list.split)

lemma keep_stream_Close: "P s \<Longrightarrow> P (snd (stream_Close pick a s))"
  by (auto simp: stream_Close_def Let_def intro!: keep_streamClosed keep_prims dest: keep_Sent
      intro: keep_prims split: sent.splits)

lemma keep_connect: "P s \<Longrightarrow> P (snd (smux_connect pick timedOut s))"
proof -
  assume "P s"
  then have "P (snd (handshake pick timedOut s))"
    by (auto simp: handshake_def dest: keep_Sent split: sent.split)
  then show ?thesis
    by (auto simp: smux_connect_def keep_close split: prod.split outcome.split)
qed

lemma keep_step:
  assumes "smux_step s t" "P s"
  shows "P t \<or> (\<exists>pick ctx. t = snd (OpenStream pick ctx s))"
  using assms
  by cases (auto simp: keep_stream_ops keep_reader keep_writer keep_keepalive keep_close
      keep_stream_Close keep_connect keep_prims keep_streamClosed keeps dest: keep_Sent)

end

locale session_frame_open = session_frame +
  assumes keep_nextStreamID: "P s \<Longrightarrow> P (s\<lparr>nextStreamID := i\<rparr>)"
begin

lemma keep_OpenStream: "P s \<Longrightarrow> P (snd (OpenStream pick ctx s))"
  by (auto simp: OpenStream_def Let_def intro!: keep_registerStream keep_prims keep_nextStreamID
      intro: keeps dest!: sendFrame_Sent split: sent.splits)

lemma keep_steps:
  assumes "smux_step\<^sup>*\<^sup>* s t" "P s"
  shows "P t"
  using assms by (induction rule: rtranclp_induct) (auto dest: keep_step intro: keep_OpenStream)

end

interpretation cfg_frame: session_frame_open "\<lambda>s. cfg s = c" for c
  by unfold_locales simp_all

interpretation closed_frame: session_frame_open closed
  by unfold_locales simp_all

section \<open>Closing\<close>

lemma heap_fold_upd:
  "heap (fold (\<lambda>(_, a). upd a g) ps s) = fold (\<lambda>(_, a) h. h[a := g (h ! a)]) ps (heap s)"
  by (induction ps arbitrary: s) (simp_all add: split_beta upd_def)

lemma fold_onFin:
  assumes "\<forall>(i, b)\<in>set ps. b < length h" "a < length h"
  shows "readBuf (fold (\<lambda>(_, a) h. h[a := onFin (h ! a)]) ps h ! a) = readBuf (h ! a) \<and>
     (remoteClosed (h ! a) \<or> a \<in> snd ` set ps \<longrightarrow>
        remoteClosed (fold (\<lambda>(_, a) h. h[a := onFin (h ! a)]) ps h ! a))"
  using assms
proof (induction ps arbitrary: h)
  case (Cons p ps)
  let ?h = "h[snd p := onFin (h ! snd p)]"
  have "readBuf (?h ! a) = readBuf (h ! a)"
    "remoteClosed (h ! a) \<or> a = snd p \<Longrightarrow> remoteClosed (?h ! a)"
    using Cons.prems by (auto simp: nth_list_update onFin_def signalRead_def)
  then show ?case
    using Cons.IH [of ?h] Cons.prems by (auto simp: split_beta)
qed simp

lemma finAll_streams:
  assumes "session_inv s" "a < length (heap s)"
  shows "readBuf (heap (finAll s) ! a) = readBuf (heap s ! a) \<and>
    (a \<in> snd ` set (streams s) \<longrightarrow> remoteClosed (heap (finAll s) ! a))"
  using fold_onFin [of "streams s" "heap s" a] assms
  by (auto simp: finAll_def heap_fold_upd session_inv_def)

lemma closed_refuses:
  assumes "closed s"
  shows "OpenStream pick ctx s = (Fail ErrSessionClosed, s)"
    "AcceptStream pick ctx s = (Fail ErrSessionClosed, s)"
    "fst (stream_Read a n s) \<noteq> Blocked"
    "stream_Write a b s = (0, Fail (if localClosed (heap s ! a) then ErrStreamClosed else ErrSessionClosed), s)"
  using assms by (simp_all add: OpenStream_def AcceptStream_def stream_Read_def stream_Write_def Let_def)

text \<open>
  C13. Closing is final and releases everyone. \<open>Close\<close> ends every registered stream without
  dropping what it has buffered and empties the session's map; from then on, whatever steps
  follow, the session stays closed, no stream can be opened, accepted or written, and no read blocks.
\<close>

theorem smux_close_final:
  assumes "smux_reachable c s" "\<not> closed s" "smux_step\<^sup>*\<^sup>* (session_Close s) u"
  shows "(\<forall>a<length (heap s). readBuf (heap (session_Close s) ! a) = readBuf (heap s ! a)) \<and>
    (\<forall>(i, a)\<in>set (streams s). remoteClosed (heap (session_Close s) ! a)) \<and>
    NumStreams (session_Close s) = 0 \<and> connClosed (session_Close s) \<and> closed u \<and>
    OpenStream pick ctx u = (Fail ErrSessionClosed, u) \<and>
    AcceptStream pick ctx u = (Fail ErrSessionClosed, u) \<and>
    fst (stream_Read a n u) \<noteq> Blocked \<and>
    stream_Write a b u = (0, Fail (if localClosed (heap u ! a) then ErrStreamClosed else ErrSessionClosed), u)"
proof -
  let ?s = "trySend (newGoAwayFrame GoAwayNormal) (s\<lparr>closed := True\<rparr>)"
  have inv: "session_inv s" using assms(1) by (rule smux_reachable_inv)
  have same: "heap ?s = heap s" "streams ?s = streams s" by (simp_all add: trySend_def)
  have "session_inv ?s"
    using inv frame_ok_control(5) [OF inv] by (intro inv_intros) simp_all
  note fin = finAll_streams [OF this, unfolded same]
  have u: "closed u"
    by (rule closed_frame.keep_steps [OF assms(3)])
      (use assms(2) in \<open>simp add: session_Close_def closed_frame.keep_finAll trySend_def\<close>)
  have cl: "session_Close s = (finAll ?s)\<lparr>connClosed := True\<rparr>"
    using assms(2) by (simp add: session_Close_def)
  have ends: "\<forall>(i, a)\<in>set (streams s). remoteClosed (heap (session_Close s) ! a)"
  proof clarify
    fix i a assume ia: "(i, a) \<in> set (streams s)"
    then have "a < length (heap s)" using inv by (auto simp: session_inv_def)
    moreover from ia have "a \<in> snd ` set (streams s)" by force
    ultimately show "remoteClosed (heap (session_Close s) ! a)" using fin [of a] by (simp add: cl)
  qed
  have "NumStreams (session_Close s) = 0" by (simp add: cl NumStreams_def finAll_def)
  with fin ends u closed_refuses [OF u] show ?thesis by (simp add: cl)
qed

definition onlyOne :: config where
  "onlyOne = DefaultConfig\<lparr>MaxStreams := 1\<rparr>"

theorem smux_close_final_witness:
  "closed (session_Close (smux_Client onlyOne)) \<and>
   OpenStream True False (session_Close (smux_Client onlyOne))
     = (Fail ErrSessionClosed, session_Close (smux_Client onlyOne))"
proof -
  have "\<not> closed (smux_Client onlyOne)" by code_simp
  from smux_close_final [OF smux_reachable.client this rtranclp.rtrancl_refl]
  show ?thesis by blast
qed

text \<open>
  The \<open>MaxStreams\<close> limit can be exceeded: a stream reset by the peer gives its slot back when
  the RST arrives and once more when the application closes it, so with a limit of one two streams
  come to be open.
\<close>

lemma smux_slot_double_release:
  "let s = smux_Client onlyOne;
       (o1, s) = OpenStream True False s;
       (_, _, s) = reader_step True 0 (writeFrame (newRstFrame 1 RSTRefused)) s;
       (o2, s) = OpenStream True False s;
       (_, s) = stream_Close True 0 s;
       (o3, s) = OpenStream True False s
   in o1 = Ret 0 \<and> o2 = Ret 1 \<and> o3 = Ret 2 \<and>
      map fst (streams s) = [3, 5] \<and> int (NumStreams s) > MaxStreams (cfg s)"
  by code_simp

section \<open>Stream identifiers\<close>

definition same_ids :: "session \<Rightarrow> session \<Rightarrow> bool" where
  "same_ids s t \<longleftrightarrow> nextStreamID t = nextStreamID s \<and> clientMode t = clientMode s"

interpretation ids_frame: session_frame "same_ids s" for s
  by unfold_locales (simp_all add: same_ids_def)

lemma same_ids_refl [simp]: "same_ids s s"
  by (simp add: same_ids_def)

definition ids_ok :: "session \<Rightarrow> bool" where
  "ids_ok s \<longleftrightarrow> unat (nextStreamID s) \<le> 2 ^ 31 \<and> odd (unat (nextStreamID s)) = clientMode s"

lemma ids_ok_same: "same_ids s t \<Longrightarrow> ids_ok s \<Longrightarrow> ids_ok t"
  by (simp add: same_ids_def ids_ok_def)

text \<open>\<open>OpenStream\<close> is the only operation that moves the allocator, two identifiers at a time.\<close>

lemma OpenStream_ids:
  "same_ids s (snd (OpenStream pick ctx s)) \<or>
   nextStreamID s < MaxStreamID \<and> nextStreamID (snd (OpenStream pick ctx s)) = nextStreamID s + 2 \<and>
   clientMode (snd (OpenStream pick ctx s)) = clientMode s"
  by (auto simp: OpenStream_def Let_def not_le removeStream_def registerStream_def releaseSlot_def
      same_ids_def dest!: sendFrame_Sent split: sent.splits)

lemma OpenStream_Ret:
  assumes "OpenStream pick ctx s = (Ret a, t)"
  shows "a = length (heap s) \<and> a < length (heap t) \<and> st_id (heap t ! a) = nextStreamID s \<and>
         map_of (streams t) (nextStreamID s) = Some a \<and> nextStreamID s < MaxStreamID \<and>
         nextStreamID t = nextStreamID s + 2 \<and> clientMode t = clientMode s"
  using assms
  by (auto simp: OpenStream_def Let_def not_le registerStream_def newStream_def update_conv'
      dest!: sendFrame_Sent split: sent.splits if_splits)

lemma unat_step2:
  "w < MaxStreamID \<Longrightarrow> unat (w + 2) = unat w + 2 \<and> unat w < 2 ^ 31 - 1"
  by (simp add: MaxStreamID_def word_less_nat_alt unat_word_ariths)

lemma smux_step_ids:
  assumes "smux_step s t" "ids_ok s"
  shows "ids_ok t \<and> unat (nextStreamID s) \<le> unat (nextStreamID t) \<and> clientMode t = clientMode s"
proof -
  have "same_ids s t \<or> nextStreamID s < MaxStreamID \<and> nextStreamID t = nextStreamID s + 2 \<and>
      clientMode t = clientMode s"
    using ids_frame.keep_step [OF assms(1) same_ids_refl] OpenStream_ids [of s] by blast
  then show ?thesis
    using assms(2) unat_step2 [of "nextStreamID s"] by (auto simp: same_ids_def ids_ok_def)
qed

lemma smux_reachable_ids: "smux_reachable c s \<Longrightarrow> ids_ok s"
  by (induction rule: smux_reachable.induct)
    (auto simp: smux_Client_def smux_Server_def newSession_def ids_ok_def dest: smux_step_ids)

lemma smux_steps_ids:
  assumes "smux_step\<^sup>*\<^sup>* s t" "ids_ok s"
  shows "ids_ok t \<and> unat (nextStreamID s) \<le> unat (nextStreamID t)"
  using assms by (induction rule: rtranclp_induct) (auto dest: smux_step_ids)

text \<open>
  C12. Stream identifiers are never reused or wrapped: in a reachable session every identifier
  \<open>OpenStream\<close> hands out is odd in client mode and even in server mode, lies below \<open>2^31 - 1\<close>,
  and is larger than every one it handed out before, whatever happened in between.
\<close>

theorem smux_stream_ids_fresh:
  assumes "smux_reachable c s" "OpenStream p1 x1 s = (Ret a, t)"
    and "smux_step\<^sup>*\<^sup>* t u" "OpenStream p2 x2 u = (Ret b, v)"
  shows "unat (st_id (heap t ! a)) < unat (st_id (heap v ! b)) \<and>
         unat (st_id (heap v ! b)) < 2 ^ 31 - 1 \<and>
         odd (unat (st_id (heap t ! a))) = clientMode s"
proof -
  have s: "ids_ok s" using assms(1) by (rule smux_reachable_ids)
  from OpenStream_Ret [OF assms(2)] have o1: "st_id (heap t ! a) = nextStreamID s"
      "nextStreamID s < MaxStreamID" "nextStreamID t = nextStreamID s + 2" "clientMode t = clientMode s"
    by auto
  from OpenStream_Ret [OF assms(4)] have o2: "st_id (heap v ! b) = nextStreamID u"
      "nextStreamID u < MaxStreamID"
    by auto
  note step = unat_step2 [OF o1(2)] unat_step2 [OF o2(2)]
  have "ids_ok t" using s o1 step by (simp add: ids_ok_def)
  with smux_steps_ids [OF assms(3)] have "unat (nextStreamID t) \<le> unat (nextStreamID u)" by simp
  then show ?thesis using s o1 o2 step by (simp add: ids_ok_def)
qed

definition exampleC :: session where
  "exampleC = snd (OpenStream True False (smux_Client DefaultConfig))"

theorem smux_stream_ids_fresh_witness:
  "unat (st_id (heap exampleC ! 0)) < unat (st_id (heap (snd (OpenStream True False exampleC)) ! 1))"
proof -
  have o: "OpenStream True False (smux_Client DefaultConfig) = (Ret 0, exampleC)"
    by code_simp
  have p: "OpenStream True False exampleC = (Ret 1, snd (OpenStream True False exampleC))"
    by code_simp
  from smux_stream_ids_fresh [OF smux_reachable.client o rtranclp.rtrancl_refl p]
  show ?thesis by blast
qed

text \<open>
  C14. The session handshake completes: after the client's SYN on stream 0 has crossed the wire and
  the server's answer has come back, neither end waits any longer, whatever their configurations.
\<close>

lemma readFrame_syn0:
  "readFrame (writeFrame (newSynFrame 0 b)) (MaxFrameSize (validateConfig c)) = ok (newSynFrame 0 b, [])"
proof -
  have "session_inv (smux_Client c)" by (simp add: smux_Client_def newSession_inv)
  from frame_ok_control(1) [OF this]
  have "wf_frame (MaxFrameSize (validateConfig c)) (newSynFrame 0 b)"
    by (simp add: frame_ok_def smux_Client_def newSession_def)
  from readFrame_writeFrame [OF this, of "[]"] show ?thesis by simp
qed

theorem smux_handshake_completes:
  "let (_, A) = handshake True False (smux_Client c);
       (request, A) = writer_run pick 1 A;
       (_, B) = reader_run pick now 1 request (smux_Server d);
       (answer, B) = writer_run pick 1 B;
       (_, A) = reader_run pick now 1 answer A
   in handshake_wait pick False A = Ret () \<and> handshake_wait pick False B = Ret () \<and>
      writeCh A = [] \<and> writeCh B = []"
proof -
  have [simp]: "Version (newSynFrame 0 b) = ProtocolVersion" "FType (newSynFrame 0 b) = FrameSyn"
    "StreamID (newSynFrame 0 b) = 0" for b
    by (simp_all add: newSynFrame_def)
  show ?thesis
  by (simp add: handshake_def smux_Client_def smux_Server_def newSession_def sendFrame_def
      writeChCap_def writer_step_def reader_step_def readFrame_syn0 dispatch_def handleHandshakeSyn_def
      handshake_wait_def)
qed

end
