(* ===== verification/Cipher_Ctr.thy ===== *)
theory Cipher_Ctr
  imports Prelude
begin

text \<open>
  Counter mode (\<open>crypto/cipher.NewCTR\<close>) over a 16-byte block cipher, which is a parameter: the
  onion forwarding header and the padding generator of the proxy use AES through it. The key
  stream is the cipher applied to the initial value plus 0, 1, 2, ..., read big-endian modulo
  \<open>2^128\<close>; encrypting and decrypting are both the exclusive or with it.
\<close>

definition BlockSize :: nat where "BlockSize = 16"

definition be_nat :: "bytes \<Rightarrow> nat" where
  "be_nat bs = foldl (\<lambda>n b. n * 256 + unat b) 0 bs"

primrec nat_be :: "nat \<Rightarrow> nat \<Rightarrow> bytes" where
  \<comment> \<open>the last \<open>k\<close> base-256 digits of \<open>n\<close>\<close>
  "nat_be 0 n = []"
| "nat_be (Suc k) n = nat_be k (n div 256) @ [of_nat (n mod 256)]"

definition ctr_block :: "bytes \<Rightarrow> nat \<Rightarrow> bytes" where
  "ctr_block iv i = nat_be BlockSize ((be_nat iv + i) mod 2 ^ 128)"

definition ctr_byte :: "(bytes \<Rightarrow> bytes) \<Rightarrow> bytes \<Rightarrow> nat \<Rightarrow> byte" where
  "ctr_byte block iv p = block (ctr_block iv (p div BlockSize)) ! (p mod BlockSize)"

definition ctr_xor :: "(bytes \<Rightarrow> bytes) \<Rightarrow> bytes \<Rightarrow> bytes \<Rightarrow> bytes" where
  \<comment> \<open>\<open>XORKeyStream\<close> of a fresh stream\<close>
  "ctr_xor block iv bs = map (\<lambda>i. xor (bs ! i) (ctr_byte block iv i)) [0..<length bs]"

lemma length_nat_be [simp]: "length (nat_be k n) = k"
  by (induction k arbitrary: n) simp_all

lemma length_ctr_block [simp]: "length (ctr_block iv i) = BlockSize"
  by (simp add: ctr_block_def)

lemma length_ctr_xor [simp]: "length (ctr_xor block iv bs) = length bs"
  by (simp add: ctr_xor_def)

lemma ctr_xor_involution [simp]: "ctr_xor block iv (ctr_xor block iv bs) = bs"
  by (rule nth_equalityI) (simp_all add: ctr_xor_def ac_simps)

lemma ctr_xor_inj [simp]: "ctr_xor block iv xs = ctr_xor block iv ys \<longleftrightarrow> xs = ys"
  using ctr_xor_involution [of block iv xs] ctr_xor_involution [of block iv ys] by metis

end
