(* ===== verification/Chunk.thy ===== *)
theory Chunk
  imports Cipher_Ctr
begin

text \<open>
  Splitting a data stream into chunks (\<open>internal/proxy/chunker.go\<close>, \<open>chunker_fixed16k.go\<close>,
  \<open>chunker_bounded.go\<close>): the chunk and its configuration, the padding source, the fixed-size and
  the bounded random chunker, and the registries that select them by name. The locale \<open>chunker\<close>
  is the Go interface \<open>Chunker\<close> with the promises the exit side relies on; both chunkers
  interpret it. The random reader is the list of bytes it still delivers before it fails, and the
  floating-point quantile of the bounded chunker is a parameter that is only ever clamped.
\<close>

section \<open>Chunks and configuration\<close>

definition ChunkData :: byte where "ChunkData = 1"
definition ChunkStreamEnd :: byte where "ChunkStreamEnd = 2"
definition ChunkPadding :: byte where "ChunkPadding = 3"
definition ChunkStreamStart :: byte where "ChunkStreamStart = 4"

lemmas chunk_types = ChunkData_def ChunkStreamEnd_def ChunkPadding_def ChunkStreamStart_def

record chunk =
  StreamID :: u32
  Sequence :: u32
  Total :: u32
  CType :: byte
  Payload :: bytes
  PaddingLen :: u16

definition DefaultMaxReassemblyChunks :: int where "DefaultMaxReassemblyChunks = 2048"
definition DefaultMaxReassemblyBytes :: int where "DefaultMaxReassemblyBytes = 32 * 1024 * 1024"
definition DefaultStreamReassemblyTimeout :: int where
  "DefaultStreamReassemblyTimeout = 30 * 1000000000"

record ChunkerConfig =
  MaxChunkSize :: int
  MinChunkSize :: int
  PaddingMin :: int
  PaddingMax :: int
  DisablePadding :: bool
  DebugFixedSizes :: bool
  PaddingSeed :: bytes
  MaxReassemblyChunks :: int
  MaxReassemblyBytes :: int
  StreamReassemblyTimeout :: int

definition DefaultChunkerConfig :: ChunkerConfig where
  "DefaultChunkerConfig =
     \<lparr>MaxChunkSize = 16 * 1024, MinChunkSize = 16 * 1024, PaddingMin = 1024, PaddingMax = 4 * 1024,
      DisablePadding = False, DebugFixedSizes = False, PaddingSeed = [],
      MaxReassemblyChunks = DefaultMaxReassemblyChunks,
      MaxReassemblyBytes = DefaultMaxReassemblyBytes,
      StreamReassemblyTimeout = DefaultStreamReassemblyTimeout\<rparr>"

section \<open>The padding source\<close>

datatype padReader =
    RandReader bytes  \<comment> \<open>\<open>crypto/rand.Reader\<close>: the bytes it delivers before it fails\<close>
  | PadSource "bytes \<Rightarrow> bytes" nat  \<comment> \<open>\<open>padSource\<close>: the keyed block cipher and the stream position\<close>

definition padSource_Read :: "(bytes \<Rightarrow> bytes) \<Rightarrow> nat \<Rightarrow> nat \<Rightarrow> bytes" where
  \<comment> \<open>\<open>n\<close> zero bytes XORed with the key stream from position \<open>p\<close>, under the zero IV\<close>
  "padSource_Read block p n =
     map (\<lambda>i. xor 0 (ctr_byte block (replicate BlockSize 0) (p + i))) [0..<n]"

definition NewPaddingSource ::
    "(bytes \<Rightarrow> bytes) \<Rightarrow> (bytes \<Rightarrow> bytes \<Rightarrow> bytes) \<Rightarrow> bytes \<Rightarrow> ChunkerConfig \<Rightarrow> padReader" where
  \<comment> \<open>parameters: SHA-256, AES with a key, and what \<open>rand.Reader\<close> delivers\<close>
  "NewPaddingSource sha256 aes rnd c =
     (if PaddingSeed c = [] then RandReader rnd else PadSource (aes (sha256 (PaddingSeed c))) 0)"

fun pad_ReadFull :: "nat \<Rightarrow> padReader \<Rightarrow> bytes option \<times> padReader" where
  "pad_ReadFull n (RandReader bs) =
     (if n \<le> length bs then (Some (take n bs), RandReader (drop n bs)) else (None, RandReader []))"
| "pad_ReadFull n (PadSource block p) = (Some (padSource_Read block p n), PadSource block (p + n))"

definition be64 :: "bytes \<Rightarrow> u64" where
  \<comment> \<open>\<open>binary.BigEndian.Uint64\<close>\<close>
  "be64 bs = of_nat (be_nat bs)"

definition randomPaddingLen :: "padReader \<Rightarrow> int \<Rightarrow> int \<Rightarrow> int \<times> padReader" where
  "randomPaddingLen src mn mx =
     (let mn = (if mn < 0 then 0 else mn)
      in if mx < mn then (0, src)
         else if mx = 0 then (0, src)
         else let rangeSize = mx - mn + 1
              in case pad_ReadFull 8 src of
                   (None, src) \<Rightarrow> (mn, src)
                 | (Some buf, src) \<Rightarrow> (mn + uint (be64 buf) mod rangeSize, src))"

section \<open>The fixed-size chunker\<close>

record fixedChunker =
  cfg :: ChunkerConfig
  streamID :: u32
  nextSeq :: u32
  setTotal :: u32
  totalSet :: bool
  padSource :: padReader

definition newFixedChunker :: "padReader \<Rightarrow> ChunkerConfig \<Rightarrow> fixedChunker" where
  "newFixedChunker src c =
     (let c = (if MaxChunkSize c \<le> 0 then c\<lparr>MaxChunkSize := 16 * 1024\<rparr> else c);
          c = (if MinChunkSize c \<le> 0 then c\<lparr>MinChunkSize := MaxChunkSize c\<rparr> else c)
      in \<lparr>cfg = c, streamID = 0, nextSeq = 0, setTotal = 0, totalSet = False, padSource = src\<rparr>)"

definition drawPadding :: "'a fixedChunker_scheme \<Rightarrow> u16 \<times> 'a fixedChunker_scheme" where
  \<comment> \<open>the padding branch both \<open>Split\<close> loops have\<close>
  "drawPadding c =
     (if \<not> DisablePadding (cfg c) \<and> PaddingMax (cfg c) > 0
      then let (n, src) = randomPaddingLen (padSource c) (PaddingMin (cfg c)) (PaddingMax (cfg c));
               c = c\<lparr>padSource := src\<rparr>
           in (if n > 0 then of_int n else 0, c)
      else (0, c))"

definition nextChunk ::
    "bytes \<Rightarrow> u32 \<Rightarrow> 'a fixedChunker_scheme \<Rightarrow> chunk \<times> 'a fixedChunker_scheme" where
  \<comment> \<open>the rest of a \<open>Split\<close> iteration: the chunk with its padding and total, \<open>c.nextSeq++\<close>\<close>
  "nextChunk payload unsetTotal c =
     (let (pad, c') = drawPadding c
      in (\<lparr>StreamID = streamID c, Sequence = nextSeq c,
           Total = (if totalSet c then setTotal c else unsetTotal), CType = ChunkData,
           Payload = payload, PaddingLen = pad\<rparr>,
          c'\<lparr>nextSeq := nextSeq c + 1\<rparr>))"

function fixedLoop :: "nat \<Rightarrow> u32 \<Rightarrow> bytes \<Rightarrow> fixedChunker \<Rightarrow> chunk list \<times> fixedChunker" where
  \<comment> \<open>the loop of \<open>Split\<close> on the bytes from \<open>offset\<close> on; \<open>newFixedChunker\<close> makes the size positive\<close>
  "fixedLoop m computedTotal rest c =
     (if rest = [] \<or> m = 0 then ([], c)
      else let (ch, c) = nextChunk (take m rest) computedTotal c;
               (chs, c) = fixedLoop m computedTotal (drop m rest) c
           in (ch # chs, c))"
  by pat_completeness auto
termination
  by (relation "measure (\<lambda>(m, t, rest, c). length rest)") auto

declare fixedLoop.simps [simp del]

definition fixed_Split :: "fixedChunker \<Rightarrow> bytes \<Rightarrow> chunk list \<times> fixedChunker" where
  "fixed_Split c dat =
     (if dat = [] then ([], c)
      else let m = nat (MaxChunkSize (cfg c));
               computedTotal = of_nat ((length dat + m - 1) div m)
           in fixedLoop m computedTotal dat c)"

definition SetStreamID :: "u32 \<Rightarrow> 'a fixedChunker_scheme \<Rightarrow> 'a fixedChunker_scheme" where
  "SetStreamID i c = c\<lparr>streamID := i, nextSeq := 0\<rparr>"

definition SetTotal :: "u32 \<Rightarrow> 'a fixedChunker_scheme \<Rightarrow> 'a fixedChunker_scheme" where
  "SetTotal n c = c\<lparr>setTotal := n, totalSet := True\<rparr>"

section \<open>The bounded random chunker\<close>

definition defaultBoundedMin :: int where "defaultBoundedMin = 4 * 1024"
definition defaultBoundedMax :: int where "defaultBoundedMax = 64 * 1024"

record boundedChunker = fixedChunker +
  minSize :: int
  maxSize :: int

definition newBoundedChunker :: "padReader \<Rightarrow> ChunkerConfig \<Rightarrow> boundedChunker" where
  "newBoundedChunker src c =
     (let mn = (if MinChunkSize c \<le> 0 then defaultBoundedMin else MinChunkSize c);
          mx = (if MaxChunkSize c \<le> 0 then defaultBoundedMax else MaxChunkSize c);
          mx = (if mx < mn then mn else mx)
      in \<lparr>cfg = c, streamID = 0, nextSeq = 0, setTotal = 0, totalSet = False, padSource = src,
          minSize = mn, maxSize = mx\<rparr>)"

definition sampleParetoSize ::
    "(int \<Rightarrow> u64 \<Rightarrow> int) \<Rightarrow> boundedChunker \<Rightarrow> int \<times> boundedChunker" where
  \<comment> \<open>\<open>quantile minSize n\<close> is the rounded float64 \<open>minSize / (1 - u)^(1/alpha)\<close> for
    \<open>u = (n >> 11) / 2^53\<close>, with \<open>u = 0\<close> replaced by \<open>1e-10\<close>\<close>
  "sampleParetoSize quantile c =
     (case pad_ReadFull 8 (padSource c) of
        (None, src) \<Rightarrow> (minSize c, c\<lparr>padSource := src\<rparr>)
      | (Some buf, src) \<Rightarrow>
          let result = quantile (minSize c) (be64 buf);
              result = (if result < minSize c then minSize c else result);
              result = (if result > maxSize c then maxSize c else result)
          in (result, c\<lparr>padSource := src\<rparr>))"

definition nextSize :: "(int \<Rightarrow> u64 \<Rightarrow> int) \<Rightarrow> nat \<Rightarrow> boundedChunker \<Rightarrow> nat \<times> boundedChunker" where
  \<comment> \<open>the size of the next chunk when \<open>remaining\<close> bytes are left\<close>
  "nextSize quantile remaining c =
     (let (size, c) = (if DebugFixedSizes (cfg c) then (maxSize c, c) else sampleParetoSize quantile c);
          size = (if size > int remaining then int remaining else size);
          size = (if size < 1 then 1 else size)
      in (nat size, c))"

function boundedLoop ::
    "(int \<Rightarrow> u64 \<Rightarrow> int) \<Rightarrow> bytes \<Rightarrow> boundedChunker \<Rightarrow> chunk list \<times> boundedChunker" where
  "boundedLoop quantile rest c =
     (if rest = [] then ([], c)
      else let (n, c) = nextSize quantile (length rest) c;
               (ch, c) = nextChunk (take n rest) 0 c;
               (chs, c) = boundedLoop quantile (drop n rest) c
           in (ch # chs, c))"
  by pat_completeness auto
termination
  by (relation "measure (\<lambda>(q, rest, c). length rest)")
    (auto simp: nextSize_def split_beta Let_def)

declare boundedLoop.simps [simp del]

definition bounded_Split ::
    "(int \<Rightarrow> u64 \<Rightarrow> int) \<Rightarrow> boundedChunker \<Rightarrow> bytes \<Rightarrow> chunk list \<times> boundedChunker" where
  "bounded_Split quantile c dat =
     (if dat = [] then ([], c)
      else let (chs, c') = boundedLoop quantile dat c
           in if \<not> totalSet c \<and> chs \<noteq> []
              then (map (\<lambda>ch. ch\<lparr>Total := of_nat (length chs)\<rparr>) chs, c')
              else (chs, c'))"

section \<open>The contract of a chunker\<close>

primrec seq_from :: "u32 \<Rightarrow> u32 \<Rightarrow> chunk list \<Rightarrow> bool" where
  \<comment> \<open>data chunks of stream \<open>i\<close> numbered from \<open>n\<close> on\<close>
  "seq_from i n [] = True"
| "seq_from i n (ch # chs) \<longleftrightarrow>
     StreamID ch = i \<and> Sequence ch = n \<and> CType ch = ChunkData \<and> seq_from i (n + 1) chs"

lemma seq_from_append:
  "seq_from i n (xs @ ys) \<longleftrightarrow> seq_from i n xs \<and> seq_from i (n + of_nat (length xs)) ys"
  by (induction xs arbitrary: n) (auto simp: algebra_simps)

lemma seq_from_nth:
  "seq_from i n chs \<Longrightarrow> k < length chs \<Longrightarrow>
     StreamID (chs ! k) = i \<and> Sequence (chs ! k) = n + of_nat k \<and> CType (chs ! k) = ChunkData"
proof (induction chs arbitrary: n k)
  case (Cons ch chs)
  then show ?case by (cases k) (auto simp: algebra_simps)
qed simp

lemma seq_from_map_Total [simp]: "seq_from i n (map (\<lambda>ch. ch\<lparr>Total := t\<rparr>) chs) = seq_from i n chs"
  by (induction chs arbitrary: n) simp_all

locale chunker =
  fixes Split :: "'c \<Rightarrow> bytes \<Rightarrow> chunk list \<times> 'c"
    and sid :: "'c \<Rightarrow> u32" and seq :: "'c \<Rightarrow> u32" and tot :: "'c \<Rightarrow> u32 option"
    and limit :: "'c \<Rightarrow> nat" and okc :: "'c \<Rightarrow> bool"
  assumes split_payloads: "okc c \<Longrightarrow> Split c d = (chs, c') \<Longrightarrow> concat (map Payload chs) = d"
    and split_sequences: "okc c \<Longrightarrow> Split c d = (chs, c') \<Longrightarrow> seq_from (sid c) (seq c) chs"
    and split_sizes: "okc c \<Longrightarrow> Split c d = (chs, c') \<Longrightarrow> ch \<in> set chs \<Longrightarrow>
      0 < length (Payload ch) \<and> length (Payload ch) \<le> limit c"
    and split_totals: "okc c \<Longrightarrow> Split c d = (chs, c') \<Longrightarrow> ch \<in> set chs \<Longrightarrow>
      Total ch = (case tot c of Some t \<Rightarrow> t | None \<Rightarrow> of_nat (length chs))"
    and split_state: "okc c \<Longrightarrow> Split c d = (chs, c') \<Longrightarrow>
      okc c' \<and> sid c' = sid c \<and> seq c' = seq c + of_nat (length chs) \<and> tot c' = tot c"
begin

primrec split_all :: "'c \<Rightarrow> bytes list \<Rightarrow> chunk list \<times> 'c" where
  \<comment> \<open>streaming: the segments of the stream are split as they arrive\<close>
  "split_all c [] = ([], c)"
| "split_all c (d # ds) =
     (case Split c d of (chs, c) \<Rightarrow> case split_all c ds of (chs', c) \<Rightarrow> (chs @ chs', c))"

lemma split_all_correct:
  assumes "okc c" "split_all c ds = (chs, c')"
  shows "concat (map Payload chs) = concat ds \<and> seq_from (sid c) (seq c) chs"
  using assms
proof (induction ds arbitrary: c chs c')
  case (Cons d ds)
  obtain xs c1 where s: "Split c d = (xs, c1)" by fastforce
  obtain ys c2 where r: "split_all c1 ds = (ys, c2)" by fastforce
  have st: "okc c1" "sid c1 = sid c" "seq c1 = seq c + of_nat (length xs)"
    using split_state [OF Cons.prems(1) s] by auto
  have "chs = xs @ ys" using Cons.prems(2) s r by simp
  then show ?case
    using Cons.IH [OF st(1) r] split_payloads [OF Cons.prems(1) s] split_sequences [OF Cons.prems(1) s] st
    by (simp add: seq_from_append)
qed simp

lemma split_count:
  assumes "okc c" "Split c d = (chs, c')"
  shows "length chs \<le> length d"
proof -
  have "0 < length (Payload ch)" if "ch \<in> set chs" for ch
    using split_sizes [OF assms that] by simp
  then have "length chs \<le> length (concat (map Payload chs))"
    by (induction chs) (auto simp: Suc_le_eq add_strict_increasing)
  then show ?thesis using split_payloads [OF assms] by simp
qed

end

section \<open>Both chunkers meet the contract\<close>

lemma drawPadding_state:
  "snd (drawPadding c) = c\<lparr>padSource := padSource (snd (drawPadding c))\<rparr>"
  by (simp add: drawPadding_def split_beta Let_def)

lemma nextChunk_chunk:
  assumes "nextChunk p t c = (ch, c')"
  shows "Payload ch = p" "StreamID ch = streamID c" "Sequence ch = nextSeq c" "CType ch = ChunkData"
    "Total ch = (if totalSet c then setTotal c else t)"
  using assms by (auto simp: nextChunk_def split_beta Let_def)

lemma nextChunk_state:
  assumes "nextChunk p t c = (ch, c')"
  obtains src where "c' = c\<lparr>padSource := src, nextSeq := nextSeq c + 1\<rparr>"
proof -
  have "c' = (snd (drawPadding c))\<lparr>nextSeq := nextSeq c + 1\<rparr>"
    using assms by (auto simp: nextChunk_def split_beta Let_def)
  then show thesis using that drawPadding_state [of c] by metis
qed

lemma ceil_div_step:
  fixes m n :: nat
  assumes "0 < m" "0 < n"
  shows "Suc ((n - m + m - 1) div m) = (n + m - 1) div m"
proof (cases "n \<le> m")
  case True
  then obtain k where "n = Suc k" "k < m" using assms(2) by (cases n) auto
  then show ?thesis using div_add_self2 [of m k] assms(1) by simp
next
  case False
  then have "n + m - 1 = (n - 1) + m" using assms by simp
  with False show ?thesis using div_add_self2 [of m "n - 1"] assms(1) by simp
qed

lemma fixedLoop_correct:
  assumes "0 < m" "fixedLoop m t d c = (chs, c')"
  shows "concat (map Payload chs) = d \<and> seq_from (streamID c) (nextSeq c) chs \<and>
    (\<forall>ch\<in>set chs. 0 < length (Payload ch) \<and> length (Payload ch) \<le> m \<and>
       Total ch = (if totalSet c then setTotal c else t)) \<and>
    length chs = (length d + m - 1) div m \<and>
    (\<exists>src. c' = c\<lparr>padSource := src, nextSeq := nextSeq c + of_nat (length chs)\<rparr>)"
  using assms
proof (induction m t d c arbitrary: chs c' rule: fixedLoop.induct)
  case (1 m t d c)
  show ?case
  proof (cases "d = []")
    case True
    then have "chs = []" "c' = c" using 1(3) by (simp_all add: fixedLoop.simps [of m t "[]" c])
    moreover have "c = c\<lparr>padSource := padSource c, nextSeq := nextSeq c\<rparr>" by simp
    ultimately show ?thesis using True 1(2) by (auto intro!: exI [of _ "padSource c"])
  next
    case False
    obtain ch c1 where n: "nextChunk (take m d) t c = (ch, c1)" by fastforce
    obtain chs' c2 where l: "fixedLoop m t (drop m d) c1 = (chs', c2)" by fastforce
    have eq: "chs = ch # chs'" "c' = c2"
      using 1(2,3) False n l by (simp_all add: fixedLoop.simps [of m t d c])
    obtain src where c1: "c1 = c\<lparr>padSource := src, nextSeq := nextSeq c + 1\<rparr>"
      using n by (rule nextChunk_state)
    note hd = nextChunk_chunk [OF n]
    have IH: "concat (map Payload chs') = drop m d \<and> seq_from (streamID c1) (nextSeq c1) chs' \<and>
      (\<forall>ch\<in>set chs'. 0 < length (Payload ch) \<and> length (Payload ch) \<le> m \<and>
         Total ch = (if totalSet c1 then setTotal c1 else t)) \<and>
      length chs' = (length (drop m d) + m - 1) div m \<and>
      (\<exists>src. c2 = c1\<lparr>padSource := src, nextSeq := nextSeq c1 + of_nat (length chs')\<rparr>)"
      by (rule "1.IH" [OF _ refl _ 1(2) l]) (use False 1(2) n in auto)
    have len: "Suc ((length (drop m d) + m - 1) div m) = (length d + m - 1) div m"
      using ceil_div_step [OF 1(2), of "length d"] False by simp
    from IH obtain src' where "c2 = c1\<lparr>padSource := src', nextSeq := nextSeq c1 + of_nat (length chs')\<rparr>"
      by auto
    then have state: "\<exists>src. c' = c\<lparr>padSource := src, nextSeq := nextSeq c + of_nat (length chs)\<rparr>"
      by (intro exI [of _ src']) (simp add: c1 eq algebra_simps)
    have "concat (map Payload chs) = d \<and> seq_from (streamID c) (nextSeq c) chs \<and>
        length chs = (length d + m - 1) div m"
      using IH hd len by (simp add: eq c1)
    moreover have "\<forall>ch\<in>set chs. 0 < length (Payload ch) \<and> length (Payload ch) \<le> m \<and>
        Total ch = (if totalSet c then setTotal c else t)"
      using IH hd False 1(2) by (simp add: eq c1)
    ultimately show ?thesis using state by blast
  qed
qed

definition tot_of :: "'a fixedChunker_scheme \<Rightarrow> u32 option" where
  "tot_of c = (if totalSet c then Some (setTotal c) else None)"

interpretation fixed: chunker fixed_Split streamID nextSeq tot_of
  "\<lambda>c. nat (MaxChunkSize (cfg c))" "\<lambda>c. 0 < MaxChunkSize (cfg c)"
proof (unfold_locales, goal_cases)
  case (1 c d chs c')
  then show ?case
    by (auto simp: fixed_Split_def Let_def split: if_splits dest!: fixedLoop_correct [rotated])
next
  case (2 c d chs c')
  then show ?case
    by (auto simp: fixed_Split_def Let_def split: if_splits dest!: fixedLoop_correct [rotated])
next
  case (3 c d chs c' ch)
  then show ?case
    by (auto simp: fixed_Split_def Let_def split: if_splits dest!: fixedLoop_correct [rotated])
next
  case (4 c d chs c' ch)
  then show ?case
    by (auto simp: fixed_Split_def Let_def tot_of_def split: if_splits dest!: fixedLoop_correct [rotated])
next
  case (5 c d chs c')
  then show ?case
    by (auto simp: fixed_Split_def Let_def tot_of_def split: if_splits dest!: fixedLoop_correct [rotated])
qed

lemma nextSize_correct:
  assumes "nextSize q k c = (n, c')" "0 < k" "0 < maxSize c" "minSize c \<le> maxSize c"
  shows "0 < n \<and> n \<le> k \<and> n \<le> nat (maxSize c) \<and> (\<exists>src. c' = c\<lparr>padSource := src\<rparr>)"
proof -
  obtain s c1 where s: "(if DebugFixedSizes (cfg c) then (maxSize c, c) else sampleParetoSize q c) = (s, c1)"
    by fastforce
  have c1: "c1 = c\<lparr>padSource := padSource c1\<rparr>" and le: "s \<le> maxSize c"
    using s assms(4) by (auto simp: sampleParetoSize_def Let_def split: if_splits prod.splits option.splits)
  have "n = nat (max 1 (min s (int k)))" "c' = c1"
    using assms(1) s by (auto simp: nextSize_def Let_def)
  then show ?thesis using assms c1 le by (auto simp: nat_le_iff le_nat_iff)
qed

lemma boundedLoop_correct:
  assumes "0 < maxSize c" "minSize c \<le> maxSize c" "boundedLoop q d c = (chs, c')"
  shows "concat (map Payload chs) = d \<and> seq_from (streamID c) (nextSeq c) chs \<and>
    (\<forall>ch\<in>set chs. 0 < length (Payload ch) \<and> length (Payload ch) \<le> nat (maxSize c) \<and>
       Total ch = (if totalSet c then setTotal c else 0)) \<and>
    (\<exists>src. c' = c\<lparr>padSource := src, nextSeq := nextSeq c + of_nat (length chs)\<rparr>)"
  using assms
proof (induction q d c arbitrary: chs c' rule: boundedLoop.induct)
  case (1 q d c)
  show ?case
  proof (cases "d = []")
    case True
    then have "chs = []" "c' = c" using 1(4) by (simp_all add: boundedLoop.simps [of q "[]" c])
    then show ?thesis using True by (auto intro!: exI [of _ "padSource c"])
  next
    case False
    obtain n c0 where sz: "nextSize q (length d) c = (n, c0)" by fastforce
    obtain ch c1 where n: "nextChunk (take n d) 0 c0 = (ch, c1)" by fastforce
    obtain chs' c2 where l: "boundedLoop q (drop n d) c1 = (chs', c2)" by fastforce
    have eq: "chs = ch # chs'" "c' = c2"
      using 1(4) False sz n l by (simp_all add: boundedLoop.simps [of q d c])
    obtain src0 where len: "0 < n" "n \<le> length d" "n \<le> nat (maxSize c)" and c0: "c0 = c\<lparr>padSource := src0\<rparr>"
      using nextSize_correct [OF sz _ 1(2,3)] False by auto
    obtain src where "c1 = c0\<lparr>padSource := src, nextSeq := nextSeq c0 + 1\<rparr>"
      using n by (rule nextChunk_state)
    then have c1: "c1 = c\<lparr>padSource := src, nextSeq := nextSeq c + 1\<rparr>" by (simp add: c0)
    note hd = nextChunk_chunk [OF n, unfolded c0, simplified]
    have IH: "concat (map Payload chs') = drop n d \<and> seq_from (streamID c1) (nextSeq c1) chs' \<and>
      (\<forall>ch\<in>set chs'. 0 < length (Payload ch) \<and> length (Payload ch) \<le> nat (maxSize c1) \<and>
         Total ch = (if totalSet c1 then setTotal c1 else 0)) \<and>
      (\<exists>src. c2 = c1\<lparr>padSource := src, nextSeq := nextSeq c1 + of_nat (length chs')\<rparr>)"
      by (rule "1.IH" [OF False refl sz [symmetric] refl n [symmetric] _ _ l])
        (use 1(2,3) in \<open>simp_all add: c1\<close>)
    from IH obtain src' where "c2 = c1\<lparr>padSource := src', nextSeq := nextSeq c1 + of_nat (length chs')\<rparr>"
      by auto
    then have state: "\<exists>src. c' = c\<lparr>padSource := src, nextSeq := nextSeq c + of_nat (length chs)\<rparr>"
      by (intro exI [of _ src']) (simp add: c1 eq algebra_simps)
    have "concat (map Payload chs) = d \<and> seq_from (streamID c) (nextSeq c) chs"
      using IH hd by (simp add: eq c1)
    moreover have "\<forall>ch\<in>set chs. 0 < length (Payload ch) \<and> length (Payload ch) \<le> nat (maxSize c) \<and>
        Total ch = (if totalSet c then setTotal c else 0)"
      using IH hd len False by (simp add: eq c1)
    ultimately show ?thesis using state by blast
  qed
qed

lemma bounded_Split_cases:
  assumes "bounded_Split q c d = (chs, c')"
  obtains chs0 where "boundedLoop q d c = (chs0, c')"
    and "chs = (if totalSet c then chs0 else map (\<lambda>ch. ch\<lparr>Total := of_nat (length chs0)\<rparr>) chs0)"
proof (cases "d = []")
  case True
  then have "chs = []" "c' = c" using assms by (simp_all add: bounded_Split_def)
  with True show thesis using that [of "[]"] by (simp add: boundedLoop.simps [of q "[]" c])
next
  case False
  obtain chs0 c0 where "boundedLoop q d c = (chs0, c0)" by fastforce
  with False assms show thesis using that [of chs0]
    by (auto simp: bounded_Split_def split: if_splits)
qed

interpretation bounded: chunker "bounded_Split q" streamID nextSeq tot_of
  "\<lambda>c. nat (maxSize c)" "\<lambda>c. 0 < maxSize c \<and> minSize c \<le> maxSize c" for q
proof (unfold_locales, goal_cases)
  case (1 c d chs c')
  then show ?case
    by (elim bounded_Split_cases) (auto simp: comp_def dest!: boundedLoop_correct [rotated 2])
next
  case (2 c d chs c')
  then show ?case
    by (elim bounded_Split_cases) (auto dest!: boundedLoop_correct [rotated 2])
next
  case (3 c d chs c' ch)
  then show ?case
    by (elim bounded_Split_cases) (auto split: if_splits dest!: boundedLoop_correct [rotated 2])
next
  case (4 c d chs c' ch)
  then show ?case
    by (elim bounded_Split_cases) (auto simp: tot_of_def split: if_splits dest!: boundedLoop_correct [rotated 2])
next
  case (5 c d chs c')
  then show ?case
    by (elim bounded_Split_cases) (auto simp: tot_of_def dest!: boundedLoop_correct [rotated 2])
qed

section \<open>The registry of strategies\<close>

datatype chunkerFactory = NewFixed | NewBounded
datatype Chunker = Fixed fixedChunker | Bounded boundedChunker

type_synonym 'f registry = "(string \<times> 'f) list"

definition register :: "string \<Rightarrow> 'f \<Rightarrow> 'f registry \<Rightarrow> (unit, 'f registry) res" where
  \<comment> \<open>\<open>LoadOrStore\<close>, with a panic when the name is taken\<close>
  "register name f reg = (if map_of reg name \<noteq> None then Inl Panic else ok (AList.update name f reg))"

definition RegisterChunker ::
    "string \<Rightarrow> chunkerFactory \<Rightarrow> chunkerFactory registry \<Rightarrow> (unit, chunkerFactory registry) res" where
  "RegisterChunker name f reg = register name f reg"

definition registry_Get :: "'f registry \<Rightarrow> string \<Rightarrow> 'f option" where
  "registry_Get reg name = map_of reg name"

definition registry_MustGet :: "'f registry \<Rightarrow> string \<Rightarrow> (unit, 'f) res" where
  "registry_MustGet reg name = (case registry_Get reg name of Some f \<Rightarrow> ok f | None \<Rightarrow> Inl Panic)"

definition registry_Names :: "'f registry \<Rightarrow> string list" where
  "registry_Names reg = map fst reg"

definition fixed16kName :: string where "fixed16kName = ''fixed-16k''"
definition boundedName :: string where "boundedName = ''bounded-4k-64k''"

definition chunkers_init :: "(unit, chunkerFactory registry) res" where
  \<comment> \<open>the \<open>init\<close> functions of \<open>chunker_bounded.go\<close> and \<open>chunker_fixed16k.go\<close>\<close>
  "chunkers_init = and_then (RegisterChunker boundedName NewBounded []) (RegisterChunker fixed16kName NewFixed)"

fun run_factory :: "padReader \<Rightarrow> chunkerFactory \<Rightarrow> ChunkerConfig \<Rightarrow> Chunker" where
  "run_factory src NewFixed c = Fixed (newFixedChunker src c)"
| "run_factory src NewBounded c = Bounded (newBoundedChunker src c)"

definition NewChunkerWithConfig ::
    "padReader \<Rightarrow> chunkerFactory registry \<Rightarrow> string \<Rightarrow> ChunkerConfig \<Rightarrow> (unit, Chunker) res" where
  "NewChunkerWithConfig src reg name c =
     and_then (case registry_Get reg name of
                 Some f \<Rightarrow> ok f
               | None \<Rightarrow> registry_MustGet reg fixed16kName)
       (\<lambda>f. ok (run_factory src f c))"

definition NewChunker :: "padReader \<Rightarrow> chunkerFactory registry \<Rightarrow> string \<Rightarrow> (unit, Chunker) res" where
  "NewChunker src reg name = NewChunkerWithConfig src reg name DefaultChunkerConfig"

fun chunker_SetStreamID :: "u32 \<Rightarrow> Chunker \<Rightarrow> Chunker" where
  "chunker_SetStreamID i (Fixed c) = Fixed (SetStreamID i c)"
| "chunker_SetStreamID i (Bounded c) = Bounded (SetStreamID i c)"

fun chunker_Split :: "(int \<Rightarrow> u64 \<Rightarrow> int) \<Rightarrow> Chunker \<Rightarrow> bytes \<Rightarrow> chunk list \<times> Chunker" where
  "chunker_Split q (Fixed c) d = (let (chs, c) = fixed_Split c d in (chs, Fixed c))"
| "chunker_Split q (Bounded c) d = (let (chs, c) = bounded_Split q c d in (chs, Bounded c))"

fun chunker_ok :: "Chunker \<Rightarrow> bool" where
  "chunker_ok (Fixed c) \<longleftrightarrow> 0 < MaxChunkSize (cfg c)"
| "chunker_ok (Bounded c) \<longleftrightarrow> 0 < maxSize c \<and> minSize c \<le> maxSize c"

interpretation any: chunker "chunker_Split q" "case_Chunker streamID streamID" "case_Chunker nextSeq nextSeq"
  "case_Chunker tot_of tot_of" "case_Chunker (\<lambda>c. nat (MaxChunkSize (cfg c))) (\<lambda>c. nat (maxSize c))" chunker_ok for q
proof (unfold_locales, goal_cases)
  case (1 c d chs c')
  then show ?case
    by (cases c) (auto simp: split_beta Let_def fixed.split_payloads bounded.split_payloads prod_eq_iff)
next
  case (2 c d chs c')
  then show ?case
    by (cases c) (auto simp: split_beta Let_def fixed.split_sequences bounded.split_sequences prod_eq_iff)
next
  case (3 c d chs c' ch)
  then show ?case
    by (cases c) (auto split: prod.splits dest: fixed.split_sizes bounded.split_sizes [OF conjI])
next
  case (4 c d chs c' ch)
  then show ?case
    by (cases c) (auto split: prod.splits dest: fixed.split_totals bounded.split_totals [OF conjI])
next
  case (5 c d chs c')
  then show ?case
    by (cases c) (auto split: prod.splits dest: fixed.split_state bounded.split_state [OF conjI])
qed

section \<open>Properties\<close>

definition segmentation :: "u32 \<Rightarrow> bytes \<Rightarrow> chunk list \<Rightarrow> bool" where
  \<comment> \<open>the data of stream \<open>i\<close> in non-empty chunks numbered from 0, each carrying their number\<close>
  "segmentation i d chs \<longleftrightarrow>
     concat (map Payload chs) = d \<and> seq_from i 0 chs \<and>
     (\<forall>ch\<in>set chs. Payload ch \<noteq> [] \<and> Total ch = of_nat (length chs))"

definition within :: "int \<Rightarrow> chunk list \<Rightarrow> bool" where
  "within m chs \<longleftrightarrow> (\<forall>ch\<in>set chs. int (length (Payload ch)) \<le> m)"

lemma newFixedChunker_ok:
  "0 < MaxChunkSize (cfg (newFixedChunker src c))" "tot_of (newFixedChunker src c) = None"
  "MaxChunkSize (cfg (newFixedChunker src c)) = (if MaxChunkSize c \<le> 0 then 16384 else MaxChunkSize c)"
  by (simp_all add: newFixedChunker_def Let_def tot_of_def)

lemma newBoundedChunker_ok:
  "0 < maxSize (newBoundedChunker src c) \<and> minSize (newBoundedChunker src c) \<le> maxSize (newBoundedChunker src c)"
  "tot_of (newBoundedChunker src c) = None"
  "maxSize (newBoundedChunker src c) =
     max (if MinChunkSize c \<le> 0 then defaultBoundedMin else MinChunkSize c)
       (if MaxChunkSize c \<le> 0 then defaultBoundedMax else MaxChunkSize c)"
  by (auto simp: newBoundedChunker_def Let_def tot_of_def defaultBoundedMin_def defaultBoundedMax_def)

lemma SetStreamID_fields [simp]:
  "cfg (SetStreamID i c) = cfg c" "streamID (SetStreamID i c) = i" "nextSeq (SetStreamID i c) = 0"
  "tot_of (SetStreamID i c) = tot_of c"
  by (simp_all add: SetStreamID_def tot_of_def)

lemma SetStreamID_bounded [simp]:
  "minSize (SetStreamID i c) = minSize c" "maxSize (SetStreamID i c) = maxSize c"
  by (simp_all add: SetStreamID_def)

lemma fixed_segmentation:
  fixes src c i
  defines "ck \<equiv> SetStreamID i (newFixedChunker src c)"
  shows "segmentation i d (fst (fixed_Split ck d)) \<and>
    within (if MaxChunkSize c \<le> 0 then 16384 else MaxChunkSize c) (fst (fixed_Split ck d))"
proof -
  obtain chs c' where s: "fixed_Split ck d = (chs, c')" by fastforce
  have ok: "0 < MaxChunkSize (cfg ck)" "tot_of ck = None" "streamID ck = i" "nextSeq ck = 0"
    "MaxChunkSize (cfg ck) = (if MaxChunkSize c \<le> 0 then 16384 else MaxChunkSize c)"
    by (simp_all add: ck_def newFixedChunker_ok)
  from fixed.split_payloads [OF ok(1) s] fixed.split_sequences [OF ok(1) s]
    fixed.split_sizes [OF ok(1) s] fixed.split_totals [OF ok(1) s] s ok
  show ?thesis by (auto simp: segmentation_def within_def le_nat_iff split: if_splits)
qed

lemma bounded_segmentation:
  fixes src c i
  defines "ck \<equiv> SetStreamID i (newBoundedChunker src c)"
  shows "segmentation i d (fst (bounded_Split q ck d)) \<and>
    within (maxSize (newBoundedChunker src c)) (fst (bounded_Split q ck d))"
proof -
  obtain chs c' where s: "bounded_Split q ck d = (chs, c')" by fastforce
  have ok: "0 < maxSize ck \<and> minSize ck \<le> maxSize ck" "tot_of ck = None" "streamID ck = i" "nextSeq ck = 0"
    "maxSize ck = maxSize (newBoundedChunker src c)"
    using newBoundedChunker_ok [of src c] by (simp_all add: ck_def)
  from bounded.split_payloads [OF ok(1) s] bounded.split_sequences [OF ok(1) s]
    bounded.split_sizes [OF ok(1) s] bounded.split_totals [OF ok(1) s] s ok
  show ?thesis by (auto simp: segmentation_def within_def le_nat_iff)
qed

text \<open>
  C16. Whatever strategy name a configuration asks for, a chunker is built (unknown names fall back
  to the fixed-size one), and splitting loses, reorders and invents nothing: the chunks of a
  stream are non-empty, carry its identifier, are numbered 0, 1, ... up to their common total,
  and their payloads concatenate to the data.
\<close>

theorem chunker_splits_stream:
  "\<exists>reg ck. chunkers_init = ok reg \<and> NewChunkerWithConfig src reg name c = ok ck \<and>
     ck = (if name = boundedName then Bounded (newBoundedChunker src c) else Fixed (newFixedChunker src c)) \<and>
     segmentation i d (fst (chunker_Split q (chunker_SetStreamID i ck) d))"
proof -
  let ?reg = "[(boundedName, NewBounded), (fixed16kName, NewFixed)]"
  have "chunkers_init = ok ?reg"
    by (simp add: chunkers_init_def RegisterChunker_def register_def boundedName_def fixed16kName_def)
  moreover have "NewChunkerWithConfig src ?reg name c =
      ok (if name = boundedName then Bounded (newBoundedChunker src c) else Fixed (newFixedChunker src c))"
    by (simp add: NewChunkerWithConfig_def registry_Get_def registry_MustGet_def
        boundedName_def fixed16kName_def)
  moreover have "segmentation i d (fst (chunker_Split q (chunker_SetStreamID i ck) d))"
    if "ck = (if name = boundedName then Bounded (newBoundedChunker src c) else Fixed (newFixedChunker src c))"
    for ck
    using that fixed_segmentation bounded_segmentation by (simp add: split_beta Let_def)
  ultimately show ?thesis by auto
qed



lemma randomPaddingLen_range:
  assumes "0 \<le> mn" "mn \<le> mx"
  shows "mn \<le> fst (randomPaddingLen src mn mx) \<and> fst (randomPaddingLen src mn mx) \<le> mx"
proof -
  have "0 \<le> n mod (mx - mn + 1)" "n mod (mx - mn + 1) \<le> mx - mn" for n :: int
    using assms pos_mod_bound [of "mx - mn + 1" n] by auto
  then show ?thesis using assms
    by (auto simp: randomPaddingLen_def Let_def algebra_simps split: prod.split option.split)
qed

text \<open>
  Padding lengths lie in the configured range, also when the random source fails, and survive
  the conversion to 16 bits whenever \<open>PaddingMax\<close> fits.
\<close>

lemma padding_in_range:
  assumes "\<not> DisablePadding (cfg c)" "0 \<le> PaddingMin (cfg c)" "PaddingMin (cfg c) \<le> PaddingMax (cfg c)"
    and "0 < PaddingMax (cfg c)" "PaddingMax (cfg c) < 2 ^ 16"
  shows "PaddingMin (cfg c) \<le> uint (PaddingLen (fst (nextChunk p t c))) \<and>
         uint (PaddingLen (fst (nextChunk p t c))) \<le> PaddingMax (cfg c)"
proof -
  obtain n src where r: "randomPaddingLen (padSource c) (PaddingMin (cfg c)) (PaddingMax (cfg c)) = (n, src)"
    by fastforce
  have n: "PaddingMin (cfg c) \<le> n" "n \<le> PaddingMax (cfg c)"
    using randomPaddingLen_range [OF assms(2,3), of "padSource c"] r by simp_all
  have "uint (of_int n :: u16) = n"
    using n assms by (simp add: uint_word_of_int)
  moreover have "PaddingLen (fst (nextChunk p t c)) = (if n > 0 then of_int n else 0)"
    using assms r by (simp add: nextChunk_def drawPadding_def)
  ultimately show ?thesis using n assms(2) by auto
qed

end
