(* ===== verification/Circuit_Protocol.thy ===== *)
theory Circuit_Protocol
  imports Chunk
begin

text \<open>
  The circuit protocol (\<open>internal/proxy/protocol.go\<close>): the onion-encrypted forwarding header, the
  end-to-end encrypted chunk, the key agreement and the control messages. Go strings are byte
  lists here, since the code only measures and copies them. The primitives the file calls are
  parameters: AES with a key (under the counter mode of \<open>Cipher_Ctr\<close>), ChaCha20-Poly1305 as
  \<open>seal\<close> and \<open>open\<close>, X25519 and SHA-256; \<open>rnd\<close> is what the random reader delivers.
\<close>

section \<open>Constants and errors\<close>

definition ForwardingHeaderSize :: nat where "ForwardingHeaderSize = 64"
definition NonceSize :: nat where "NonceSize = 12"
definition KeySize :: nat where "KeySize = 32"
definition CircuitIDSize :: nat where "CircuitIDSize = 16"
definition MaxChunkPayloadSize :: nat where "MaxChunkPayloadSize = 64 * 1024"

lemmas sizes = ForwardingHeaderSize_def NonceSize_def KeySize_def CircuitIDSize_def BlockSize_def
  MaxChunkPayloadSize_def

datatype proto_error =
    KeyLength nat | AddrTooLong nat | Random | HeaderLength nat | AddrLength u16
  | CircuitIDLength nat | NonceLength nat | DecryptFailed | PlaintextTooShort nat
  | ErrCircuitIDMismatch | PaddingOverflow | PayloadLength u32 nat | PubKeyLength
  | TargetTooLong nat | DataTooShort nat | TargetLength u16 nat | ReasonOverflow | SeqOverflow nat
  | X25519Failed

definition readRandom :: "bytes \<Rightarrow> nat \<Rightarrow> (proto_error, bytes \<times> bytes) res" where
  "readRandom rnd n = readFull (\<lambda>_. Random) rnd n"

section \<open>The forwarding header\<close>

record ForwardingHeader =
  NextHop :: bytes

definition ForwardingHeader_Encode ::
    "(bytes \<Rightarrow> bytes \<Rightarrow> bytes) \<Rightarrow> bytes \<Rightarrow> ForwardingHeader \<Rightarrow> bytes \<Rightarrow> (proto_error, bytes \<times> bytes) res" where
  "ForwardingHeader_Encode aes rnd h relayKey =
     guard (length relayKey \<noteq> KeySize) (KeyLength (length relayKey))
     (let plaintext = replicate ForwardingHeaderSize 0;
          addrLen = length (NextHop h)
      in guard (addrLen > ForwardingHeaderSize - 3) (AddrTooLong addrLen)
         (let plaintext = copy_at plaintext 0 (put16 (of_nat addrLen));
              plaintext = copy_at plaintext 2 (NextHop h)
          in and_then (readRandom rnd (ForwardingHeaderSize - 2 - addrLen)) (\<lambda>(padding, rnd).
             let plaintext = copy_at plaintext (2 + addrLen) padding;
                 iv = replicate BlockSize 0
             in ok (ctr_xor (aes relayKey) iv plaintext, rnd))))"

definition DecodeForwardingHeader ::
    "(bytes \<Rightarrow> bytes \<Rightarrow> bytes) \<Rightarrow> bytes \<Rightarrow> bytes \<Rightarrow> (proto_error, ForwardingHeader) res" where
  "DecodeForwardingHeader aes encrypted relayKey =
     guard (length encrypted \<noteq> ForwardingHeaderSize) (HeaderLength (length encrypted))
     (guard (length relayKey \<noteq> KeySize) (KeyLength (length relayKey))
     (let iv = replicate BlockSize 0;
          plaintext = ctr_xor (aes relayKey) iv encrypted
      in and_then (get16 plaintext 0) (\<lambda>addrLen.
         guard (unat addrLen > ForwardingHeaderSize - 2) (AddrLength addrLen)
         (and_then (slice plaintext 2 (2 + unat addrLen)) (\<lambda>addr. ok \<lparr>NextHop = addr\<rparr>)))))"

section \<open>Chunks on the wire\<close>

record WireChunk =
  Header :: bytes
  Nonce :: bytes
  Ciphertext :: bytes

definition metaSize :: nat where "metaSize = 35"

definition chunk_plaintext :: "chunk \<Rightarrow> bytes \<Rightarrow> bytes \<Rightarrow> bytes" where
  \<comment> \<open>the plaintext buffer of \<open>EncodeChunk\<close>, with the random \<open>padding\<close> already drawn\<close>
  "chunk_plaintext ch circuitID padding =
     (let buf = replicate (metaSize + unat (PaddingLen ch) + length (Payload ch)) 0;
          buf = copy_at buf 0 circuitID;
          buf = copy_at buf 16 (put32 (StreamID ch));
          buf = copy_at buf 20 (put32 (Sequence ch));
          buf = copy_at buf 24 (put32 (Total ch));
          buf = copy_at buf 28 [CType ch];
          buf = copy_at buf 29 (put16 (PaddingLen ch));
          buf = copy_at buf 31 (put32 (of_nat (length (Payload ch))));
          buf = copy_at buf 35 padding
      in copy_at buf (35 + unat (PaddingLen ch)) (Payload ch))"

definition EncodeChunk ::
    "(bytes \<Rightarrow> bytes \<Rightarrow> bytes) \<Rightarrow> (bytes \<Rightarrow> bytes \<Rightarrow> bytes \<Rightarrow> bytes \<Rightarrow> bytes) \<Rightarrow> bytes \<Rightarrow>
     chunk \<Rightarrow> bytes \<Rightarrow> bytes \<Rightarrow> bytes \<Rightarrow> bytes \<Rightarrow> (proto_error, WireChunk \<times> bytes) res" where
  "EncodeChunk aes seal rnd ch e2eKey relayKey nextHop circuitID =
     guard (length e2eKey \<noteq> KeySize) (KeyLength (length e2eKey))
     (guard (length circuitID \<noteq> CircuitIDSize) (CircuitIDLength (length circuitID))
     (and_then (readRandom rnd (unat (PaddingLen ch))) (\<lambda>(padding, rnd).
      let plaintext = chunk_plaintext ch circuitID padding
      in and_then (readRandom rnd NonceSize) (\<lambda>(nonce, rnd).
         and_then (ForwardingHeader_Encode aes rnd \<lparr>NextHop = nextHop\<rparr> relayKey) (\<lambda>(header, rnd).
         ok (\<lparr>Header = header, Nonce = nonce, Ciphertext = seal e2eKey nonce plaintext header\<rparr>, rnd))))))"

definition bytesEqual :: "bytes \<Rightarrow> bytes \<Rightarrow> bool" where
  "bytesEqual a b =
     (if length a \<noteq> length b then False
      else foldl (\<lambda>v i. or v (xor (a ! i) (b ! i))) 0 [0..<length a] = 0)"

definition parse_chunk :: "bytes \<Rightarrow> bytes \<Rightarrow> (proto_error, chunk) res" where
  \<comment> \<open>the metadata parser of \<open>DecodeChunk\<close>\<close>
  "parse_chunk plaintext circuitID =
     guard (length plaintext < metaSize) (PlaintextTooShort (length plaintext))
     (and_then (slice plaintext 0 CircuitIDSize) (\<lambda>decodedCircuitID.
      guard (\<not> bytesEqual decodedCircuitID circuitID) ErrCircuitIDMismatch
     (and_then (get32 plaintext 16) (\<lambda>sid.
      and_then (get32 plaintext 20) (\<lambda>sq.
      and_then (get32 plaintext 24) (\<lambda>tot.
      and_then (byte_at plaintext 28) (\<lambda>ty.
      and_then (get16 plaintext 29) (\<lambda>padLen.
      and_then (get32 plaintext 31) (\<lambda>payloadLen.
      guard (35 + unat padLen > length plaintext) PaddingOverflow
      (let offset = 35 + unat padLen;
           remaining = length plaintext - offset
       in guard (unat payloadLen \<noteq> remaining) (PayloadLength payloadLen remaining)
          (and_then (slice plaintext offset (length plaintext)) (\<lambda>payload.
           ok \<lparr>StreamID = sid, Sequence = sq, Total = tot, CType = ty, Payload = payload,
               PaddingLen = padLen\<rparr>))))))))))))"

definition DecodeChunk ::
    "(bytes \<Rightarrow> bytes \<Rightarrow> bytes \<Rightarrow> bytes \<Rightarrow> bytes option) \<Rightarrow> WireChunk \<Rightarrow> bytes \<Rightarrow> bytes \<Rightarrow>
     (proto_error, chunk) res" where
  \<comment> \<open>\<open>open key nonce ciphertext header\<close> is \<open>None\<close> when authentication fails\<close>
  "DecodeChunk open wc e2eKey circuitID =
     guard (length e2eKey \<noteq> KeySize) (KeyLength (length e2eKey))
     (guard (length (Nonce wc) \<noteq> NonceSize) (NonceLength (length (Nonce wc)))
     (guard (length (Header wc) \<noteq> ForwardingHeaderSize) (HeaderLength (length (Header wc)))
     (guard (length circuitID \<noteq> CircuitIDSize) (CircuitIDLength (length circuitID))
     (case open e2eKey (Nonce wc) (Ciphertext wc) (Header wc) of
        None \<Rightarrow> err DecryptFailed
      | Some plaintext \<Rightarrow> parse_chunk plaintext circuitID))))"

section \<open>Key agreement\<close>

record ECDHKeyPair =
  Private :: bytes
  Public :: bytes

definition clamp :: "bytes \<Rightarrow> bytes" where
  "clamp priv =
     (let priv = priv[0 := and (priv ! 0) 248];
          priv = priv[31 := and (priv ! 31) 127]
      in priv[31 := or (priv ! 31) 64])"

definition GenerateECDHKeyPair ::
    "(bytes \<Rightarrow> bytes \<Rightarrow> bytes option) \<Rightarrow> bytes \<Rightarrow> bytes \<Rightarrow> (proto_error, ECDHKeyPair \<times> bytes) res" where
  \<comment> \<open>\<open>base\<close> is \<open>curve25519.Basepoint\<close>\<close>
  "GenerateECDHKeyPair x25519 base rnd =
     and_then (readRandom rnd 32) (\<lambda>(priv, rnd).
     let priv = clamp priv
     in case x25519 priv base of
          None \<Rightarrow> err X25519Failed
        | Some pub \<Rightarrow> ok (\<lparr>Private = priv, Public = pub\<rparr>, rnd))"

definition newHMACSHA256WithKey :: "(bytes \<Rightarrow> bytes) \<Rightarrow> bytes \<Rightarrow> bytes \<Rightarrow> bytes" where
  "newHMACSHA256WithKey sha256 key dat =
     (let k = copy_at (replicate 64 0) 0 key;
          ipad = map (\<lambda>b. xor b 0x36) k;
          opad = map (\<lambda>b. xor b 0x5c) k;
          inner = sha256 (ipad @ dat)
      in sha256 (opad @ inner))"

definition newHMACSHA256 :: "(bytes \<Rightarrow> bytes) \<Rightarrow> bytes \<Rightarrow> bytes" where
  "newHMACSHA256 sha256 dat = newHMACSHA256WithKey sha256 (replicate 32 0) dat"

definition ascii :: "string \<Rightarrow> bytes" where
  "ascii s = map (\<lambda>c. of_nat (of_char c)) s"

definition deriveKey :: "(bytes \<Rightarrow> bytes) \<Rightarrow> bytes \<Rightarrow> bytes \<Rightarrow> (proto_error, bytes) res" where
  "deriveKey sha256 secret info =
     (let prk = newHMACSHA256 sha256 (ascii ''meshdesk-prk:'' @ secret);
          okm = newHMACSHA256WithKey sha256 prk (info @ [1])
      in slice okm 0 KeySize)"

definition DeriveSharedKey ::
    "(bytes \<Rightarrow> bytes \<Rightarrow> bytes option) \<Rightarrow> (bytes \<Rightarrow> bytes) \<Rightarrow> bytes \<Rightarrow> bytes \<Rightarrow> (proto_error, bytes) res" where
  "DeriveSharedKey x25519 sha256 privKey peerPubKey =
     guard (length privKey \<noteq> 32) (KeyLength (length privKey))
     (guard (length peerPubKey \<noteq> 32) (KeyLength (length peerPubKey))
     (case x25519 privKey peerPubKey of
        None \<Rightarrow> err X25519Failed
      | Some shared \<Rightarrow> deriveKey sha256 shared (ascii ''meshdesk-circuit-e2e-v1'')))"

section \<open>Control messages\<close>

record CircuitSetup =
  cs_CircuitID :: bytes
  cs_ECDHPubKey :: bytes
  cs_TargetAddr :: bytes

definition CircuitSetup_Encode :: "CircuitSetup \<Rightarrow> (proto_error, bytes) res" where
  "CircuitSetup_Encode cs =
     guard (length (cs_CircuitID cs) \<noteq> CircuitIDSize) (CircuitIDLength (length (cs_CircuitID cs)))
     (guard (length (cs_ECDHPubKey cs) \<noteq> 32) PubKeyLength
     (guard (length (cs_TargetAddr cs) > 65535) (TargetTooLong (length (cs_TargetAddr cs)))
     (ok (cs_CircuitID cs @ cs_ECDHPubKey cs @ put16 (of_nat (length (cs_TargetAddr cs))) @
          cs_TargetAddr cs))))"

definition DecodeCircuitSetup :: "bytes \<Rightarrow> (proto_error, CircuitSetup) res" where
  "DecodeCircuitSetup dat =
     guard (length dat < CircuitIDSize + 32 + 2) (DataTooShort (length dat))
     (and_then (slice dat 0 CircuitIDSize) (\<lambda>cid.
      and_then (slice dat CircuitIDSize (CircuitIDSize + 32)) (\<lambda>pk.
      and_then (get16 dat (CircuitIDSize + 32)) (\<lambda>targetLen.
      let targetStart = CircuitIDSize + 32 + 2
      in guard (unat targetLen \<noteq> length dat - targetStart) (TargetLength targetLen (length dat - targetStart))
         (and_then (slice dat targetStart (length dat)) (\<lambda>addr.
          ok \<lparr>cs_CircuitID = cid, cs_ECDHPubKey = pk, cs_TargetAddr = addr\<rparr>))))))"

record CircuitAck =
  ca_CircuitID :: bytes
  ca_ECDHPubKey :: bytes
  ca_Accepted :: bool
  ca_Reason :: bytes

definition CircuitAck_Encode :: "CircuitAck \<Rightarrow> (proto_error, bytes) res" where
  "CircuitAck_Encode ca =
     guard (length (ca_CircuitID ca) \<noteq> CircuitIDSize) (CircuitIDLength (length (ca_CircuitID ca)))
     (guard (length (ca_ECDHPubKey ca) \<noteq> 32) PubKeyLength
     (ok (ca_CircuitID ca @ ca_ECDHPubKey ca @ [if ca_Accepted ca then 1 else 0] @
          put16 (of_nat (length (ca_Reason ca))) @ ca_Reason ca)))"

definition DecodeCircuitAck :: "bytes \<Rightarrow> (proto_error, CircuitAck) res" where
  "DecodeCircuitAck dat =
     guard (length dat < CircuitIDSize + 32 + 1 + 2) (DataTooShort (length dat))
     (and_then (slice dat 0 CircuitIDSize) (\<lambda>cid.
      and_then (slice dat CircuitIDSize (CircuitIDSize + 32)) (\<lambda>pk.
      and_then (byte_at dat (CircuitIDSize + 32)) (\<lambda>acc.
      and_then (get16 dat (CircuitIDSize + 33)) (\<lambda>reasonLen.
      let reasonStart = CircuitIDSize + 33 + 2
      in guard (unat reasonLen > length dat - reasonStart) ReasonOverflow
         (and_then (slice dat reasonStart (reasonStart + unat reasonLen)) (\<lambda>reason.
          ok \<lparr>ca_CircuitID = cid, ca_ECDHPubKey = pk, ca_Accepted = (acc = 1), ca_Reason = reason\<rparr>)))))))"

record TeardownMsg =
  td_CircuitID :: bytes
  td_Reason :: bytes

definition Teardown_Encode :: "TeardownMsg \<Rightarrow> (proto_error, bytes) res" where
  "Teardown_Encode ct =
     guard (length (td_CircuitID ct) \<noteq> CircuitIDSize) (CircuitIDLength (length (td_CircuitID ct)))
     (ok (td_CircuitID ct @ put16 (of_nat (length (td_Reason ct))) @ td_Reason ct))"

definition DecodeTeardown :: "bytes \<Rightarrow> (proto_error, TeardownMsg) res" where
  "DecodeTeardown dat =
     guard (length dat < CircuitIDSize + 2) (DataTooShort (length dat))
     (and_then (slice dat 0 CircuitIDSize) (\<lambda>cid.
      and_then (get16 dat CircuitIDSize) (\<lambda>reasonLen.
      let reasonStart = CircuitIDSize + 2
      in guard (unat reasonLen > length dat - reasonStart) ReasonOverflow
         (and_then (slice dat reasonStart (reasonStart + unat reasonLen)) (\<lambda>reason.
          ok \<lparr>td_CircuitID = cid, td_Reason = reason\<rparr>)))))"

record KeepaliveMsg =
  ka_CircuitID :: bytes
  ka_Timestamp :: u64  \<comment> \<open>the bit pattern of the signed nanosecond count\<close>

definition Keepalive_Encode :: "KeepaliveMsg \<Rightarrow> (proto_error, bytes) res" where
  "Keepalive_Encode k =
     guard (length (ka_CircuitID k) \<noteq> CircuitIDSize) (CircuitIDLength (length (ka_CircuitID k)))
     (let buf = replicate (CircuitIDSize + 8) 0;
          buf = copy_at buf 0 (ka_CircuitID k)
      in ok (copy_at buf CircuitIDSize (put64 (ka_Timestamp k))))"

definition DecodeKeepalive :: "bytes \<Rightarrow> (proto_error, KeepaliveMsg) res" where
  "DecodeKeepalive dat =
     guard (length dat < CircuitIDSize + 8) (DataTooShort (length dat))
     (and_then (slice dat 0 CircuitIDSize) (\<lambda>cid.
      and_then (get64 dat CircuitIDSize) (\<lambda>ts. ok \<lparr>ka_CircuitID = cid, ka_Timestamp = ts\<rparr>)))"

record NACKMsg =
  nk_CircuitID :: bytes
  nk_StreamID :: u32
  nk_MissingSeqs :: "u32 list"

primrec putSeqs :: "u32 list \<Rightarrow> nat \<Rightarrow> bytes \<Rightarrow> bytes" where
  "putSeqs [] offset buf = buf"
| "putSeqs (s # ss) offset buf = putSeqs ss (offset + 4) (copy_at buf offset (put32 s))"

definition NACK_Encode :: "NACKMsg \<Rightarrow> (proto_error, bytes) res" where
  "NACK_Encode n =
     guard (length (nk_CircuitID n) \<noteq> CircuitIDSize) (CircuitIDLength (length (nk_CircuitID n)))
     (let count = length (nk_MissingSeqs n);
          buf = replicate (CircuitIDSize + 4 + 2 + 4 * count) 0;
          buf = copy_at buf 0 (nk_CircuitID n);
          buf = copy_at buf CircuitIDSize (put32 (nk_StreamID n));
          buf = copy_at buf (CircuitIDSize + 4) (put16 (of_nat count))
      in ok (putSeqs (nk_MissingSeqs n) (CircuitIDSize + 6) buf))"

primrec getSeqs :: "bytes \<Rightarrow> nat \<Rightarrow> nat \<Rightarrow> nat \<Rightarrow> (proto_error, u32 list) res" where
  \<comment> \<open>the loop of \<open>DecodeNACK\<close> with \<open>n\<close> sequence numbers to go, at index \<open>i\<close> and \<open>offset\<close>\<close>
  "getSeqs dat 0 i offset = ok []"
| "getSeqs dat (Suc n) i offset =
     guard (offset + 4 > length dat) (SeqOverflow i)
     (and_then (get32 dat offset) (\<lambda>s.
      and_then (getSeqs dat n (i + 1) (offset + 4)) (\<lambda>ss. ok (s # ss))))"

definition DecodeNACK :: "bytes \<Rightarrow> (proto_error, NACKMsg) res" where
  "DecodeNACK dat =
     guard (length dat < CircuitIDSize + 6) (DataTooShort (length dat))
     (and_then (slice dat 0 CircuitIDSize) (\<lambda>cid.
      and_then (get32 dat CircuitIDSize) (\<lambda>sid.
      and_then (get16 dat (CircuitIDSize + 4)) (\<lambda>count.
      and_then (getSeqs dat (unat count) 0 (CircuitIDSize + 6)) (\<lambda>ss.
      ok \<lparr>nk_CircuitID = cid, nk_StreamID = sid, nk_MissingSeqs = ss\<rparr>)))))"

definition GenerateCircuitID :: "bytes \<Rightarrow> (proto_error, bytes \<times> bytes) res" where
  "GenerateCircuitID rnd = readRandom rnd CircuitIDSize"

section \<open>Control message codecs\<close>

definition wf_setup :: "CircuitSetup \<Rightarrow> bool" where
  "wf_setup cs \<longleftrightarrow> length (cs_CircuitID cs) = 16 \<and> length (cs_ECDHPubKey cs) = 32 \<and>
     length (cs_TargetAddr cs) < 65536"

definition wf_ack :: "CircuitAck \<Rightarrow> bool" where
  "wf_ack ca \<longleftrightarrow> length (ca_CircuitID ca) = 16 \<and> length (ca_ECDHPubKey ca) = 32 \<and>
     length (ca_Reason ca) < 65536"

definition wf_teardown :: "TeardownMsg \<Rightarrow> bool" where
  "wf_teardown ct \<longleftrightarrow> length (td_CircuitID ct) = 16 \<and> length (td_Reason ct) < 65536"

definition wf_keepalive :: "KeepaliveMsg \<Rightarrow> bool" where
  "wf_keepalive k \<longleftrightarrow> length (ka_CircuitID k) = 16"

definition wf_nack :: "NACKMsg \<Rightarrow> bool" where
  "wf_nack n \<longleftrightarrow> length (nk_CircuitID n) = 16 \<and> length (nk_MissingSeqs n) < 65536"

lemma DecodeCircuitSetup_sound:
  assumes "DecodeCircuitSetup dat = ok cs"
  shows "wf_setup cs \<and> CircuitSetup_Encode cs = ok dat"
proof -
  have len: "50 \<le> length dat" using assms by (auto simp: DecodeCircuitSetup_def sizes res_iffs)
  let ?w = "dec16 (take 2 (drop 48 dat))"
  have w: "(get16 dat 48 :: (proto_error, u16) res) = ok ?w" using len by (simp add: field_convs)
  have eq: "cs = \<lparr>cs_CircuitID = take 16 dat, cs_ECDHPubKey = take 32 (drop 16 dat), cs_TargetAddr = drop 50 dat\<rparr>"
    and u: "unat ?w = length dat - 50"
    using assms len by (auto simp: DecodeCircuitSetup_def sizes field_convs Let_def guard_def split: if_splits)
  have "length dat - 50 < 65536" using u unsigned_less [of ?w, where 'a = nat] by simp
  moreover have "put16 (of_nat (length dat - 50)) = take 2 (drop 48 dat)"
    using get16_eq_Inr(2) [OF w] by (simp flip: u)
  moreover have "dat = take 16 dat @ take 32 (drop 16 dat) @ take 2 (drop 48 dat) @ drop 50 dat"
    using drop_field [of 0 dat 16] drop_field [of 16 dat 32] drop_field [of 48 dat 2] by simp
  ultimately show ?thesis using len eq
    by (auto simp: wf_setup_def CircuitSetup_Encode_def sizes min_def)
qed

interpretation setup_codec: canonical_codec CircuitSetup_Encode DecodeCircuitSetup wf_setup
proof
  fix m assume wf: "wf_setup m"
  show "\<exists>bs. CircuitSetup_Encode m = ok bs \<and> DecodeCircuitSetup bs = ok m"
    using wf by (cases m) (simp add: CircuitSetup_Encode_def DecodeCircuitSetup_def wf_setup_def sizes
        field_convs layout_simps)
next
  show "DecodeCircuitSetup bs \<noteq> Inl Panic" for bs
    by (auto simp: DecodeCircuitSetup_def sizes res_iffs Let_def)
qed (rule DecodeCircuitSetup_sound)

interpretation ack_codec: message_codec CircuitAck_Encode DecodeCircuitAck wf_ack
proof
  fix m assume wf: "wf_ack m"
  show "\<exists>bs. CircuitAck_Encode m = ok bs \<and> DecodeCircuitAck bs = ok m"
    using wf by (cases m) (simp add: CircuitAck_Encode_def DecodeCircuitAck_def wf_ack_def sizes
        field_convs layout_simps)
next
  show "DecodeCircuitAck bs \<noteq> Inl Panic" for bs
    by (auto simp: DecodeCircuitAck_def sizes res_iffs Let_def)
qed

interpretation teardown_codec: message_codec Teardown_Encode DecodeTeardown wf_teardown
proof
  fix m assume wf: "wf_teardown m"
  show "\<exists>bs. Teardown_Encode m = ok bs \<and> DecodeTeardown bs = ok m"
    using wf by (cases m) (simp add: Teardown_Encode_def DecodeTeardown_def wf_teardown_def sizes
        field_convs layout_simps)
next
  show "DecodeTeardown bs \<noteq> Inl Panic" for bs
    by (auto simp: DecodeTeardown_def sizes res_iffs Let_def)
qed

lemma Keepalive_layout:
  "length cid = 16 \<Longrightarrow>
     Keepalive_Encode \<lparr>ka_CircuitID = cid, ka_Timestamp = t\<rparr> = ok (cid @ put64 t)"
  by (simp add: Keepalive_Encode_def sizes copy_at_fill_start copy_at_fill)

interpretation keepalive_codec: message_codec Keepalive_Encode DecodeKeepalive wf_keepalive
proof
  fix m assume wf: "wf_keepalive m"
  show "\<exists>bs. Keepalive_Encode m = ok bs \<and> DecodeKeepalive bs = ok m"
    using wf by (cases m) (simp add: wf_keepalive_def Keepalive_layout DecodeKeepalive_def sizes field_convs)
next
  show "DecodeKeepalive bs \<noteq> Inl Panic" for bs
    by (auto simp: DecodeKeepalive_def sizes res_iffs)
qed

lemma putSeqs_fill:
  "offset = length p \<Longrightarrow>
     putSeqs ss offset (p @ replicate (4 * length ss) 0) = p @ concat (map put32 ss)"
proof (induction ss arbitrary: p offset)
  case (Cons s ss)
  have "copy_at (p @ replicate (4 * length (s # ss)) 0) offset (put32 s)
      = (p @ put32 s) @ replicate (4 * length ss) 0"
    using Cons.prems by (subst copy_at_fill) simp_all
  then show ?case using Cons.IH [of "offset + 4" "p @ put32 s"] Cons.prems by simp
qed simp

lemma length_concat_put32 [simp]: "length (concat (map put32 ss)) = 4 * length ss"
  by (induction ss) simp_all

lemma NACK_layout:
  assumes "length cid = 16"
  shows "NACK_Encode \<lparr>nk_CircuitID = cid, nk_StreamID = i, nk_MissingSeqs = ss\<rparr>
    = ok (cid @ put32 i @ put16 (of_nat (length ss)) @ concat (map put32 ss))"
proof -
  have "copy_at (copy_at (copy_at (replicate (16 + 4 + 2 + 4 * length ss) 0) 0 cid) 16 (put32 i)) 20
      (put16 (of_nat (length ss))) = (cid @ put32 i @ put16 (of_nat (length ss))) @ replicate (4 * length ss) 0"
    using assms by (subst copy_at_fill_start, simp, (subst copy_at_fill, simp, simp)+) simp
  then show ?thesis
    using assms putSeqs_fill [of 22 "cid @ put32 i @ put16 (of_nat (length ss))" ss]
    by (simp add: NACK_Encode_def sizes)
qed

lemma getSeqs_concat:
  "offset = length p \<Longrightarrow> getSeqs (p @ concat (map put32 ss)) (length ss) i offset = ok ss"
proof (induction ss arbitrary: p i offset)
  case (Cons s ss)
  then show ?case using Cons.IH [of "offset + 4" "p @ put32 s"] by (simp add: field_convs)
qed simp

lemma getSeqs_no_panic [simp]: "getSeqs dat n i offset \<noteq> Inl Panic"
  by (induction n arbitrary: i offset) (auto simp: res_iffs)

interpretation nack_codec: message_codec NACK_Encode DecodeNACK wf_nack
proof
  fix m assume wf: "wf_nack m"
  obtain cid i ss where m: "m = \<lparr>nk_CircuitID = cid, nk_StreamID = i, nk_MissingSeqs = ss\<rparr>"
    by (cases m)
  have "getSeqs (cid @ put32 i @ put16 (of_nat (length ss)) @ concat (map put32 ss)) (length ss) 0 22 = ok ss"
    using getSeqs_concat [of 22 "cid @ put32 i @ put16 (of_nat (length ss))" ss 0] wf m
    by (simp add: wf_nack_def)
  then show "\<exists>bs. NACK_Encode m = ok bs \<and> DecodeNACK bs = ok m"
    using wf m by (simp add: wf_nack_def NACK_layout DecodeNACK_def sizes field_convs layout_simps)
next
  show "DecodeNACK bs \<noteq> Inl Panic" for bs
    by (auto simp: DecodeNACK_def sizes res_iffs)
qed

section \<open>The forwarding header and the chunk\<close>

lemma readRandom_eq_Inr: "readRandom rnd n = ok (xs, rest) \<longleftrightarrow> rnd = xs @ rest \<and> length xs = n"
  by (simp add: readRandom_def readFull_eq_Inr)

lemma readRandom_not_Panic [simp]: "readRandom rnd n \<noteq> Inl Panic"
  by (simp add: readRandom_def)

lemma header_plaintext:
  assumes "length hop \<le> 61" "length padding = 62 - length hop"
  shows "copy_at (copy_at (copy_at (replicate 64 0) 0 (put16 w)) 2 hop) (2 + length hop) padding
    = put16 w @ hop @ padding"
proof -
  have "copy_at (copy_at (replicate 64 0) 0 (put16 w)) 2 hop
      = (put16 w @ hop) @ replicate (62 - length hop) 0"
    using assms(1) by (subst copy_at_fill_start, simp, subst copy_at_fill) simp_all
  then show ?thesis
    using assms copy_at_fill [of "2 + length hop" "put16 w @ hop" padding "62 - length hop" 0] by simp
qed

lemma ForwardingHeader_Encode_eq_Inr:
  assumes "ForwardingHeader_Encode aes rnd \<lparr>NextHop = hop\<rparr> key = ok (ct, rnd')"
  shows "length key = 32 \<and> length hop \<le> 61 \<and> (\<exists>padding. length padding = 62 - length hop \<and>
    ct = ctr_xor (aes key) (replicate 16 0) (put16 (of_nat (length hop)) @ hop @ padding))"
proof -
  from assms obtain padding where p: "length key = 32" "length hop \<le> 61" "length padding = 62 - length hop"
    "ct = ctr_xor (aes key) (replicate 16 0)
      (copy_at (copy_at (copy_at (replicate 64 0) 0 (put16 (of_nat (length hop)))) 2 hop) (2 + length hop) padding)"
    by (auto simp: ForwardingHeader_Encode_def sizes res_iffs readRandom_eq_Inr Let_def)
  then show ?thesis using header_plaintext [OF p(2,3)] by auto
qed

lemma DecodeForwardingHeader_Encode:
  assumes "ForwardingHeader_Encode aes rnd \<lparr>NextHop = hop\<rparr> key = ok (ct, rnd')"
  shows "length ct = 64 \<and> DecodeForwardingHeader aes ct key = ok \<lparr>NextHop = hop\<rparr>"
proof -
  obtain padding where p: "length key = 32" "length hop \<le> 61" "length padding = 62 - length hop"
    "ct = ctr_xor (aes key) (replicate 16 0) (put16 (of_nat (length hop)) @ hop @ padding)"
    using ForwardingHeader_Encode_eq_Inr [OF assms] by auto
  then show ?thesis
    by (simp add: DecodeForwardingHeader_def sizes Let_def field_convs layout_simps)
qed

lemma DecodeForwardingHeader_no_panic: "DecodeForwardingHeader aes bs key \<noteq> Inl Panic"
  by (auto simp: DecodeForwardingHeader_def sizes res_iffs Let_def)

lemma foldl_or_zero:
  "foldl (\<lambda>v i. or v (f i)) (v :: byte) xs = 0 \<longleftrightarrow> v = 0 \<and> (\<forall>i\<in>set xs. f i = 0)"
proof (induction xs arbitrary: v)
  case (Cons x xs)
  have "or v (f x) = 0 \<longleftrightarrow> v = 0 \<and> f x = 0"
    by (metis bit_or_iff bit_0_eq bot_apply bit_eq_iff bot_bool_def)
  with Cons show ?case by auto
qed simp

lemma xor_eq_0_iff_byte: "xor (a :: byte) b = 0 \<longleftrightarrow> a = b"
  by (simp add: bit_eq_iff bit_xor_iff)

lemma bytesEqual_iff [simp]: "bytesEqual a b \<longleftrightarrow> a = b"
proof (cases "length a = length b")
  case True
  then have "bytesEqual a b \<longleftrightarrow> (\<forall>i<length a. a ! i = b ! i)"
    by (simp add: bytesEqual_def foldl_or_zero xor_eq_0_iff_byte Ball_def)
  with True show ?thesis by (metis nth_equalityI)
next
  case False
  then show ?thesis by (auto simp: bytesEqual_def)
qed

lemma chunk_plaintext_layout:
  assumes "length cid = 16" "length padding = unat (PaddingLen ch)"
  shows "chunk_plaintext ch cid padding =
    cid @ put32 (StreamID ch) @ put32 (Sequence ch) @ put32 (Total ch) @ [CType ch] @
    put16 (PaddingLen ch) @ put32 (of_nat (length (Payload ch))) @ padding @ Payload ch"
  unfolding chunk_plaintext_def Let_def metaSize_def add.assoc
  using assms
  by (subst copy_at_fill_start, simp, (subst copy_at_fill, simp, simp)+) simp

lemma parse_chunk_plaintext:
  assumes "length cid = 16" "length padding = unat (PaddingLen ch)" "length (Payload ch) < 2 ^ 32"
    and "length cid' = 16"
  shows "parse_chunk (chunk_plaintext ch cid padding) cid' =
    (if cid' = cid then ok ch else err ErrCircuitIDMismatch)"
  using assms
  by (cases ch) (simp add: parse_chunk_def chunk_plaintext_layout metaSize_def sizes field_convs layout_simps guard_def
      drop_Cons')

lemma EncodeChunk_eq_Inr:
  assumes "EncodeChunk aes seal rnd ch e2eKey relayKey nextHop circuitID = ok (wc, rnd')"
  obtains padding rnd0 rnd1 where "length e2eKey = 32" "length circuitID = 16"
    "length padding = unat (PaddingLen ch)" "length (Nonce wc) = 12"
    "ForwardingHeader_Encode aes rnd0 \<lparr>NextHop = nextHop\<rparr> relayKey = ok (Header wc, rnd1)"
    "Ciphertext wc = seal e2eKey (Nonce wc) (chunk_plaintext ch circuitID padding) (Header wc)"
  using assms by (auto simp: EncodeChunk_def sizes res_iffs readRandom_eq_Inr Let_def)

lemma readRandom_enough: "n \<le> length rnd \<Longrightarrow> readRandom rnd n = ok (take n rnd, drop n rnd)"
  by (simp add: readRandom_eq_Inr)

lemma EncodeChunk_succeeds:
  assumes "length e2eKey = 32" "length relayKey = 32" "length nextHop \<le> 61" "length circuitID = 16"
    "unat (PaddingLen ch) + 74 \<le> length rnd"
  shows "\<exists>wc rnd'. EncodeChunk aes seal rnd ch e2eKey relayKey nextHop circuitID = ok (wc, rnd')"
  using assms by (simp add: EncodeChunk_def ForwardingHeader_Encode_def sizes readRandom_enough Let_def)

lemma DecodeChunk_EncodeChunk:
  assumes aead: "\<And>k n p a. open k n (seal k n p a) a = Some p"
    and enc: "EncodeChunk aes seal rnd ch e2eKey relayKey nextHop circuitID = ok (wc, rnd')"
    and size: "length (Payload ch) < 2 ^ 32"
  shows "DecodeForwardingHeader aes (Header wc) relayKey = ok \<lparr>NextHop = nextHop\<rparr>"
    and "DecodeChunk open wc e2eKey circuitID = ok ch"
    and "length cid = CircuitIDSize \<Longrightarrow> cid \<noteq> circuitID \<Longrightarrow> DecodeChunk open wc e2eKey cid = err ErrCircuitIDMismatch"
proof -
  from enc obtain padding rnd0 rnd1 where e: "length e2eKey = 32" "length circuitID = 16"
    "length padding = unat (PaddingLen ch)" "length (Nonce wc) = 12"
    "ForwardingHeader_Encode aes rnd0 \<lparr>NextHop = nextHop\<rparr> relayKey = ok (Header wc, rnd1)"
    "Ciphertext wc = seal e2eKey (Nonce wc) (chunk_plaintext ch circuitID padding) (Header wc)"
    by (rule EncodeChunk_eq_Inr)
  note hdr = DecodeForwardingHeader_Encode [OF e(5)]
  show "DecodeForwardingHeader aes (Header wc) relayKey = ok \<lparr>NextHop = nextHop\<rparr>" using hdr by simp
  have "DecodeChunk open wc e2eKey cid = parse_chunk (chunk_plaintext ch circuitID padding) cid"
    if "length cid = 16" for cid
    using e hdr that by (simp add: DecodeChunk_def sizes aead)
  with e size show "DecodeChunk open wc e2eKey circuitID = ok ch"
    "length cid = CircuitIDSize \<Longrightarrow> cid \<noteq> circuitID \<Longrightarrow> DecodeChunk open wc e2eKey cid = err ErrCircuitIDMismatch"
    by (auto simp: parse_chunk_plaintext sizes)
qed

lemma parse_chunk_no_panic: "parse_chunk plaintext cid \<noteq> Inl Panic"
  by (auto simp: parse_chunk_def metaSize_def sizes res_iffs Let_def)

section \<open>Properties\<close>

text \<open>
  C20. A chunk travels end to end. For any AEAD whose \<open>Open\<close> inverts \<open>Seal\<close>: on keys and a circuit
  identifier of the right sizes, a next hop of at most 61 bytes and enough randomness, \<open>EncodeChunk\<close>
  succeeds; the relay reads the next hop from the header, the exit decodes exactly the chunk that
  was encoded, and an exit that expects another circuit refuses it with \<open>ErrCircuitIDMismatch\<close>.
\<close>

theorem chunk_end_to_end:
  assumes aead: "\<And>k n p a. open k n (seal k n p a) a = Some p"
    and keys: "length e2eKey = KeySize" "length relayKey = KeySize" "length circuitID = CircuitIDSize"
    and hop: "length nextHop \<le> 61" and size: "length (Payload ch) < 2 ^ 32"
    and random: "unat (PaddingLen ch) + 74 \<le> length rnd"
    and other: "length otherID = CircuitIDSize" "otherID \<noteq> circuitID"
  shows "\<exists>wc rnd'. EncodeChunk aes seal rnd ch e2eKey relayKey nextHop circuitID = ok (wc, rnd') \<and>
         DecodeForwardingHeader aes (Header wc) relayKey = ok \<lparr>NextHop = nextHop\<rparr> \<and>
         DecodeChunk open wc e2eKey circuitID = ok ch \<and>
         DecodeChunk open wc e2eKey otherID = err ErrCircuitIDMismatch"
proof -
  obtain wc rnd' where enc: "EncodeChunk aes seal rnd ch e2eKey relayKey nextHop circuitID = ok (wc, rnd')"
    using EncodeChunk_succeeds keys hop random by (metis sizes)
  from DecodeChunk_EncodeChunk [OF aead this size] other enc show ?thesis by blast
qed

definition plainSeal :: "bytes \<Rightarrow> bytes \<Rightarrow> bytes \<Rightarrow> bytes \<Rightarrow> bytes" where
  "plainSeal k n p a = p @ take 16 (a @ replicate 16 0)"

definition plainOpen :: "bytes \<Rightarrow> bytes \<Rightarrow> bytes \<Rightarrow> bytes \<Rightarrow> bytes option" where
  "plainOpen k n c a =
     (if drop (length c - 16) c = take 16 (a @ replicate 16 0) then Some (take (length c - 16) c) else None)"

definition exampleChunk :: chunk where
  "exampleChunk = \<lparr>StreamID = 5, Sequence = 0, Total = 1, CType = ChunkData, Payload = [1, 2, 3],
     PaddingLen = 2\<rparr>"

theorem chunk_end_to_end_witness:
  "\<exists>wc rnd'. EncodeChunk (\<lambda>k b. b) plainSeal (replicate 100 7) exampleChunk (replicate 32 1) (replicate 32 2)
       [49] (replicate 16 3) = ok (wc, rnd') \<and>
     DecodeForwardingHeader (\<lambda>k b. b) (Header wc) (replicate 32 2) = ok \<lparr>NextHop = [49]\<rparr> \<and>
     DecodeChunk plainOpen wc (replicate 32 1) (replicate 16 3) = ok exampleChunk \<and>
     DecodeChunk plainOpen wc (replicate 32 1) (replicate 16 4) = err ErrCircuitIDMismatch"
proof (rule chunk_end_to_end)
  show "plainOpen k n (plainSeal k n p a) a = Some p" for k n p a
    by (simp add: plainOpen_def plainSeal_def)
qed (simp_all add: sizes exampleChunk_def)

text \<open>
  C21. No input makes a decoder panic: whatever bytes arrive, and whatever the AEAD and AES
  return, the decoders of the forwarding header, the chunk and all control messages answer with
  a value or an error.
\<close>

theorem decoders_never_panic:
  "DecodeForwardingHeader aes bs key \<noteq> Inl Panic \<and> DecodeChunk open wc e2eKey cid \<noteq> Inl Panic \<and>
   DecodeCircuitSetup bs \<noteq> Inl Panic \<and> DecodeCircuitAck bs \<noteq> Inl Panic \<and>
   DecodeTeardown bs \<noteq> Inl Panic \<and> DecodeKeepalive bs \<noteq> Inl Panic \<and> DecodeNACK bs \<noteq> Inl Panic"
  using DecodeForwardingHeader_no_panic parse_chunk_no_panic setup_codec.dec_no_panic
    ack_codec.dec_no_panic teardown_codec.dec_no_panic keepalive_codec.dec_no_panic nack_codec.dec_no_panic
  by (auto simp: DecodeChunk_def guard_def split: option.split)

text \<open>
  The setup message has one encoding: the decoder accepts a byte string exactly when it is
  the encoding of the message it returns.
\<close>

lemma setup_encoding_unique:
  "DecodeCircuitSetup bs = ok cs \<longleftrightarrow> wf_setup cs \<and> CircuitSetup_Encode cs = ok bs"
  using setup_codec.dec_sound [of bs cs] setup_codec.dec_enc [of cs] by auto

text \<open>
  A NACK lists only what its 16-bit count can say: decoding an encoded NACK gives back the
  first \<open>n mod 65536\<close> of its \<open>n\<close> sequence numbers, so lists below 65536 survive and longer ones
  are silently cut.
\<close>

lemma nack_roundtrip_mod:
  assumes "length (nk_CircuitID m) = CircuitIDSize"
  shows "\<exists>bs. NACK_Encode m = ok bs \<and>
    DecodeNACK bs = ok (m\<lparr>nk_MissingSeqs := take (length (nk_MissingSeqs m) mod 65536) (nk_MissingSeqs m)\<rparr>)"
proof -
  obtain cid i ss where m: "m = \<lparr>nk_CircuitID = cid, nk_StreamID = i, nk_MissingSeqs = ss\<rparr>"
    by (cases m)
  let ?n = "length ss mod 65536"
  have cid: "length cid = 16" using assms m by (simp add: sizes)
  have n: "unat (of_nat (length ss) :: u16) = ?n" by (simp add: unat_of_nat)
  have len: "length (take ?n ss) = ?n" by simp
  have "getSeqs (p @ xs @ ys) k j offset = getSeqs (p @ xs) k j offset"
    if "offset + 4 * k \<le> length p + length xs" for p xs ys :: bytes and k j offset
    using that
  proof (induction k arbitrary: j offset)
    case (Suc k)
    then show ?case by (simp add: field_convs)
  qed simp
  from this [of 22 ?n "cid @ put32 i @ put16 (of_nat (length ss))" "concat (map put32 (take ?n ss))"
      "concat (map put32 (drop ?n ss))" 0]
  have "getSeqs (cid @ put32 i @ put16 (of_nat (length ss)) @ concat (map put32 ss)) ?n 0 22
      = getSeqs ((cid @ put32 i @ put16 (of_nat (length ss))) @ concat (map put32 (take ?n ss))) ?n 0 22"
    using cid by (simp flip: concat_append map_append)
  also have "\<dots> = ok (take ?n ss)"
    using getSeqs_concat [of 22 "cid @ put32 i @ put16 (of_nat (length ss))" "take ?n ss" 0] cid len by simp
  finally show ?thesis
    using m cid n by (simp add: NACK_layout DecodeNACK_def sizes field_convs)
qed

lemma length_clamp [simp]: "length (clamp p) = length p"
  by (simp add: clamp_def Let_def)

lemma GenerateECDHKeyPair_eq_Inr:
  assumes "GenerateECDHKeyPair x25519 base rnd = ok (kp, rnd')"
  shows "length (Private kp) = 32 \<and> x25519 (Private kp) base = Some (Public kp)"
  using assms by (auto simp: GenerateECDHKeyPair_def res_iffs readRandom_eq_Inr Let_def split: option.splits)

lemma ecdh_agreement:
  assumes dh: "\<And>a b p q. x25519 a base = Some p \<Longrightarrow> x25519 b base = Some q \<Longrightarrow> x25519 a q = x25519 b p"
    and point: "\<And>a p q. x25519 a p = Some q \<Longrightarrow> length q = 32"
    and digest: "\<And>m. length (sha256 m) = 32"
    and A: "GenerateECDHKeyPair x25519 base rndA = ok (A, restA)"
    and B: "GenerateECDHKeyPair x25519 base rndB = ok (B, restB)"
  shows "DeriveSharedKey x25519 sha256 (Private A) (Public B) = DeriveSharedKey x25519 sha256 (Private B) (Public A) \<and>
    (\<forall>shared. x25519 (Private A) (Public B) = Some shared \<longrightarrow>
       (\<exists>key. DeriveSharedKey x25519 sha256 (Private A) (Public B) = ok key \<and> length key = KeySize))"
proof -
  note a = GenerateECDHKeyPair_eq_Inr [OF A] and b = GenerateECDHKeyPair_eq_Inr [OF B]
  have len: "length (Public A) = 32" "length (Public B) = 32" using a b point by blast+
  have same: "x25519 (Private A) (Public B) = x25519 (Private B) (Public A)" using a b dh by blast
  have hmac: "length (newHMACSHA256WithKey sha256 k d) = 32" for k d
    by (simp add: newHMACSHA256WithKey_def Let_def digest)
  show ?thesis
    using a b len by (auto simp: DeriveSharedKey_def same deriveKey_def Let_def slice_def KeySize_def hmac)
qed

end
