(* ===== verification/Wire.thy ===== *)
theory Wire
  imports Circuit_Protocol
begin

text \<open>
  Serialisation of wire chunks between relays (\<open>internal/proxy/wire.go\<close>): length-prefixed header,
  nonce and ciphertext. The stream reader and the slice parser are shown to accept the same
  bytes, and the size limit of the format is related to what \<open>EncodeChunk\<close> produces.
\<close>

section \<open>Operations\<close>

definition MaxWireCiphertextSize :: nat where
  "MaxWireCiphertextSize = MaxChunkPayloadSize + 256 + 16"

datatype wire_error =
    WireHeaderLength nat | WireNonceLength nat | WireEmpty | WireTooLarge nat | WireTooShort nat
  | HeaderOverflow | NonceOverflow | CiphertextOverflow nat | WireIO io_error

definition SerializeWireChunk :: "WireChunk \<Rightarrow> (wire_error, bytes) res" where
  "SerializeWireChunk wc =
     guard (length (Header wc) \<noteq> ForwardingHeaderSize) (WireHeaderLength (length (Header wc)))
     (guard (length (Nonce wc) \<noteq> NonceSize) (WireNonceLength (length (Nonce wc)))
     (guard (Ciphertext wc = []) WireEmpty
     (guard (length (Ciphertext wc) > MaxWireCiphertextSize) (WireTooLarge (length (Ciphertext wc)))
     (let buf = [];
          buf = buf @ put16 (of_nat ForwardingHeaderSize);
          buf = buf @ Header wc;
          buf = buf @ put16 (of_nat NonceSize);
          buf = buf @ Nonce wc;
          buf = buf @ put32 (of_nat (length (Ciphertext wc)))
      in ok (buf @ Ciphertext wc)))))"

definition DeserializeWireChunk :: "bytes \<Rightarrow> (wire_error, WireChunk \<times> nat) res" where
  \<comment> \<open>with the number of bytes consumed\<close>
  "DeserializeWireChunk dat =
     guard (length dat < 2 + ForwardingHeaderSize + 2 + NonceSize + 4) (WireTooShort (length dat))
     (and_then (get16 dat 0) (\<lambda>hdrLen. let offset = 2 in
      guard (unat hdrLen \<noteq> ForwardingHeaderSize) (WireHeaderLength (unat hdrLen))
     (guard (offset + unat hdrLen > length dat) HeaderOverflow
     (and_then (slice dat offset (offset + unat hdrLen)) (\<lambda>header. let offset = offset + unat hdrLen in
      and_then (get16 dat offset) (\<lambda>nonceLen. let offset = offset + 2 in
      guard (unat nonceLen \<noteq> NonceSize) (WireNonceLength (unat nonceLen))
     (guard (offset + unat nonceLen > length dat) NonceOverflow
     (and_then (slice dat offset (offset + unat nonceLen)) (\<lambda>nonce. let offset = offset + unat nonceLen in
      and_then (get32 dat offset) (\<lambda>cipherLen. let offset = offset + 4 in
      guard (cipherLen = 0) WireEmpty
     (guard (unat cipherLen > MaxWireCiphertextSize) (WireTooLarge (unat cipherLen))
     (guard (offset + unat cipherLen > length dat) (CiphertextOverflow (unat cipherLen))
     (and_then (slice dat offset (offset + unat cipherLen)) (\<lambda>ciphertext.
      ok (\<lparr>Header = header, Nonce = nonce, Ciphertext = ciphertext\<rparr>, offset + unat cipherLen)))))))))))))))"

definition WriteWireChunk :: "bytes \<Rightarrow> WireChunk \<Rightarrow> (wire_error, bytes) res" where
  \<comment> \<open>on a writer that has accepted the bytes \<open>sent\<close> so far and does not fail\<close>
  "WriteWireChunk sent wc = and_then (SerializeWireChunk wc) (\<lambda>dat. ok (sent @ dat))"

definition ReadWireChunk :: "bytes \<Rightarrow> (wire_error, WireChunk \<times> bytes) res" where
  "ReadWireChunk r =
     and_then (readFull WireIO r 2) (\<lambda>(hdrLenBuf, r).
     and_then (get16 hdrLenBuf 0) (\<lambda>hdrLen.
     guard (unat hdrLen \<noteq> ForwardingHeaderSize) (WireHeaderLength (unat hdrLen))
     (and_then (readFull WireIO r (unat hdrLen)) (\<lambda>(header, r).
      and_then (readFull WireIO r 2) (\<lambda>(nonceLenBuf, r).
      and_then (get16 nonceLenBuf 0) (\<lambda>nonceLen.
      guard (unat nonceLen \<noteq> NonceSize) (WireNonceLength (unat nonceLen))
     (and_then (readFull WireIO r (unat nonceLen)) (\<lambda>(nonce, r).
      and_then (readFull WireIO r 4) (\<lambda>(cipherLenBuf, r).
      and_then (get32 cipherLenBuf 0) (\<lambda>cipherLen.
      guard (cipherLen = 0) WireEmpty
     (guard (unat cipherLen > MaxWireCiphertextSize) (WireTooLarge (unat cipherLen))
     (and_then (readFull WireIO r (unat cipherLen)) (\<lambda>(ciphertext, r).
      ok (\<lparr>Header = header, Nonce = nonce, Ciphertext = ciphertext\<rparr>, r))))))))))))))"

section \<open>The format\<close>

definition wf_wire :: "WireChunk \<Rightarrow> bool" where
  "wf_wire wc \<longleftrightarrow> length (Header wc) = ForwardingHeaderSize \<and> length (Nonce wc) = NonceSize \<and>
     Ciphertext wc \<noteq> [] \<and> length (Ciphertext wc) \<le> MaxWireCiphertextSize"

definition wire_bytes :: "WireChunk \<Rightarrow> bytes" where
  "wire_bytes wc = put16 64 @ Header wc @ put16 12 @ Nonce wc @
     put32 (of_nat (length (Ciphertext wc))) @ Ciphertext wc"

lemmas wire_sizes = sizes MaxWireCiphertextSize_def MaxChunkPayloadSize_def

lemma SerializeWireChunk_eq_Inr:
  "SerializeWireChunk wc = ok bs \<longleftrightarrow> wf_wire wc \<and> bs = wire_bytes wc"
  by (auto simp: SerializeWireChunk_def wf_wire_def wire_bytes_def wire_sizes res_iffs)

lemma length_wire_bytes: "wf_wire wc \<Longrightarrow> length (wire_bytes wc) = 84 + length (Ciphertext wc)"
  by (simp add: wf_wire_def wire_bytes_def wire_sizes)

lemma cipher_length_word:
  assumes "wf_wire wc"
  shows "unat (of_nat (length (Ciphertext wc)) :: u32) = length (Ciphertext wc)"
    "(of_nat (length (Ciphertext wc)) :: u32) \<noteq> 0"
proof -
  have len: "length (Ciphertext wc) \<le> 65808" "Ciphertext wc \<noteq> []"
    using assms by (simp_all add: wf_wire_def wire_sizes)
  then show u: "unat (of_nat (length (Ciphertext wc)) :: u32) = length (Ciphertext wc)"
    by (intro unat_of_nat_small(2)) simp
  show "(of_nat (length (Ciphertext wc)) :: u32) \<noteq> 0"
    using u len by (metis length_0_conv unat_0)
qed

lemma ReadWireChunk_wire_bytes:
  assumes "wf_wire wc"
  shows "ReadWireChunk (wire_bytes wc @ rest) = ok (wc, rest)"
  using assms cipher_length_word [OF assms]
  by (simp add: ReadWireChunk_def wire_bytes_def readFull_def field_convs wf_wire_def wire_sizes)

lemma ReadWireChunk_sound:
  assumes "ReadWireChunk bs = ok (wc, rest)"
  shows "wf_wire wc \<and> bs = wire_bytes wc @ rest"
proof -
  from assms obtain h n c hl nl cl where
    h: "get16 h 0 = (ok hl :: (wire_error, u16) res)" "unat hl = 64" "length h = 2" "length (Header wc) = 64"
    and n: "get16 n 0 = (ok nl :: (wire_error, u16) res)" "unat nl = 12" "length n = 2" "length (Nonce wc) = 12"
    and c: "get32 c 0 = (ok cl :: (wire_error, u32) res)" "unat cl = length (Ciphertext wc)" "length c = 4"
      "cl \<noteq> 0" "unat cl \<le> 65808"
    and bs: "bs = h @ Header wc @ n @ Nonce wc @ c @ Ciphertext wc @ rest"
    by (auto simp: ReadWireChunk_def res_iffs readFull_eq_Inr wire_sizes)
  have "hl = 64" "nl = 12" "cl = of_nat (length (Ciphertext wc))"
    using h(2) n(2) c(2,5) by (simp_all add: word_unat_eq_iff unat_of_nat)
  then have "h = put16 64" "n = put16 12" "c = put32 (of_nat (length (Ciphertext wc)))"
    using get16_eq_Inr(2) [OF h(1)] get16_eq_Inr(2) [OF n(1)] get32_eq_Inr(2) [OF c(1)] h n c by simp_all
  moreover have "Ciphertext wc \<noteq> []" using c by (auto simp: unat_eq_0)
  ultimately show ?thesis using h n c bs by (simp add: wf_wire_def wire_bytes_def wire_sizes)
qed

lemma ReadWireChunk_no_panic: "ReadWireChunk bs \<noteq> Inl Panic"
  by (auto simp: ReadWireChunk_def res_iffs readFull_eq_Inr)

interpretation wire: stream_codec wire_bytes ReadWireChunk wf_wire
proof
  fix wc assume "wf_wire wc"
  then show "ReadWireChunk (wire_bytes wc @ rest) = ok (wc, rest)" for rest
    by (rule ReadWireChunk_wire_bytes)
  show "wire_bytes wc \<noteq> []" by (simp add: wire_bytes_def put16_def)
qed (rule ReadWireChunk_sound)

lemma DeserializeWireChunk_wire_bytes:
  assumes "wf_wire wc"
  shows "DeserializeWireChunk (wire_bytes wc @ rest) = ok (wc, length (wire_bytes wc))"
  using assms cipher_length_word [OF assms]
  by (simp add: DeserializeWireChunk_def wire_bytes_def field_convs wf_wire_def wire_sizes)

lemma DeserializeWireChunk_sound:
  assumes "DeserializeWireChunk dat = ok (wc, n)"
  shows "wf_wire wc \<and> n \<le> length dat \<and> take n dat = wire_bytes wc"
proof -
  from assms obtain hl nl cl where
    h: "get16 dat 0 = (ok hl :: (wire_error, u16) res)" "unat hl = 64" "Header wc = take 64 (drop 2 dat)"
    and n: "get16 dat 66 = (ok nl :: (wire_error, u16) res)" "unat nl = 12" "Nonce wc = take 12 (drop 68 dat)"
    and c: "get32 dat 80 = (ok cl :: (wire_error, u32) res)" "cl \<noteq> 0" "unat cl \<le> 65808"
      "Ciphertext wc = take (unat cl) (drop 84 dat)" "84 + unat cl \<le> length dat"
    and len: "n = 84 + unat cl"
    by (auto simp: DeserializeWireChunk_def res_iffs wire_sizes Let_def)
  have "hl = 64" "nl = 12" "cl = of_nat (length (Ciphertext wc))"
    using h(2) n(2) c by (simp_all add: word_unat_eq_iff unat_of_nat)
  then have f: "take 2 dat = put16 64" "take 2 (drop 66 dat) = put16 12"
    "take 4 (drop 80 dat) = put32 (of_nat (length (Ciphertext wc)))"
    using get16_eq_Inr(2) [OF h(1)] get16_eq_Inr(2) [OF n(1)] get32_eq_Inr(2) [OF c(1)] by simp_all
  have "take n dat = take 2 dat @ take 64 (drop 2 dat) @ take 2 (drop 66 dat) @ take 12 (drop 68 dat) @
      take 4 (drop 80 dat) @ take (unat cl) (drop 84 dat)"
    unfolding len using take_add [of 2 64 dat] take_add [of 66 2 dat] take_add [of 68 12 dat]
      take_add [of 80 4 dat] take_add [of 84 "unat cl" dat] by simp
  moreover have "0 < unat cl" using c(2) by (simp add: unat_gt_0)
  then have "Ciphertext wc \<noteq> []" using c(4,5) by auto
  ultimately show ?thesis using f h n c len by (simp add: wf_wire_def wire_bytes_def wire_sizes)
qed

primrec write_all :: "bytes \<Rightarrow> WireChunk list \<Rightarrow> (wire_error, bytes) res" where
  \<comment> \<open>a sender's sequence of \<open>WriteWireChunk\<close> calls on one connection\<close>
  "write_all sent [] = ok sent"
| "write_all sent (wc # wcs) = and_then (WriteWireChunk sent wc) (\<lambda>sent. write_all sent wcs)"

lemma write_all_eq:
  "\<forall>wc\<in>set wcs. wf_wire wc \<Longrightarrow> write_all sent wcs = ok (sent @ concat (map wire_bytes wcs))"
proof (induction wcs arbitrary: sent)
  case (Cons wc wcs)
  then have "SerializeWireChunk wc = ok (wire_bytes wc)" by (simp add: SerializeWireChunk_eq_Inr)
  with Cons show ?case by (simp add: WriteWireChunk_def)
qed simp

section \<open>Properties\<close>

text \<open>
  C22. Whatever sequence of well-formed chunks a node writes to a connection, the next node reads
  back exactly that sequence and nothing of what follows it.
\<close>

theorem wire_stream_roundtrip:
  assumes "\<forall>wc\<in>set wcs. wf_wire wc"
  shows "\<exists>bs. write_all [] wcs = ok bs \<and> read_frames ReadWireChunk (length wcs) (bs @ rest) = ok (wcs, rest)"
  using assms by (simp add: write_all_eq wire.read_frames_concat)

theorem wire_stream_roundtrip_witness:
  "\<exists>bs. write_all [] [\<lparr>Header = replicate 64 1, Nonce = replicate 12 2, Ciphertext = [3]\<rparr>] = ok bs \<and>
     read_frames ReadWireChunk 1 (bs @ [9])
       = ok ([\<lparr>Header = replicate 64 1, Nonce = replicate 12 2, Ciphertext = [3]\<rparr>], [9])"
  using wire_stream_roundtrip
    [of "[\<lparr>Header = replicate 64 1, Nonce = replicate 12 2, Ciphertext = [3]\<rparr>]" "[9]"]
  by (simp add: wf_wire_def wire_sizes)

text \<open>
  The two parsers of the wire format are equivalent: the slice parser accepts a prefix of \<open>n\<close>
  bytes as a chunk exactly when the stream reader reads that chunk and leaves the rest, and
  neither panics on any input.
\<close>

lemma wire_parsers_agree:
  "(DeserializeWireChunk dat = ok (wc, n) \<longleftrightarrow> n \<le> length dat \<and> ReadWireChunk dat = ok (wc, drop n dat)) \<and>
   DeserializeWireChunk dat \<noteq> Inl Panic \<and> ReadWireChunk dat \<noteq> Inl Panic"
proof -
  have "n \<le> length dat \<and> ReadWireChunk dat = ok (wc, drop n dat)" if "DeserializeWireChunk dat = ok (wc, n)"
    using DeserializeWireChunk_sound [OF that] ReadWireChunk_wire_bytes [of wc "drop n dat"]
    by (metis append_take_drop_id)
  moreover have "DeserializeWireChunk dat = ok (wc, n)"
    if n: "n \<le> length dat" and r: "ReadWireChunk dat = ok (wc, drop n dat)"
  proof -
    have wc: "wf_wire wc" "dat = wire_bytes wc @ drop n dat" using ReadWireChunk_sound [OF r] by blast+
    then have "length (wire_bytes wc) = n" using n by (metis add_diff_cancel_right' diff_diff_cancel length_append length_drop)
    with wc show ?thesis using DeserializeWireChunk_wire_bytes [of wc "drop n dat"] by simp
  qed
  moreover have "DeserializeWireChunk dat \<noteq> Inl Panic"
    by (auto simp: DeserializeWireChunk_def res_iffs wire_sizes Let_def)
  ultimately show ?thesis using ReadWireChunk_no_panic by blast
qed

text \<open>
  Which encoded chunks fit on the wire, for an AEAD that adds its 16-byte tag: exactly those
  whose payload and padding together have at most 65757 bytes. A chunk of the maximal payload
  size 65536 therefore cannot carry more than 221 bytes of padding.
\<close>

lemma encoded_chunk_fits:
  assumes tag: "\<And>k n p a. length (seal k n p a) = length p + 16"
    and enc: "EncodeChunk aes seal rnd ch e2eKey relayKey nextHop circuitID = ok (wc, rnd')"
  shows "(\<exists>bs. SerializeWireChunk wc = ok bs) \<longleftrightarrow> length (Payload ch) + unat (PaddingLen ch) \<le> 65757"
proof -
  obtain padding rnd0 rnd1 where e: "length circuitID = 16" "length padding = unat (PaddingLen ch)"
    "length (Nonce wc) = 12"
    "ForwardingHeader_Encode aes rnd0 \<lparr>NextHop = nextHop\<rparr> relayKey = ok (Header wc, rnd1)"
    "Ciphertext wc = seal e2eKey (Nonce wc) (chunk_plaintext ch circuitID padding) (Header wc)"
    using enc by (rule EncodeChunk_eq_Inr)
  then have "length (Ciphertext wc) = 51 + unat (PaddingLen ch) + length (Payload ch)"
    by (simp add: tag chunk_plaintext_layout)
  with e(3) DecodeForwardingHeader_Encode [OF e(4)] show ?thesis
    by (auto simp: SerializeWireChunk_eq_Inr wf_wire_def wire_sizes)
qed

end
