(* ===== verification/Security_Events.thy ===== *)
theory Security_Events
  imports Prelude
begin

text \<open>
  The security event sink the relay and the exit report to (\<open>internal/proxy/security_events.go\<close>).
  The callback is an observer: the sink keeps whether one is set and the events it was called
  with, in order. The formatted description of an event is not modelled.
\<close>

datatype SecurityEventType =
    SecEventExitPortDenied | SecEventExitCircuitSetupFail | SecEventExitDecodeFail
  | SecEventExitWindowExceeded | SecEventExitCircuitNotFound | SecEventExitNACKRetriesExhausted
  | SecEventSSConnError | SecEventRelayCircuitNotFound | SecEventRelayHeaderDecodeFail
  | SecEventRelayAtCapacity

record SecurityEvent =
  se_Type :: SecurityEventType
  se_CircuitID :: string
  se_TargetAddr :: bytes

record SecurityEventSink =
  sink_cb :: bool
  reported :: "SecurityEvent list"

definition NewSecurityEventSink :: SecurityEventSink where
  "NewSecurityEventSink = \<lparr>sink_cb = False, reported = []\<rparr>"

definition SetCallback :: "bool \<Rightarrow> SecurityEventSink \<Rightarrow> SecurityEventSink" where
  \<comment> \<open>whether the callback that is installed is not nil\<close>
  "SetCallback cb s = s\<lparr>sink_cb := cb\<rparr>"

definition sink_Report :: "SecurityEvent \<Rightarrow> SecurityEventSink option \<Rightarrow> SecurityEventSink option" where
  \<comment> \<open>a nil sink ignores the report\<close>
  "sink_Report e s = map_option (\<lambda>s. if sink_cb s then s\<lparr>reported := reported s @ [e]\<rparr> else s) s"

end
