(* ===== verification/Path_Selector.thy ===== *)
theory Path_Selector
  imports Circuit_Protocol Complex_Main
begin

text \<open>
  Relay health and probe-based path selection (\<open>internal/proxy/relay_health.go\<close>,
  \<open>path_selector.go\<close>, \<open>path_state.go\<close>, and the path type of \<open>dispatcher.go\<close>). The probe is a
  parameter; probes of different relays are independent, so their goroutines are modelled in
  list order. Scores are exact rationals instead of float64, and \<open>sort.Slice\<close> is a stable
  insertion sort, one of the orders it allows.
\<close>

definition go_quot :: "int \<Rightarrow> int \<Rightarrow> int" where
  \<comment> \<open>Go's integer division, which truncates towards zero\<close>
  "go_quot a b = sgn a * sgn b * (\<bar>a\<bar> div \<bar>b\<bar>)"

section \<open>Paths\<close>

record Path =
  Relays :: "string list"
  RelayKeys :: "bytes list"

definition Nodes :: "Path \<Rightarrow> string set" where
  "Nodes p = set (Relays p)"

definition HasOverlap :: "Path \<Rightarrow> Path \<Rightarrow> bool" where
  "HasOverlap a b \<longleftrightarrow> list_ex (\<lambda>r. r \<in> Nodes a) (Relays b)"

section \<open>Relay health\<close>

datatype RelayHealthState = RelayHealthy | RelayDegraded | RelayUnhealthy

record relayHealthEntry =
  rh_state :: RelayHealthState
  consecutiveFail :: int
  lastSuccess :: int
  lastFailure :: int
  rh_lastRTT :: int

record RelayHealthTracker =
  health :: "(string \<times> relayHealthEntry) list"
  healthRecoveryDelay :: int
  unhealthyThreshold :: int
  degradedThreshold :: int

definition DefaultHealthRecoveryDelay :: int where "DefaultHealthRecoveryDelay = 30 * 10 ^ 9"

definition NewRelayHealthTracker :: RelayHealthTracker where
  "NewRelayHealthTracker =
     \<lparr>health = [], healthRecoveryDelay = DefaultHealthRecoveryDelay, unhealthyThreshold = 3, degradedThreshold = 1\<rparr>"

definition rh_getOrCreate :: "string \<Rightarrow> RelayHealthTracker \<Rightarrow> relayHealthEntry" where
  \<comment> \<open>the callers store the entry they modify, which also creates it\<close>
  "rh_getOrCreate nodeID h =
     (case map_of (health h) nodeID of
        Some entry \<Rightarrow> entry
      | None \<Rightarrow> \<lparr>rh_state = RelayHealthy, consecutiveFail = 0, lastSuccess = 0, lastFailure = 0, rh_lastRTT = 0\<rparr>)"

definition RecordSuccess :: "int \<Rightarrow> string \<Rightarrow> int \<Rightarrow> RelayHealthTracker \<Rightarrow> RelayHealthTracker" where
  "RecordSuccess now nodeID rtt h =
     (let entry = rh_getOrCreate nodeID h;
          entry = entry\<lparr>consecutiveFail := 0, rh_state := RelayHealthy, lastSuccess := now, rh_lastRTT := rtt\<rparr>
      in h\<lparr>health := AList.update nodeID entry (health h)\<rparr>)"

definition RecordFailure :: "int \<Rightarrow> string \<Rightarrow> RelayHealthTracker \<Rightarrow> RelayHealthTracker" where
  "RecordFailure now nodeID h =
     (let entry = rh_getOrCreate nodeID h;
          entry = entry\<lparr>consecutiveFail := consecutiveFail entry + 1, lastFailure := now\<rparr>;
          entry = (if consecutiveFail entry \<ge> unhealthyThreshold h then entry\<lparr>rh_state := RelayUnhealthy\<rparr>
                   else if consecutiveFail entry \<ge> degradedThreshold h then entry\<lparr>rh_state := RelayDegraded\<rparr>
                   else entry)
      in h\<lparr>health := AList.update nodeID entry (health h)\<rparr>)"

definition IsHealthy :: "string \<Rightarrow> RelayHealthTracker \<Rightarrow> bool" where
  "IsHealthy nodeID h =
     (case map_of (health h) nodeID of None \<Rightarrow> True | Some entry \<Rightarrow> rh_state entry \<noteq> RelayUnhealthy)"

definition IsUnhealthy :: "string \<Rightarrow> RelayHealthTracker \<Rightarrow> bool" where
  "IsUnhealthy nodeID h =
     (case map_of (health h) nodeID of None \<Rightarrow> False | Some entry \<Rightarrow> rh_state entry = RelayUnhealthy)"

definition IsDegraded :: "string \<Rightarrow> RelayHealthTracker \<Rightarrow> bool" where
  "IsDegraded nodeID h =
     (case map_of (health h) nodeID of None \<Rightarrow> False | Some entry \<Rightarrow> rh_state entry = RelayDegraded)"

definition HealthPenalty :: "string \<Rightarrow> RelayHealthTracker \<Rightarrow> rat" where
  "HealthPenalty nodeID h =
     (case map_of (health h) nodeID of
        None \<Rightarrow> 1
      | Some entry \<Rightarrow>
          (case rh_state entry of RelayHealthy \<Rightarrow> 1 | RelayDegraded \<Rightarrow> 3 / 2 | RelayUnhealthy \<Rightarrow> 2 ^ 30))"

definition CanRetry :: "int \<Rightarrow> string \<Rightarrow> RelayHealthTracker \<Rightarrow> bool" where
  "CanRetry now nodeID h =
     (case map_of (health h) nodeID of
        None \<Rightarrow> True
      | Some entry \<Rightarrow> rh_state entry \<noteq> RelayUnhealthy \<or> now - lastFailure entry \<ge> healthRecoveryDelay h)"

definition UnhealthyRelays :: "RelayHealthTracker \<Rightarrow> string list" where
  "UnhealthyRelays h = map fst (filter (\<lambda>(i, entry). rh_state entry = RelayUnhealthy) (health h))"

definition rh_Reset :: "string \<Rightarrow> RelayHealthTracker \<Rightarrow> RelayHealthTracker" where
  "rh_Reset nodeID h = h\<lparr>health := AList.delete nodeID (health h)\<rparr>"

definition rh_ResetAll :: "RelayHealthTracker \<Rightarrow> RelayHealthTracker" where
  "rh_ResetAll h = h\<lparr>health := []\<rparr>"

section \<open>The selector\<close>

datatype probe_error = DialFailed

record PathProbeResult =
  pp_NodeID :: string
  pp_MeshAddr :: string
  RTT :: int
  HopCount :: int
  pp_Error :: "probe_error option"

record CandidateRelay =
  cr_NodeID :: string
  cr_MeshAddr :: string
  cr_Capabilities :: "string list"
  AdvertisedRTT :: int
  cr_MaxCircuits :: int

record PathSelectorConfig =
  MaxRelaysPerPath :: int
  ProbeTimeout :: int
  ProbeConcurrency :: int
  MinCandidates :: int
  MaxCandidates :: int
  PathCount :: int
  DialFunc :: "string \<Rightarrow> int \<times> probe_error option"  \<comment> \<open>the configured probe, or the TCP probe in its place\<close>

definition DefaultPathSelectorConfig :: "(string \<Rightarrow> int \<times> probe_error option) \<Rightarrow> PathSelectorConfig" where
  "DefaultPathSelectorConfig dial =
     \<lparr>MaxRelaysPerPath = 2, ProbeTimeout = 3 * 10 ^ 9, ProbeConcurrency = 8, MinCandidates = 2,
      MaxCandidates = 10, PathCount = 2, DialFunc = dial\<rparr>"

record PathSelector =
  ps_cfg :: PathSelectorConfig
  probeCache :: "(string \<times> PathProbeResult \<times> int) list"  \<comment> \<open>with the expiry time\<close>
  probeCacheTTL :: int
  healthTracker :: RelayHealthTracker

definition defaultProbeCacheTTL :: int where "defaultProbeCacheTTL = 30 * 10 ^ 9"

definition NewPathSelector :: "PathSelectorConfig \<Rightarrow> PathSelector" where
  "NewPathSelector c =
     (let c = (if MaxRelaysPerPath c \<le> 0 then c\<lparr>MaxRelaysPerPath := 2\<rparr> else c);
          c = (if ProbeTimeout c \<le> 0 then c\<lparr>ProbeTimeout := 3 * 10 ^ 9\<rparr> else c);
          c = (if ProbeConcurrency c \<le> 0 then c\<lparr>ProbeConcurrency := 8\<rparr> else c);
          c = (if MinCandidates c \<le> 0 then c\<lparr>MinCandidates := 2\<rparr> else c);
          c = (if MaxCandidates c \<le> 0 then c\<lparr>MaxCandidates := 10\<rparr> else c);
          c = (if PathCount c \<le> 0 then c\<lparr>PathCount := 2\<rparr> else c)
      in \<lparr>ps_cfg = c, probeCache = [], probeCacheTTL = defaultProbeCacheTTL, healthTracker = NewRelayHealthTracker\<rparr>)"

definition ComputePathScore :: "int \<Rightarrow> int \<Rightarrow> int \<Rightarrow> rat" where
  "ComputePathScore rtt hopCount capacity =
     (let rttMs = of_int (go_quot rtt (10 ^ 6));
          hopPenalty = of_int hopCount * 50;
          capPenalty = (if capacity \<le> 0 then 10 else if capacity < 256 then of_int (256 - capacity) / 10 else 0)
      in rttMs + hopPenalty + capPenalty)"

primrec insertBy :: "('a \<Rightarrow> 'a \<Rightarrow> bool) \<Rightarrow> 'a \<Rightarrow> 'a list \<Rightarrow> 'a list" where
  "insertBy lt x [] = [x]"
| "insertBy lt x (y # ys) = (if lt x y then x # y # ys else y # insertBy lt x ys)"

definition sortSlice :: "('a \<Rightarrow> 'a \<Rightarrow> bool) \<Rightarrow> 'a list \<Rightarrow> 'a list" where
  \<comment> \<open>\<open>sort.Slice\<close>\<close>
  "sortSlice lt xs = foldl (\<lambda>ys x. insertBy lt x ys) [] xs"

definition filterCandidates :: "CandidateRelay list \<Rightarrow> CandidateRelay list" where
  "filterCandidates cs =
     (if \<not> list_ex (\<lambda>c. AdvertisedRTT c > 0) cs then cs
      else sortSlice (\<lambda>a b.
             if AdvertisedRTT a = 0 \<and> AdvertisedRTT b > 0 then False
             else if AdvertisedRTT a > 0 \<and> AdvertisedRTT b = 0 then True
             else AdvertisedRTT a < AdvertisedRTT b) cs)"

definition probeOne :: "int \<Rightarrow> CandidateRelay \<Rightarrow> PathSelector \<Rightarrow> PathProbeResult \<times> PathSelector" where
  \<comment> \<open>the goroutine of \<open>probeCandidates\<close>; \<open>probeRelay\<close> is the call of \<open>DialFunc\<close>\<close>
  "probeOne now c ps =
     (case map_of (probeCache ps) (cr_NodeID c) of
        Some (r, expires) \<Rightarrow>
          if now < expires then (r, ps)
          else let (rtt, e) = DialFunc (ps_cfg ps) (cr_MeshAddr c);
                   r = \<lparr>pp_NodeID = cr_NodeID c, pp_MeshAddr = cr_MeshAddr c, RTT = rtt, HopCount = 1, pp_Error = e\<rparr>
               in (r, ps\<lparr>probeCache := AList.update (cr_NodeID c) (r, now + probeCacheTTL ps) (probeCache ps)\<rparr>)
      | None \<Rightarrow>
          let (rtt, e) = DialFunc (ps_cfg ps) (cr_MeshAddr c);
              r = \<lparr>pp_NodeID = cr_NodeID c, pp_MeshAddr = cr_MeshAddr c, RTT = rtt, HopCount = 1, pp_Error = e\<rparr>
          in (r, ps\<lparr>probeCache := AList.update (cr_NodeID c) (r, now + probeCacheTTL ps) (probeCache ps)\<rparr>))"

primrec probeCandidates ::
    "int \<Rightarrow> CandidateRelay list \<Rightarrow> PathSelector \<Rightarrow> PathProbeResult list \<times> PathSelector" where
  "probeCandidates now [] ps = ([], ps)"
| "probeCandidates now (c # cs) ps =
     (let (r, ps) = probeOne now c ps; (rs, ps) = probeCandidates now cs ps in (r # rs, ps))"

definition recordProbe :: "int \<Rightarrow> PathProbeResult \<Rightarrow> RelayHealthTracker \<Rightarrow> RelayHealthTracker" where
  "recordProbe now p h =
     (if pp_Error p \<noteq> None then RecordFailure now (pp_NodeID p) h else RecordSuccess now (pp_NodeID p) (RTT p) h)"

definition drawKey :: "bytes \<Rightarrow> bytes \<times> bytes" where
  \<comment> \<open>\<open>rand.Read\<close> into a fresh key, its error ignored\<close>
  "drawKey rnd = (if KeySize \<le> length rnd then (take KeySize rnd, drop KeySize rnd) else (replicate KeySize 0, []))"

definition buildPath :: "bytes \<Rightarrow> PathProbeResult \<Rightarrow> Path \<times> bytes" where
  "buildPath rnd r = (let (key, rnd) = drawKey rnd in (\<lparr>Relays = [pp_MeshAddr r], RelayKeys = [key]\<rparr>, rnd))"

datatype select_error =
    InsufficientCandidates nat | InsufficientHealthy nat | FewResponses nat | NoDisjointPair nat
  | NoneRemaining | NoneHealthy | AllFailed

definition pairScore :: "RelayHealthTracker \<Rightarrow> PathProbeResult \<Rightarrow> PathProbeResult \<Rightarrow> rat" where
  "pairScore h c1 c2 =
     ComputePathScore (RTT c1) (HopCount c1) 0 * HealthPenalty (pp_NodeID c1) h +
     ComputePathScore (RTT c2) (HopCount c2) 0 * HealthPenalty (pp_NodeID c2) h"

type_synonym best = "rat \<times> (Path \<times> Path) option \<times> bytes"

definition tryPair :: "RelayHealthTracker \<Rightarrow> PathProbeResult \<times> PathProbeResult \<Rightarrow> best \<Rightarrow> best" where
  \<comment> \<open>the inner loop body\<close>
  "tryPair h cc b =
     (let (c1, c2) = cc; (bestScore, bestP, rnd) = b
      in if pp_NodeID c1 = pp_NodeID c2 then b
         else let totalScore = pairScore h c1 c2
              in if bestScore < 0 \<or> totalScore < bestScore
                 then let (p1, rnd) = buildPath rnd c1; (p2, rnd) = buildPath rnd c2
                      in (totalScore, Some (p1, p2), rnd)
                 else b)"

definition candidatePairs :: "PathProbeResult list \<Rightarrow> (PathProbeResult \<times> PathProbeResult) list" where
  \<comment> \<open>\<open>i < j\<close>, both below five\<close>
  "candidatePairs cs =
     concat (map (\<lambda>i. map (\<lambda>j. (cs ! i, cs ! j)) [i + 1..<min (length cs) 5]) [0..<min (length cs) 5])"

definition selectDisjointPaths ::
    "bytes \<Rightarrow> PathProbeResult list \<Rightarrow> RelayHealthTracker \<Rightarrow> (select_error, Path \<times> Path) res" where
  "selectDisjointPaths rnd cs h =
     guard (length cs < 2) (NoDisjointPair (length cs))
     (case fold (tryPair h) (candidatePairs cs) (-1, None, rnd) of
        (_, Some (p1, p2), _) \<Rightarrow> ok (p1, p2)
      | (_, None, _) \<Rightarrow> err (NoDisjointPair (length cs)))"

definition probeLess :: "RelayHealthTracker \<Rightarrow> PathProbeResult \<Rightarrow> PathProbeResult \<Rightarrow> bool" where
  "probeLess h a b =
     (if pp_Error a \<noteq> None \<and> pp_Error b = None then False
      else if pp_Error a = None \<and> pp_Error b \<noteq> None then True
      else if pp_Error a \<noteq> None \<and> pp_Error b \<noteq> None then False
      else of_int (RTT a) * HealthPenalty (pp_NodeID a) h < of_int (RTT b) * HealthPenalty (pp_NodeID b) h)"

definition eligible :: "int \<Rightarrow> RelayHealthTracker \<Rightarrow> CandidateRelay \<Rightarrow> bool" where
  "eligible now h c = (if IsUnhealthy (cr_NodeID c) h then CanRetry now (cr_NodeID c) h else True)"

definition topCandidates :: "PathSelectorConfig \<Rightarrow> CandidateRelay list \<Rightarrow> CandidateRelay list" where
  "topCandidates c cs =
     (let filtered = filterCandidates cs
      in if int (length filtered) > MaxCandidates c then take (nat (MaxCandidates c)) filtered else filtered)"

definition rankedProbes ::
    "int \<Rightarrow> CandidateRelay list \<Rightarrow> PathSelector \<Rightarrow> PathProbeResult list \<times> PathSelector" where
  \<comment> \<open>steps 2 to 5 of \<open>SelectPaths\<close>: the probes that succeeded, best first\<close>
  "rankedProbes now healthy ps =
     (let (probed, ps) = probeCandidates now (topCandidates (ps_cfg ps) healthy) ps;
          ps = ps\<lparr>healthTracker := fold (recordProbe now) probed (healthTracker ps)\<rparr>;
          probed = sortSlice (probeLess (healthTracker ps)) probed
      in (filter (\<lambda>p. pp_Error p = None) probed, ps))"

definition ps_SelectPaths ::
    "int \<Rightarrow> bytes \<Rightarrow> CandidateRelay list \<Rightarrow> PathSelector \<Rightarrow> (select_error, Path \<times> Path) res \<times> PathSelector" where
  "ps_SelectPaths now rnd candidates ps =
     (if int (length candidates) < MinCandidates (ps_cfg ps)
      then (err (InsufficientCandidates (length candidates)), ps)
      else let healthy = filter (eligible now (healthTracker ps)) candidates
      in if int (length healthy) < MinCandidates (ps_cfg ps)
         then (err (InsufficientHealthy (length healthy)), ps)
         else let (valid, ps) = rankedProbes now healthy ps
              in if length valid < 2 then (err (FewResponses (length valid)), ps)
                 else (selectDisjointPaths rnd valid (healthTracker ps), ps))"

definition InvalidateProbeCache :: "string \<Rightarrow> PathSelector \<Rightarrow> PathSelector" where
  "InvalidateProbeCache nodeID ps = ps\<lparr>probeCache := AList.delete nodeID (probeCache ps)\<rparr>"

definition ClearProbeCache :: "PathSelector \<Rightarrow> PathSelector" where
  "ClearProbeCache ps = ps\<lparr>probeCache := []\<rparr>"

definition MarkRelayUnhealthy :: "int \<Rightarrow> string \<Rightarrow> PathSelector \<Rightarrow> PathSelector" where
  "MarkRelayUnhealthy now nodeID ps =
     InvalidateProbeCache nodeID
       (ps\<lparr>healthTracker := RecordFailure now nodeID (RecordFailure now nodeID (RecordFailure now nodeID
          (healthTracker ps)))\<rparr>)"

definition tryReplacement :: "RelayHealthTracker \<Rightarrow> PathProbeResult \<Rightarrow> rat \<times> PathProbeResult option \<Rightarrow> rat \<times> PathProbeResult option" where
  "tryReplacement h p b =
     (let (bestScore, bestResult) = b
      in if pp_Error p \<noteq> None then b
         else let score = ComputePathScore (RTT p) (HopCount p) 0 * HealthPenalty (pp_NodeID p) h
              in if bestScore < 0 \<or> score < bestScore then (score, Some p) else b)"

definition SelectReplacementPath ::
    "int \<Rightarrow> bytes \<Rightarrow> CandidateRelay list \<Rightarrow> string set \<Rightarrow> PathSelector \<Rightarrow> (select_error, Path) res \<times> PathSelector" where
  "SelectReplacementPath now rnd candidates failed ps =
     (let remaining = filter (\<lambda>c. \<not> (cr_NodeID c \<in> failed \<or> cr_MeshAddr c \<in> failed)) candidates
      in if length remaining < 1 then (err NoneRemaining, ps)
         else let healthy = filter (\<lambda>c. \<not> (IsUnhealthy (cr_NodeID c) (healthTracker ps) \<and>
                                           \<not> CanRetry now (cr_NodeID c) (healthTracker ps))) remaining
         in if healthy = [] then (err NoneHealthy, ps)
            else let (probed, ps) = probeCandidates now (topCandidates (ps_cfg ps) healthy) ps;
                     ps = ps\<lparr>healthTracker := fold (recordProbe now) probed (healthTracker ps)\<rparr>
                 in case fold (tryReplacement (healthTracker ps)) probed (-1, None) of
                      (_, None) \<Rightarrow> (err AllFailed, ps)
                    | (_, Some r) \<Rightarrow> (ok (fst (buildPath rnd r)), ps))"

section \<open>Choosing an exit\<close>

definition bestBy :: "('a \<Rightarrow> int option) \<Rightarrow> (string \<times> 'a) list \<Rightarrow> string \<times> int" where
  \<comment> \<open>the loop both phases of \<open>SelectExit\<close> run, with its \<open>-1\<close> for no value yet\<close>
  "bestBy val xs =
     fold (\<lambda>(i, x) (best, bestV).
       case val x of None \<Rightarrow> (best, bestV) | Some v \<Rightarrow> if bestV < 0 \<or> v < bestV then (i, v) else (best, bestV))
       xs ([], -1)"

definition avgRTT :: "(string \<times> int) list \<Rightarrow> int option" where
  "avgRTT regions = (if regions = [] then None else Some (go_quot (sum_list (map snd regions)) (int (length regions))))"

datatype exit_error = NoProbeData | NoRegion | NoExit

definition SelectExit :: "(string \<times> (string \<times> int) list) list \<Rightarrow> string \<Rightarrow> (exit_error, string) res" where
  "SelectExit exitProbes targetRegion =
     guard (exitProbes = []) NoProbeData
     (guard (targetRegion = []) NoRegion
     (let bestExit = fst (bestBy (\<lambda>regions. map_of regions targetRegion) exitProbes);
          bestExit = (if bestExit = [] then fst (bestBy avgRTT exitProbes) else bestExit)
      in guard (bestExit = []) NoExit (ok bestExit)))"

section \<open>The probe cache of the topology view\<close>

type_synonym PathProbeCache = "((string \<times> string) \<times> rat) list"

definition ppc_Set :: "string \<Rightarrow> string \<Rightarrow> rat \<Rightarrow> PathProbeCache \<Rightarrow> PathProbeCache" where
  "ppc_Set src dst latencyMs c = AList.update (src, dst) latencyMs c"

definition ppc_Get :: "string \<Rightarrow> string \<Rightarrow> PathProbeCache \<Rightarrow> rat" where
  "ppc_Get src dst c = (case map_of c (src, dst) of None \<Rightarrow> -1 | Some lat \<Rightarrow> lat)"

definition ppc_AllPairs :: "PathProbeCache \<Rightarrow> (string \<times> string \<times> rat) list" where
  "ppc_AllPairs c = map (\<lambda>((src, dst), lat). (src, dst, lat)) c"

definition ppc_Clear :: "PathProbeCache \<Rightarrow> PathProbeCache" where
  "ppc_Clear c = []"

definition ppc_Count :: "PathProbeCache \<Rightarrow> nat" where
  "ppc_Count c = length c"

section \<open>Health states\<close>

definition health_ok :: "RelayHealthTracker \<Rightarrow> bool" where
  "health_ok h \<longleftrightarrow> unhealthyThreshold h = 3 \<and> degradedThreshold h = 1 \<and> distinct (map fst (health h)) \<and>
     (\<forall>(i, e)\<in>set (health h). 0 \<le> consecutiveFail e \<and>
        rh_state e = (if consecutiveFail e \<ge> 3 then RelayUnhealthy
                      else if consecutiveFail e \<ge> 1 then RelayDegraded else RelayHealthy))"

inductive health_step :: "RelayHealthTracker \<Rightarrow> RelayHealthTracker \<Rightarrow> bool" where
  "health_step h (RecordSuccess now i rtt h)"
| "health_step h (RecordFailure now i h)"
| "health_step h (rh_Reset i h)"
| "health_step h (rh_ResetAll h)"

lemma health_ok_new: "health_ok NewRelayHealthTracker"
  by (simp add: health_ok_def NewRelayHealthTracker_def)

lemma getOrCreate_ok:
  "health_ok h \<Longrightarrow> e = rh_getOrCreate i h \<Longrightarrow> 0 \<le> consecutiveFail e \<and>
     rh_state e = (if consecutiveFail e \<ge> 3 then RelayUnhealthy
                   else if consecutiveFail e \<ge> 1 then RelayDegraded else RelayHealthy)"
  by (auto simp: rh_getOrCreate_def health_ok_def dest!: map_of_SomeD split: option.split)

lemma health_ok_update:
  "health_ok h \<Longrightarrow> 0 \<le> consecutiveFail e \<Longrightarrow>
     rh_state e = (if consecutiveFail e \<ge> 3 then RelayUnhealthy
                   else if consecutiveFail e \<ge> 1 then RelayDegraded else RelayHealthy) \<Longrightarrow>
     health_ok (h\<lparr>health := AList.update i e (health h)\<rparr>)"
  by (auto simp: health_ok_def distinct_update set_alist_update)

lemma health_ok_step: "health_step h h' \<Longrightarrow> health_ok h \<Longrightarrow> health_ok h'"
proof (induction rule: health_step.induct)
  case (1 h now i rtt)
  then show ?case by (auto simp: RecordSuccess_def Let_def intro!: health_ok_update)
next
  case (2 h now i)
  then show ?case
    using getOrCreate_ok [OF 2 refl, of i]
    by (auto simp: RecordFailure_def Let_def health_ok_def [of h] intro!: health_ok_update)
next
  case (3 h i)
  then show ?case by (auto simp: health_ok_def rh_Reset_def set_alist_delete distinct_delete)
qed (simp add: health_ok_def rh_ResetAll_def)

lemma health_ok_reachable: "health_step\<^sup>*\<^sup>* NewRelayHealthTracker h \<Longrightarrow> health_ok h"
  by (induction rule: rtranclp_induct) (auto intro: health_ok_new health_ok_step)

section \<open>Sorting and probing\<close>

lemma set_insertBy [simp]: "set (insertBy lt x ys) = insert x (set ys)"
  by (induction ys) auto

lemma set_sortSlice [simp]: "set (sortSlice lt xs) = set xs"
proof -
  have "set (foldl (\<lambda>ys x. insertBy lt x ys) ys xs) = set ys \<union> set xs" for ys
    by (induction xs arbitrary: ys) auto
  then show ?thesis by (simp add: sortSlice_def)
qed

lemma set_topCandidates: "set (topCandidates c cs) \<subseteq> set cs"
  by (auto simp: topCandidates_def filterCandidates_def Let_def dest: in_set_takeD)

definition known :: "PathSelector \<Rightarrow> CandidateRelay list \<Rightarrow> (string \<times> string) set" where
  \<comment> \<open>the identities and addresses the selector may use: those offered and those cached\<close>
  "known ps cs = (\<lambda>c. (cr_NodeID c, cr_MeshAddr c)) ` set cs \<union>
     (\<lambda>(i, r, t). (pp_NodeID r, pp_MeshAddr r)) ` set (probeCache ps)"

lemma probeOne_known:
  "probeOne now c ps = (r, ps') \<Longrightarrow> c \<in> set cs \<Longrightarrow>
     (pp_NodeID r, pp_MeshAddr r) \<in> known ps cs \<and> known ps' cs \<subseteq> known ps cs"
  by (force simp: probeOne_def known_def Let_def split: option.splits prod.splits if_splits
      dest: map_of_SomeD set_alist_update_subset [THEN subsetD])

lemma probeCandidates_known:
  "probeCandidates now ds ps = (rs, ps') \<Longrightarrow> set ds \<subseteq> set cs \<Longrightarrow> r \<in> set rs \<Longrightarrow>
     (pp_NodeID r, pp_MeshAddr r) \<in> known ps cs"
proof (induction ds arbitrary: ps rs ps')
  case (Cons d ds)
  obtain r1 ps1 where p: "probeOne now d ps = (r1, ps1)" by fastforce
  obtain rs1 ps2 where q: "probeCandidates now ds ps1 = (rs1, ps2)" by fastforce
  from Cons.prems p q have "rs = r1 # rs1" by simp
  with Cons.IH [OF q] probeOne_known [OF p, of cs] Cons.prems show ?case by auto
qed simp

definition chosen :: "RelayHealthTracker \<Rightarrow> (PathProbeResult \<times> PathProbeResult) set \<Rightarrow> rat \<Rightarrow> Path \<times> Path \<Rightarrow> bool" where
  \<comment> \<open>the two paths of a pair of different relays with score \<open>s\<close>\<close>
  "chosen h P s p \<longleftrightarrow> (\<exists>(c1, c2)\<in>P. pp_NodeID c1 \<noteq> pp_NodeID c2 \<and> s = pairScore h c1 c2 \<and>
     Relays (fst p) = [pp_MeshAddr c1] \<and> Relays (snd p) = [pp_MeshAddr c2])"

lemma chosen_mono: "chosen h P s p \<Longrightarrow> P \<subseteq> Q \<Longrightarrow> chosen h Q s p"
  by (auto simp: chosen_def)

lemma tryPair_fold:
  assumes "fold (tryPair h) ps (s0, b0, rnd0) = (s, b, rnd)"
    and "\<And>c1 c2. (c1, c2) \<in> set ps \<Longrightarrow> 0 \<le> pairScore h c1 c2"
    and "case b0 of None \<Rightarrow> s0 < 0 | Some p \<Rightarrow> 0 \<le> s0 \<and> chosen h P s0 p"
  shows "(case b of None \<Rightarrow> s < 0 \<and> b0 = None | Some p \<Rightarrow> 0 \<le> s \<and> chosen h (P \<union> set ps) s p) \<and>
    (b0 \<noteq> None \<longrightarrow> s \<le> s0) \<and>
    (\<forall>(c1, c2)\<in>set ps. pp_NodeID c1 \<noteq> pp_NodeID c2 \<longrightarrow> b \<noteq> None \<and> s \<le> pairScore h c1 c2)"
  using assms
proof (induction ps arbitrary: s0 b0 rnd0 P)
  case Nil
  then show ?case by (auto split: option.splits)
next
  case (Cons cc ps)
  obtain c1 c2 where cc: "cc = (c1, c2)" by fastforce
  obtain s1 b1 rnd1 where t: "tryPair h cc (s0, b0, rnd0) = (s1, b1, rnd1)" by (metis prod_cases3)
  have f: "fold (tryPair h) ps (s1, b1, rnd1) = (s, b, rnd)" using Cons.prems(1) t by simp
  have nonneg: "0 \<le> pairScore h c1 c2" using Cons.prems(2) cc by simp
  have "(s1, b1) = (s0, b0) \<and> (pp_NodeID c1 = pp_NodeID c2 \<or> 0 \<le> s0 \<and> s0 \<le> pairScore h c1 c2) \<or>
      (\<exists>p. b1 = Some p \<and> s1 = pairScore h c1 c2 \<and> (s0 < 0 \<or> s1 < s0) \<and> chosen h {cc} s1 p)"
    using t by (auto simp: tryPair_def cc buildPath_def Let_def chosen_def split: if_splits prod.splits)
  then have step: "(case b1 of None \<Rightarrow> s1 < 0 | Some p \<Rightarrow> 0 \<le> s1 \<and> chosen h (insert cc P) s1 p) \<and>
      (b0 \<noteq> None \<longrightarrow> b1 \<noteq> None \<and> s1 \<le> s0) \<and>
      (pp_NodeID c1 \<noteq> pp_NodeID c2 \<longrightarrow> b1 \<noteq> None \<and> s1 \<le> pairScore h c1 c2)"
    using Cons.prems(3) nonneg chosen_mono [of h "{cc}" _ _ "insert cc P"] chosen_mono [of h P _ _ "insert cc P"]
    by (fastforce split: option.splits)
  have P: "insert cc P \<union> set ps = P \<union> set (cc # ps)" by auto
  have "(case b of None \<Rightarrow> s < 0 \<and> b1 = None | Some p \<Rightarrow> 0 \<le> s \<and> chosen h (P \<union> set (cc # ps)) s p) \<and>
    (b1 \<noteq> None \<longrightarrow> s \<le> s1) \<and>
    (\<forall>(c1, c2)\<in>set ps. pp_NodeID c1 \<noteq> pp_NodeID c2 \<longrightarrow> b \<noteq> None \<and> s \<le> pairScore h c1 c2)"
    using Cons.IH [OF f Cons.prems(2) [OF list.set_intros(2)] step [THEN conjunct1]] unfolding P .
  with step show ?case unfolding cc by (cases b0; cases b1; cases b) auto
qed

lemma ComputePathScore_nonneg: "0 \<le> rtt \<Longrightarrow> 0 \<le> hops \<Longrightarrow> 0 \<le> ComputePathScore rtt hops 0"
  by (simp add: ComputePathScore_def go_quot_def sgn_if)

lemma HealthPenalty_pos: "0 < HealthPenalty i h"
  by (auto simp: HealthPenalty_def split: option.split RelayHealthState.split)

lemma candidatePairs_set:
  "(c1, c2) \<in> set (candidatePairs cs) \<longleftrightarrow>
     (\<exists>i j. i < j \<and> j < length cs \<and> j < 5 \<and> c1 = cs ! i \<and> c2 = cs ! j)"
proof
  assume "(c1, c2) \<in> set (candidatePairs cs)"
  then obtain i j where "Suc i \<le> j" "j < length cs" "j < 5" "c1 = cs ! i" "c2 = cs ! j"
    by (auto simp: candidatePairs_def)
  then show "\<exists>i j. i < j \<and> j < length cs \<and> j < 5 \<and> c1 = cs ! i \<and> c2 = cs ! j" by (metis Suc_le_lessD)
next
  assume "\<exists>i j. i < j \<and> j < length cs \<and> j < 5 \<and> c1 = cs ! i \<and> c2 = cs ! j"
  then obtain i j where ij: "i < j" "j < length cs" "j < 5" "c1 = cs ! i" "c2 = cs ! j" by blast
  then have "(c1, c2) \<in> (\<lambda>j. (cs ! i, cs ! j)) ` {i + 1..<min (length cs) 5}" "i < min (length cs) 5" by auto
  then show "(c1, c2) \<in> set (candidatePairs cs)" unfolding candidatePairs_def by fastforce
qed

lemma selectDisjointPaths_spec:
  assumes "selectDisjointPaths rnd cs h = ok (p1, p2)" "\<forall>c\<in>set cs. 0 \<le> RTT c \<and> 0 \<le> HopCount c"
  shows "\<exists>s. chosen h (set (candidatePairs cs)) s (p1, p2) \<and>
    (\<forall>(c1, c2)\<in>set (candidatePairs cs). pp_NodeID c1 \<noteq> pp_NodeID c2 \<longrightarrow> s \<le> pairScore h c1 c2)"
proof -
  have nn: "0 \<le> pairScore h c1 c2" if "(c1, c2) \<in> set (candidatePairs cs)" for c1 c2
    using that assms(2) by (auto simp: candidatePairs_set pairScore_def less_imp_le [OF HealthPenalty_pos]
        intro!: add_nonneg_nonneg mult_nonneg_nonneg ComputePathScore_nonneg)
  obtain s b r where f: "fold (tryPair h) (candidatePairs cs) (-1, None, rnd) = (s, b, r)" by (metis prod_cases3)
  with assms(1) have b: "b = Some (p1, p2)"
    by (auto simp: selectDisjointPaths_def guard_def split: if_splits option.splits)
  from tryPair_fold [OF f nn, of "{}"] show ?thesis by (auto simp: b)
qed

section \<open>Properties\<close>



lemma rankedProbes_known:
  assumes "rankedProbes now healthy ps = (valid, ps')" "set healthy \<subseteq> set cs" "r \<in> set valid"
  shows "(pp_NodeID r, pp_MeshAddr r) \<in> known ps cs \<and> pp_Error r = None"
proof -
  obtain probed ps1 where p: "probeCandidates now (topCandidates (ps_cfg ps) healthy) ps = (probed, ps1)" by fastforce
  have "r \<in> set probed" "pp_Error r = None"
    using assms(1,3) p by (auto simp: rankedProbes_def Let_def)
  moreover have "set (topCandidates (ps_cfg ps) healthy) \<subseteq> set cs"
    using set_topCandidates assms(2) by (rule subset_trans)
  ultimately show ?thesis using probeCandidates_known [OF p] by blast
qed


definition relayAt :: "string \<Rightarrow> string \<Rightarrow> CandidateRelay" where
  "relayAt i a = \<lparr>cr_NodeID = i, cr_MeshAddr = a, cr_Capabilities = [''relay''], AdvertisedRTT = 0, cr_MaxCircuits = 0\<rparr>"

definition freshSelector :: PathSelector where
  "freshSelector = NewPathSelector (DefaultPathSelectorConfig (\<lambda>a. (10 ^ 6, None)))"


text \<open>
  Two relay identities behind one address defeat the check: the pair is selected although both
  paths run through the same node.
\<close>

lemma shared_address_overlaps:
  "case ps_SelectPaths 0 (replicate 64 1) [relayAt ''A'' ''x'', relayAt ''B'' ''x''] freshSelector of
     (Inr (p1, p2), _) \<Rightarrow> HasOverlap p1 p2 | _ \<Rightarrow> False"
  by code_simp

end
