(* ===== verification/Relay_Node.thy ===== *)
theory Relay_Node
  imports Wire Security_Events Path_Selector
begin

text \<open>
  The relay (\<open>internal/proxy/relay.go\<close>): registered circuits, forwarding of one chunk, and the loop
  that forwards a stream. A relay never changes a chunk; the jitter only delays it, so its length
  is modelled and the delay is not. A connection with read deadlines is the list of bytes that
  arrive during each polling attempt.
\<close>

section \<open>State\<close>

definition DefaultJitterMin :: int where "DefaultJitterMin = 5 * 10 ^ 6"
definition DefaultJitterMax :: int where "DefaultJitterMax = 50 * 10 ^ 6"

record RelayConfig =
  JitterMin :: int
  JitterMax :: int
  DisableJitter :: bool
  MaxCircuits :: int
  MaxQueueDepth :: int

definition DefaultRelayConfig :: RelayConfig where
  "DefaultRelayConfig = \<lparr>JitterMin = DefaultJitterMin, JitterMax = DefaultJitterMax, DisableJitter = False,
     MaxCircuits = 1024, MaxQueueDepth = 256\<rparr>"

record circuitEntry =
  ce_relayKey :: bytes
  ce_nextHop :: bytes
  ce_nextRelayKey :: "bytes option"  \<comment> \<open>\<open>None\<close> is nil\<close>

record Relay =
  r_cfg :: RelayConfig
  r_circuits :: "(string \<times> circuitEntry) list"
  r_sink :: "SecurityEventSink option"

definition NewRelay :: "RelayConfig \<Rightarrow> Relay" where
  "NewRelay c =
     (let c = (if JitterMin c \<le> 0 then c\<lparr>JitterMin := DefaultJitterMin\<rparr> else c);
          c = (if JitterMax c \<le> 0 then c\<lparr>JitterMax := DefaultJitterMax\<rparr> else c);
          c = (if JitterMax c < JitterMin c then c\<lparr>JitterMax := JitterMin c\<rparr> else c);
          c = (if MaxCircuits c \<le> 0 then c\<lparr>MaxCircuits := 1024\<rparr> else c);
          c = (if MaxQueueDepth c \<le> 0 then c\<lparr>MaxQueueDepth := 256\<rparr> else c)
      in \<lparr>r_cfg = c, r_circuits = [], r_sink = None\<rparr>)"

definition relay_SetSecurityEventSink :: "SecurityEventSink option \<Rightarrow> Relay \<Rightarrow> Relay" where
  "relay_SetSecurityEventSink s r = r\<lparr>r_sink := s\<rparr>"

definition relay_secReport :: "SecurityEventType \<Rightarrow> string \<Rightarrow> Relay \<Rightarrow> Relay" where
  "relay_secReport t cid r =
     r\<lparr>r_sink := sink_Report \<lparr>se_Type = t, se_CircuitID = cid, se_TargetAddr = []\<rparr> (r_sink r)\<rparr>"

section \<open>Operations\<close>

datatype relay_error =
    RelayKeyLength nat | NextKeyLength nat | AtCapacity nat | AlreadyRegistered | RelayCircuitNotFound
  | RelayHeaderLength nat | HeaderDecode proto_error | StreamRead wire_error | StreamWrite wire_error | Cancelled

definition AddCircuit :: "string \<Rightarrow> bytes \<Rightarrow> bytes option \<Rightarrow> Relay \<Rightarrow> (relay_error, unit) res \<times> Relay" where
  "AddCircuit cid relayKey nextRelayKey r =
     (if length relayKey \<noteq> KeySize then (err (RelayKeyLength (length relayKey)), r)
      else if (case nextRelayKey of None \<Rightarrow> False | Some k \<Rightarrow> length k \<noteq> KeySize)
      then (err (NextKeyLength (length (the nextRelayKey))), r)
      else if int (length (r_circuits r)) \<ge> MaxCircuits (r_cfg r)
      then (err (AtCapacity (length (r_circuits r))), relay_secReport SecEventRelayAtCapacity cid r)
      else if map_of (r_circuits r) cid \<noteq> None then (err AlreadyRegistered, r)
      else (ok (), r\<lparr>r_circuits := AList.update cid
              \<lparr>ce_relayKey = relayKey, ce_nextHop = [], ce_nextRelayKey = nextRelayKey\<rparr> (r_circuits r)\<rparr>))"

definition RemoveCircuit :: "string \<Rightarrow> Relay \<Rightarrow> Relay" where
  "RemoveCircuit cid r = r\<lparr>r_circuits := AList.delete cid (r_circuits r)\<rparr>"

definition relay_CircuitCount :: "Relay \<Rightarrow> nat" where
  "relay_CircuitCount r = length (r_circuits r)"

definition randomJitter :: "(int \<Rightarrow> int option) \<Rightarrow> RelayConfig \<Rightarrow> int" where
  \<comment> \<open>\<open>draw n\<close> is \<open>rand.Int\<close> below \<open>n\<close>, \<open>None\<close> when the reader fails\<close>
  "randomJitter draw c =
     (let minMs = go_quot (JitterMin c) (10 ^ 6); maxMs = go_quot (JitterMax c) (10 ^ 6)
      in if maxMs \<le> minMs then JitterMin c
         else case draw (maxMs - minMs) of
                None \<Rightarrow> JitterMin c
              | Some n \<Rightarrow> JitterMin c + n * 10 ^ 6)"

definition ForwardChunk ::
    "(bytes \<Rightarrow> bytes \<Rightarrow> bytes) \<Rightarrow> string \<Rightarrow> WireChunk \<Rightarrow> Relay \<Rightarrow> (relay_error, bytes \<times> WireChunk) res \<times> Relay" where
  "ForwardChunk aes cid wc r =
     (case map_of (r_circuits r) cid of
        None \<Rightarrow> (err RelayCircuitNotFound, relay_secReport SecEventRelayCircuitNotFound cid r)
      | Some entry \<Rightarrow>
          if length (Header wc) \<noteq> ForwardingHeaderSize then (err (RelayHeaderLength (length (Header wc))), r)
          else case DecodeForwardingHeader aes (Header wc) (ce_relayKey entry) of
                 Inl (Err e) \<Rightarrow> (err (HeaderDecode e), relay_secReport SecEventRelayHeaderDecodeFail cid r)
               | Inl Panic \<Rightarrow> (Inl Panic, r)
               | Inr h \<Rightarrow>
                   let forwarded = \<lparr>Header = Header wc, Nonce = Nonce wc, Ciphertext = Ciphertext wc\<rparr>
                   in (ok (NextHop h, forwarded),
                       r\<lparr>r_circuits := AList.update cid (entry\<lparr>ce_nextHop := NextHop h\<rparr>) (r_circuits r)\<rparr>))"

fun readWireChunkCtx :: "bytes \<Rightarrow> bytes list \<Rightarrow> (wire_error, WireChunk \<times> bytes \<times> bytes list) res" where
  \<comment> \<open>\<open>left\<close> is already there, each further element arrives during one attempt. An attempt that
    runs out of bytes times out and the next one starts afresh; after the last arrival the
    connection is at its end\<close>
  "readWireChunkCtx left [] = and_then (ReadWireChunk left) (\<lambda>(wc, rest). ok (wc, rest, []))"
| "readWireChunkCtx left (a # as) =
     (case ReadWireChunk (left @ a) of
        Inr (wc, rest) \<Rightarrow> ok (wc, rest, as)
      | Inl (Err (WireIO _)) \<Rightarrow> readWireChunkCtx [] as
      | Inl e \<Rightarrow> Inl e)"

datatype inbound = Blocking bytes | Polled bytes "bytes list"

fun inbound_size :: "inbound \<Rightarrow> nat" where
  "inbound_size (Blocking bs) = length bs"
| "inbound_size (Polled left as) = length left + length (concat as)"

fun readInbound :: "inbound \<Rightarrow> (wire_error, WireChunk \<times> inbound) res" where
  "readInbound (Blocking bs) = and_then (ReadWireChunk bs) (\<lambda>(wc, rest). ok (wc, Blocking rest))"
| "readInbound (Polled left as) = and_then (readWireChunkCtx left as) (\<lambda>(wc, left, as). ok (wc, Polled left as))"

lemma ReadWireChunk_shorter: "ReadWireChunk bs = ok (wc, rest) \<Longrightarrow> length rest < length bs"
  using ReadWireChunk_sound [of bs wc rest] by (simp add: length_wire_bytes)

lemma readWireChunkCtx_shorter:
  "readWireChunkCtx left as = ok (wc, left', as') \<Longrightarrow> length left' + length (concat as') < length left + length (concat as)"
proof (induction left as rule: readWireChunkCtx.induct)
  case (1 left)
  then show ?case by (auto simp: res_iffs dest: ReadWireChunk_shorter)
next
  case (2 left a as)
  then show ?case
    by (fastforce dest: ReadWireChunk_shorter split: sum.splits fail.splits wire_error.splits)
qed

lemma readInbound_shorter: "readInbound i = ok (wc, i') \<Longrightarrow> inbound_size i' < inbound_size i"
  by (cases i) (auto simp: res_iffs dest: ReadWireChunk_shorter readWireChunkCtx_shorter)

function forwardLoop ::
    "(bytes \<Rightarrow> bytes \<Rightarrow> bytes) \<Rightarrow> nat option \<Rightarrow> string \<Rightarrow> inbound \<Rightarrow> bytes \<Rightarrow> Relay \<Rightarrow>
     (relay_error, unit) res \<times> bytes \<times> Relay" where
  \<comment> \<open>\<open>ctx\<close> is the number of rounds before the context is cancelled, if it is\<close>
  "forwardLoop aes ctx cid inp out r =
     (if ctx = Some 0 then (err Cancelled, out, r)
      else case readInbound inp of
             Inl Panic \<Rightarrow> (Inl Panic, out, r)
           | Inl (Err e) \<Rightarrow> (if e = WireIO EOF then ok () else err (StreamRead e), out, r)
           | Inr (wc, inp') \<Rightarrow>
               (case ForwardChunk aes cid wc r of
                  (Inl e, r) \<Rightarrow> (Inl e, out, r)
                | (Inr (_, forwarded), r) \<Rightarrow>
                    (case WriteWireChunk out forwarded of
                       Inl Panic \<Rightarrow> (Inl Panic, out, r)
                     | Inl (Err e) \<Rightarrow> (err (StreamWrite e), out, r)
                     | Inr out \<Rightarrow> forwardLoop aes (map_option (\<lambda>n. n - 1) ctx) cid inp' out r)))"
  by pat_completeness auto
termination
  by (relation "measure (\<lambda>(aes, ctx, cid, inp, out, r). inbound_size inp)") (auto dest: readInbound_shorter)

declare forwardLoop.simps [simp del]

definition ForwardStream ::
    "(bytes \<Rightarrow> bytes \<Rightarrow> bytes) \<Rightarrow> nat option \<Rightarrow> string \<Rightarrow> inbound \<Rightarrow> Relay \<Rightarrow> (relay_error, unit) res \<times> bytes \<times> Relay" where
  \<comment> \<open>with the bytes written to the outbound connection\<close>
  "ForwardStream aes ctx cid inp r =
     (if map_of (r_circuits r) cid = None then (err RelayCircuitNotFound, [], r)
      else forwardLoop aes ctx cid inp [] r)"

record RelayStats =
  rs_Circuits :: nat
  TotalForwarded :: u64
  rs_TotalBytes :: u64
  TotalJitterTime :: u64

record statsRelay =
  sr_relay :: Relay
  sr_forwarded :: u64
  sr_bytes :: u64
  jitterTotal :: u64

definition NewRelayWithStats :: "RelayConfig \<Rightarrow> statsRelay" where
  "NewRelayWithStats c = \<lparr>sr_relay = NewRelay c, sr_forwarded = 0, sr_bytes = 0, jitterTotal = 0\<rparr>"

definition relay_Stats :: "statsRelay \<Rightarrow> RelayStats" where
  "relay_Stats sr = \<lparr>rs_Circuits = relay_CircuitCount (sr_relay sr), TotalForwarded = sr_forwarded sr,
     rs_TotalBytes = sr_bytes sr, TotalJitterTime = jitterTotal sr\<rparr>"

definition ForwardChunkWithStats ::
    "(bytes \<Rightarrow> bytes \<Rightarrow> bytes) \<Rightarrow> nat \<Rightarrow> string \<Rightarrow> WireChunk \<Rightarrow> statsRelay \<Rightarrow>
     (relay_error, bytes \<times> WireChunk) res \<times> statsRelay" where
  \<comment> \<open>\<open>elapsed\<close> is the measured time in nanoseconds\<close>
  "ForwardChunkWithStats aes elapsed cid wc sr =
     (case ForwardChunk aes cid wc (sr_relay sr) of
        (Inl e, r) \<Rightarrow> (Inl e, sr\<lparr>sr_relay := r\<rparr>)
      | (Inr x, r) \<Rightarrow>
          (ok x, sr\<lparr>sr_relay := r, sr_forwarded := sr_forwarded sr + 1,
                    sr_bytes := sr_bytes sr + of_nat (length (Ciphertext wc)),
                    jitterTotal := jitterTotal sr + of_nat elapsed\<rparr>))"

section \<open>What a relay does to a stream\<close>

lemma ForwardChunk_same:
  assumes "ForwardChunk aes cid wc r = (ok (hop, wc'), r')"
  shows "wc' = wc \<and> (\<exists>e. map_of (r_circuits r) cid = Some e \<and>
     DecodeForwardingHeader aes (Header wc) (ce_relayKey e) = ok \<lparr>NextHop = hop\<rparr> \<and>
     map_of (r_circuits r') cid = Some (e\<lparr>ce_nextHop := hop\<rparr>))"
  using assms
  by (auto simp: ForwardChunk_def update_conv' Let_def split: option.splits if_splits sum.splits fail.splits)

lemma ForwardChunk_ok:
  assumes "map_of (r_circuits r) cid = Some e" "length (Header wc) = ForwardingHeaderSize"
    "DecodeForwardingHeader aes (Header wc) (ce_relayKey e) = ok h"
  shows "\<exists>r'. ForwardChunk aes cid wc r = (ok (NextHop h, wc), r') \<and>
    map_of (r_circuits r') cid = Some (e\<lparr>ce_nextHop := NextHop h\<rparr>)"
  using assms by (simp add: ForwardChunk_def update_conv' Let_def)

lemma readInbound_Blocking:
  "readInbound (Blocking bs) = ok (wc, inp) \<Longrightarrow> wf_wire wc \<and> (\<exists>rest. inp = Blocking rest \<and> bs = wire_bytes wc @ rest)"
  by (auto simp: res_iffs dest: ReadWireChunk_sound)

lemma WriteWireChunk_wf: "wf_wire wc \<Longrightarrow> WriteWireChunk out wc = ok (out @ wire_bytes wc)"
  using SerializeWireChunk_eq_Inr [of wc "wire_bytes wc"] by (simp add: WriteWireChunk_def)

lemma forwardLoop_prefix:
  "\<exists>n. fst (snd (forwardLoop aes ctx cid (Blocking bs) out r)) = out @ take n bs"
proof (induction bs arbitrary: ctx out r rule: length_induct)
  case (1 bs)
  show ?case
  proof (cases "ctx = Some 0 \<or> (\<nexists>x. readInbound (Blocking bs) = Inr x)")
    case True
    then show ?thesis
      by (intro exI [of _ 0]) (auto simp: forwardLoop.simps [of aes ctx] split: sum.split fail.split)
  next
    case False
    then obtain wc inp where rd: "readInbound (Blocking bs) = ok (wc, inp)" by auto
    then obtain rest where i: "inp = Blocking rest" "bs = wire_bytes wc @ rest" "wf_wire wc"
      using readInbound_Blocking by blast
    have l: "length rest < length bs" using i by (simp add: length_wire_bytes)
    show ?thesis
    proof (cases "ForwardChunk aes cid wc r")
      case (Pair x r1)
      show ?thesis
      proof (cases x)
        case (Inl e)
        then show ?thesis using Pair rd False
          by (intro exI [of _ 0]) (simp add: forwardLoop.simps [of aes ctx])
      next
        case (Inr y)
        then have "snd y = wc" using Pair ForwardChunk_same [of aes cid wc r "fst y" "snd y" r1] by simp
        then have "forwardLoop aes ctx cid (Blocking bs) out r =
            forwardLoop aes (map_option (\<lambda>n. n - 1) ctx) cid (Blocking rest) (out @ wire_bytes wc) r1"
          using Pair Inr rd False i by (simp add: forwardLoop.simps [of aes ctx] split_beta WriteWireChunk_wf)
        moreover obtain n where "fst (snd (forwardLoop aes (map_option (\<lambda>n. n - 1) ctx) cid (Blocking rest)
            (out @ wire_bytes wc) r1)) = (out @ wire_bytes wc) @ take n rest"
          using 1 l by blast
        ultimately show ?thesis
          by (intro exI [of _ "length (wire_bytes wc) + n"]) (simp add: i)
      qed
    qed
  qed
qed

lemma forwardLoop_all:
  assumes "map_of (r_circuits r) cid = Some e"
    "\<forall>wc\<in>set wcs. wf_wire wc \<and> (\<exists>h. DecodeForwardingHeader aes (Header wc) (ce_relayKey e) = ok h)"
  shows "\<exists>r'. forwardLoop aes None cid (Blocking (concat (map wire_bytes wcs))) out r =
    (ok (), out @ concat (map wire_bytes wcs), r')"
  using assms
proof (induction wcs arbitrary: out r e)
  case Nil
  then show ?case by (simp add: forwardLoop.simps ReadWireChunk_def readFull_def)
next
  case (Cons wc wcs)
  then obtain h where h: "DecodeForwardingHeader aes (Header wc) (ce_relayKey e) = ok h" "wf_wire wc" by auto
  obtain r1 where f: "ForwardChunk aes cid wc r = (ok (NextHop h, wc), r1)"
    "map_of (r_circuits r1) cid = Some (e\<lparr>ce_nextHop := NextHop h\<rparr>)"
    using ForwardChunk_ok [OF Cons.prems(1) _ h(1)] h(2) by (auto simp: wf_wire_def)
  have "\<exists>r'. forwardLoop aes None cid (Blocking (concat (map wire_bytes wcs))) (out @ wire_bytes wc) r1 =
      (ok (), (out @ wire_bytes wc) @ concat (map wire_bytes wcs), r')"
    by (rule Cons.IH [OF f(2)]) (use Cons.prems(2) in simp)
  then show ?case using h f
    by (simp add: forwardLoop.simps [of aes None] ReadWireChunk_wire_bytes WriteWireChunk_wf)
qed


definition exampleWire :: WireChunk where
  "exampleWire = \<lparr>Header = replicate 64 0, Nonce = replicate 12 2, Ciphertext = [3]\<rparr>"


section \<open>Reading with poll deadlines\<close>

definition extendable :: "bytes \<Rightarrow> (bytes \<Rightarrow> (wire_error, 'a \<times> bytes) res) \<Rightarrow> bool" where
  \<comment> \<open>more input changes the outcome of a reader only if it ran out of bytes\<close>
  "extendable q f \<longleftrightarrow> (\<forall>p. case f p of
     Inr (x, rest) \<Rightarrow> f (p @ q) = Inr (x, rest @ q)
   | Inl (Err e) \<Rightarrow> (\<exists>io. e = WireIO io) \<or> f (p @ q) = Inl (Err e)
   | Inl Panic \<Rightarrow> f (p @ q) = Inl Panic)"

lemma extendable_readFull: "extendable q (\<lambda>p. readFull WireIO p n)"
  by (auto simp: extendable_def readFull_def)

lemma extendable_bind:
  assumes "extendable q f" "\<And>x. extendable q (g x)"
  shows "extendable q (\<lambda>p. and_then (f p) (\<lambda>(x, rest). g x rest))"
  unfolding extendable_def
proof
  fix p
  have f: "case f p of Inr (x, rest) \<Rightarrow> f (p @ q) = Inr (x, rest @ q)
     | Inl (Err e) \<Rightarrow> (\<exists>io. e = WireIO io) \<or> f (p @ q) = Inl (Err e) | Inl Panic \<Rightarrow> f (p @ q) = Inl Panic"
    using assms(1) unfolding extendable_def by blast
  show "case and_then (f p) (\<lambda>(x, rest). g x rest) of
      Inr (x, rest) \<Rightarrow> and_then (f (p @ q)) (\<lambda>(x, rest). g x rest) = Inr (x, rest @ q)
    | Inl (Err e) \<Rightarrow> (\<exists>io. e = WireIO io) \<or> and_then (f (p @ q)) (\<lambda>(x, rest). g x rest) = Inl (Err e)
    | Inl Panic \<Rightarrow> and_then (f (p @ q)) (\<lambda>(x, rest). g x rest) = Inl Panic"
  proof (cases "f p")
    case (Inl e)
    then show ?thesis using f by (cases e) auto
  next
    case (Inr y)
    then have "f (p @ q) = Inr (fst y, snd y @ q)" using f by (simp add: split_beta)
    then have a: "and_then (f (p @ q)) (\<lambda>(x, rest). g x rest) = g (fst y) (snd y @ q)"
      and b: "and_then (f p) (\<lambda>(x, rest). g x rest) = g (fst y) (snd y)" using Inr by (simp_all add: split_beta)
    show ?thesis unfolding a b using assms(2) [of "fst y"] unfolding extendable_def by blast
  qed
qed

lemma extendable_const:
  "(\<And>x. extendable q (g x)) \<Longrightarrow> extendable q (\<lambda>p. and_then m (\<lambda>x. g x p))"
  by (cases m) (auto simp: extendable_def split: fail.split)

lemma extendable_guard: "extendable q f \<Longrightarrow> extendable q (\<lambda>p. guard b e (f p))"
  by (cases b) (simp_all add: extendable_def)

lemma extendable_ok: "extendable q (\<lambda>p. ok (x, p))"
  by (simp add: extendable_def)

lemma ReadWireChunk_extendable: "extendable q ReadWireChunk"
  unfolding ReadWireChunk_def [abs_def]
  by (intro extendable_bind extendable_readFull extendable_const extendable_guard extendable_ok)

lemma ReadWireChunk_error_extend:
  "ReadWireChunk p = err e \<Longrightarrow> (\<exists>io. e = WireIO io) \<or> ReadWireChunk (p @ q) = err e"
  using ReadWireChunk_extendable [of q, unfolded extendable_def, THEN spec, of p] by simp

lemma ReadWireChunk_prefix:
  assumes "wf_wire wc" "n < length (wire_bytes wc)"
  shows "\<exists>io. ReadWireChunk (take n (wire_bytes wc)) = err (WireIO io)"
proof (cases "ReadWireChunk (take n (wire_bytes wc))")
  case (Inl f)
  then obtain e where e: "f = Err e" using ReadWireChunk_no_panic by (cases f) metis+
  have "ReadWireChunk (take n (wire_bytes wc) @ drop n (wire_bytes wc)) = ok (wc, [])"
    using ReadWireChunk_wire_bytes [OF assms(1), of "[]"] by simp
  then show ?thesis
    using Inl e ReadWireChunk_error_extend [of "take n (wire_bytes wc)" e "drop n (wire_bytes wc)"] by auto
next
  case (Inr x)
  then have s: "wf_wire (fst x)" "take n (wire_bytes wc) = wire_bytes (fst x) @ snd x"
    using ReadWireChunk_sound [of _ "fst x" "snd x"] by simp_all
  have "ok (wc, []) = (ok (fst x, snd x @ drop n (wire_bytes wc)) :: (wire_error, WireChunk \<times> bytes) res)"
    using ReadWireChunk_wire_bytes [OF assms(1), of "[]"]
      ReadWireChunk_wire_bytes [OF s(1), of "snd x @ drop n (wire_bytes wc)"] s(2)
    by (metis append.assoc append_Nil2 append_take_drop_id)
  then show ?thesis using assms(2) by simp
qed

text \<open>
  Polling loses data: if a poll deadline expires inside a chunk, at any byte of it, the bytes
  read so far are dropped and reading resumes in the middle of the chunk, where a reader without
  deadlines would have returned the chunk.
\<close>

lemma poll_drops_partial_chunk:
  assumes "wf_wire wc" "n < length (wire_bytes wc)"
  shows "readInbound (Blocking (take n (wire_bytes wc) @ drop n (wire_bytes wc))) = ok (wc, Blocking []) \<and>
    readInbound (Polled [] [take n (wire_bytes wc), drop n (wire_bytes wc)]) =
    readInbound (Polled [] [drop n (wire_bytes wc)])"
  using ReadWireChunk_prefix [OF assms] ReadWireChunk_wire_bytes [OF assms(1), of "[]"] by auto

lemma truncated_stream_accepted:
  \<comment> \<open>a stream that ends after the header of a chunk counts as a clean end\<close>
  "fst (ForwardStream aes None ''c'' (Blocking (take 66 (wire_bytes exampleWire)))
     (snd (AddCircuit ''c'' (replicate 32 1) None (NewRelay DefaultRelayConfig)))) = ok ()"
proof -
  have "take 66 (wire_bytes exampleWire) = put16 64 @ replicate 64 0"
    by (simp add: exampleWire_def wire_bytes_def)
  then have "readInbound (Blocking (take 66 (wire_bytes exampleWire))) = err (WireIO EOF)"
    by (simp add: ReadWireChunk_def readFull_def field_convs wire_sizes)
  moreover have "map_of (r_circuits (snd (AddCircuit ''c'' (replicate 32 1) None (NewRelay DefaultRelayConfig)))) ''c'' \<noteq> None"
    by code_simp
  ultimately show ?thesis by (simp add: ForwardStream_def forwardLoop.simps)
qed

lemma randomJitter_range:
  \<comment> \<open>the upper end of the interval is never drawn\<close>
  assumes "\<And>n k. draw n = Some k \<Longrightarrow> 0 \<le> k \<and> k < n" "0 < JitterMin c" "JitterMin c < JitterMax c"
  shows "JitterMin c \<le> randomJitter draw c \<and> randomJitter draw c < JitterMax c"
proof -
  let ?lo = "JitterMin c div 10 ^ 6" and ?hi = "JitterMax c div 10 ^ 6"
  have q: "go_quot (JitterMin c) (10 ^ 6) = ?lo" "go_quot (JitterMax c) (10 ^ 6) = ?hi"
    using assms(2,3) by (simp_all add: go_quot_def)
  have b: "?hi * 10 ^ 6 \<le> JitterMax c" "JitterMin c < ?lo * 10 ^ 6 + 10 ^ 6"
    by (simp_all add: div_mult_mod_eq [symmetric] pos_mod_bound)
  have k: "JitterMin c + k * 10 ^ 6 < JitterMax c" if "k < ?hi - ?lo" for k
    using b that by (simp add: algebra_simps)
  have "randomJitter draw c = JitterMin c \<or> (\<exists>k. draw (?hi - ?lo) = Some k \<and> randomJitter draw c = JitterMin c + k * 10 ^ 6)"
    unfolding randomJitter_def q Let_def by (cases "draw (?hi - ?lo)") simp_all
  then show ?thesis using assms k by (elim disjE exE conjE) fastforce+
qed

end
