(* ===== verification/Priority_Queue.thy ===== *)
theory Priority_Queue
  imports Complex_Main "HOL-Library.Multiset"
begin

text \<open>
  The priority queue of the path search (\<open>dijkstraHeap\<close> of \<open>internal/proxy/circuit_manager.go\<close>): a
  binary heap in a slice, with the sifting loops of Go's \<open>container/heap\<close>. The queue contract -
  nothing is lost, and \<open>Pop\<close> removes a least element - is a locale, interpreted on these
  operations.
\<close>

section \<open>The contract of a priority queue\<close>

locale priority_queue =
  fixes key :: "'a \<Rightarrow> 'k :: linorder" and push :: "'q \<Rightarrow> 'a \<Rightarrow> 'q" and pop :: "'q \<Rightarrow> 'a \<times> 'q"
    and content :: "'q \<Rightarrow> 'a multiset" and wf :: "'q \<Rightarrow> bool"
  assumes push_wf: "wf q \<Longrightarrow> wf (push q x)"
    and push_content: "content (push q x) = add_mset x (content q)"
    and pop_wf: "wf q \<Longrightarrow> content q \<noteq> {#} \<Longrightarrow> pop q = (x, q') \<Longrightarrow> wf q'"
    and pop_content: "content q \<noteq> {#} \<Longrightarrow> pop q = (x, q') \<Longrightarrow> content q = add_mset x (content q')"
    and pop_least: "wf q \<Longrightarrow> pop q = (x, q') \<Longrightarrow> y \<in># content q \<Longrightarrow> key x \<le> key y"
begin

primrec drain :: "nat \<Rightarrow> 'q \<Rightarrow> 'a list" where
  "drain 0 q = []"
| "drain (Suc n) q = (let (x, q') = pop q in x # drain n q')"

lemma drain_sorted:
  "wf q \<Longrightarrow> size (content q) = n \<Longrightarrow> sorted (map key (drain n q)) \<and> mset (drain n q) = content q"
proof (induction n arbitrary: q)
  case (Suc n)
  obtain x q' where p: "pop q = (x, q')" by fastforce
  have ne: "content q \<noteq> {#}" using Suc.prems(2) by auto
  note c = pop_content [OF ne p]
  have IH: "sorted (map key (drain n q'))" "mset (drain n q') = content q'"
    using Suc.IH [of q'] pop_wf [OF Suc.prems(1) ne p] Suc.prems(2) c by auto
  have "key x \<le> key y" if "y \<in> set (drain n q')" for y
  proof -
    from that have "y \<in># content q" using IH(2) c by (metis set_mset_mset union_iff add_mset_add_single)
    then show ?thesis by (rule pop_least [OF Suc.prems(1) p])
  qed
  with IH c p show ?case by simp
qed simp

end

section \<open>The binary heap\<close>

record dijkstraNode =
  ndist :: rat
  node :: string

type_synonym dijkstraHeap = "dijkstraNode list"

definition heap_Less :: "dijkstraHeap \<Rightarrow> nat \<Rightarrow> nat \<Rightarrow> bool" where
  "heap_Less h i j \<longleftrightarrow> ndist (h ! i) < ndist (h ! j)"

definition heap_Swap :: "dijkstraHeap \<Rightarrow> nat \<Rightarrow> nat \<Rightarrow> dijkstraHeap" where
  "heap_Swap h i j = h[i := h ! j, j := h ! i]"

fun heap_up :: "dijkstraHeap \<Rightarrow> nat \<Rightarrow> dijkstraHeap" where
  "heap_up h j =
     (let i = (j - 1) div 2
      in if i = j \<or> \<not> heap_Less h j i then h else heap_up (heap_Swap h i j) i)"

declare heap_up.simps [simp del]

function heap_down :: "dijkstraHeap \<Rightarrow> nat \<Rightarrow> nat \<Rightarrow> dijkstraHeap" where
  "heap_down h i n =
     (let j1 = 2 * i + 1
      in if j1 \<ge> n then h
         else let j = (if j1 + 1 < n \<and> heap_Less h (j1 + 1) j1 then j1 + 1 else j1)
              in if \<not> heap_Less h j i then h else heap_down (heap_Swap h i j) j n)"
  by pat_completeness auto
termination
  by (relation "measure (\<lambda>(h, i, n). n - i)") (auto simp: Let_def)

declare heap_down.simps [simp del]

definition heap_Push :: "dijkstraHeap \<Rightarrow> dijkstraNode \<Rightarrow> dijkstraHeap" where
  "heap_Push h x = heap_up (h @ [x]) (length h)"

definition heap_Pop :: "dijkstraHeap \<Rightarrow> dijkstraNode \<times> dijkstraHeap" where
  "heap_Pop h =
     (let n = length h - 1;
          h = heap_down (heap_Swap h 0 n) 0 n
      in (h ! n, take n h))"

section \<open>The heap order\<close>

definition parent :: "nat \<Rightarrow> nat" where "parent k = (k - 1) div 2"

lemma parent_less [simp]: "0 < k \<Longrightarrow> parent k < k"
  by (auto simp: parent_def)

lemma parent_0 [simp]: "parent 0 = 0"
  by (simp add: parent_def)

lemma heap_up_eq:
  "heap_up h j =
     (if parent j = j \<or> \<not> heap_Less h j (parent j) then h else heap_up (heap_Swap h (parent j) j) (parent j))"
  unfolding parent_def by (subst heap_up.simps) (simp only: Let_def)

definition ordered :: "nat \<Rightarrow> dijkstraHeap \<Rightarrow> bool" where
  \<comment> \<open>the first \<open>n\<close> entries are in heap order\<close>
  "ordered n h \<longleftrightarrow> (\<forall>k<n. 0 < k \<longrightarrow> ndist (h ! parent k) \<le> ndist (h ! k))"

lemma length_Swap [simp]: "length (heap_Swap h i j) = length h"
  by (simp add: heap_Swap_def)

lemma mset_Swap [simp]: "i < length h \<Longrightarrow> j < length h \<Longrightarrow> mset (heap_Swap h i j) = mset h"
  by (simp add: heap_Swap_def mset_swap)

lemma nth_Swap:
  "i < length h \<Longrightarrow> j < length h \<Longrightarrow>
     heap_Swap h i j ! k = (if k = j then h ! i else if k = i then h ! j else h ! k)"
  by (auto simp: heap_Swap_def nth_list_update)

lemma heap_up_spec:
  "j < n \<Longrightarrow> n \<le> length h \<Longrightarrow>
   (\<And>k. k < n \<Longrightarrow> 0 < k \<Longrightarrow> k \<noteq> j \<Longrightarrow> ndist (h ! parent k) \<le> ndist (h ! k)) \<Longrightarrow>
   (\<And>k. k < n \<Longrightarrow> 0 < k \<Longrightarrow> parent k = j \<Longrightarrow> 0 < j \<Longrightarrow> ndist (h ! parent j) \<le> ndist (h ! k)) \<Longrightarrow>
   ordered n (heap_up h j) \<and> mset (heap_up h j) = mset h \<and> length (heap_up h j) = length h"
proof (induction h j rule: heap_up.induct)
  case (1 h j)
  define i where "i = parent j"
  show ?case
  proof (cases "i = j \<or> \<not> heap_Less h j i")
    case True
    then have "heap_up h j = h" by (auto simp: heap_up_eq [of h j] i_def)
    moreover have "ndist (h ! parent k) \<le> ndist (h ! k)" if "k < n" "0 < k" for k
      using True 1(4) [OF that] that by (cases "k = j") (auto simp: heap_Less_def i_def)
    ultimately show ?thesis by (auto simp: ordered_def)
  next
    case False
    then have j: "0 < j" and less: "ndist (h ! j) < ndist (h ! i)"
      by (auto simp: heap_Less_def i_def intro: gr0I)
    have pj: "parent j = i" by (simp add: i_def)
    have ij: "i < j" using j by (simp add: i_def)
    let ?h = "heap_Swap h i j"
    have len: "i < length h" "j < length h" using 1(2,3) j ij by auto
    note s = nth_Swap [OF len]
    have up: "heap_up h j = heap_up ?h i" using False by (simp add: heap_up_eq [of h j] i_def)
    have "ndist (?h ! parent k) \<le> ndist (?h ! k)" if k: "k < n" "0 < k" "k \<noteq> i" for k
    proof (cases "k = j")
      case True
      then show ?thesis using less j by (simp add: s pj)
    next
      case kj: False
      have "ndist (h ! parent k) \<le> ndist (h ! k)" using 1(4) k kj by blast
      moreover have "ndist (h ! i) \<le> ndist (h ! k)" if "parent k = j" using 1(5) k that j pj by metis
      ultimately show ?thesis using k kj less by (auto simp: s)
    qed
    moreover have "ndist (?h ! parent i) \<le> ndist (?h ! k)" if k: "k < n" "0 < k" "parent k = i" "0 < i" for k
    proof -
      have pi: "parent i < i" using k(4) by auto
      have a: "ndist (h ! parent i) \<le> ndist (h ! i)" using 1(4) [of i] 1(2) j ij k(4) by auto
      show ?thesis
      proof (cases "k = j")
        case True
        then show ?thesis using a pi j ij by (simp add: s)
      next
        case False
        then have "ndist (h ! i) \<le> ndist (h ! k)" using 1(4) [of k] k by auto
        moreover have "k \<noteq> i" using k parent_less [of k] by (metis less_irrefl)
        ultimately show ?thesis using a pi j ij False by (auto simp: s)
      qed
    qed
    ultimately show ?thesis
      using 1(1) [OF i_def [unfolded parent_def] False] 1(2,3) j len up ij by (auto simp: parent_def)
  qed
qed

lemma heap_down_spec:
  "n \<le> length h \<Longrightarrow>
   (\<And>k. k < n \<Longrightarrow> 0 < k \<Longrightarrow> parent k \<noteq> i \<Longrightarrow> ndist (h ! parent k) \<le> ndist (h ! k)) \<Longrightarrow>
   (\<And>k. k < n \<Longrightarrow> 0 < k \<Longrightarrow> parent k = i \<Longrightarrow> 0 < i \<Longrightarrow> ndist (h ! parent i) \<le> ndist (h ! k)) \<Longrightarrow>
   ordered n (heap_down h i n) \<and> mset (heap_down h i n) = mset h \<and>
   length (heap_down h i n) = length h \<and> drop n (heap_down h i n) = drop n h"
proof (induction h i n rule: heap_down.induct)
  case (1 h i n)
  let ?j1 = "2 * i + 1"
  define j where "j = (if ?j1 + 1 < n \<and> heap_Less h (?j1 + 1) ?j1 then ?j1 + 1 else ?j1)"
  have child: "parent k = i \<longleftrightarrow> k = ?j1 \<or> k = ?j1 + 1" if "0 < k" for k using that by (auto simp: parent_def)
  show ?case
  proof (cases "?j1 \<ge> n \<or> \<not> heap_Less h j i")
    case True
    then have "heap_down h i n = h"
      by (auto simp: heap_down.simps [of h i n] Let_def j_def)
    moreover have "ndist (h ! parent k) \<le> ndist (h ! k)" if k: "k < n" "0 < k" for k
    proof (cases "parent k = i")
      case pk: True
      then have "k = ?j1 \<or> k = ?j1 + 1" using child k by blast
      with k True pk show ?thesis by (auto simp: heap_Less_def j_def split: if_splits)
    qed (use 1(3) k in blast)
    ultimately show ?thesis by (simp add: ordered_def)
  next
    case False
    then have j: "?j1 < n" "heap_Less h j i" "j < n" "i < j" "parent j = i" "0 < j"
      by (auto simp: j_def parent_def)
    let ?h = "heap_Swap h i j"
    have len: "i < length h" "j < length h" using j 1(2) by auto
    note s = nth_Swap [OF len]
    have least: "ndist (h ! j) \<le> ndist (h ! k)" if "k < n" "0 < k" "parent k = i" for k
      using that child [of k] by (auto simp: j_def heap_Less_def split: if_splits)
    have down: "heap_down h i n = heap_down ?h j n"
      unfolding heap_down.simps [of h i n] Let_def j_def [symmetric] using j by simp
    have "ndist (?h ! parent k) \<le> ndist (?h ! k)" if k: "k < n" "0 < k" "parent k \<noteq> j" for k
    proof (cases "parent k = i")
      case True
      then have "k \<noteq> i" using k parent_less [of k] by (metis less_irrefl)
      with True k j least [OF k(1,2) True] show ?thesis by (auto simp: s heap_Less_def)
    next
      case pk: False
      have "ndist (h ! parent k) \<le> ndist (h ! k)" using 1(3) k pk by blast
      moreover have "ndist (h ! parent i) \<le> ndist (h ! j)" if "0 < i"
        using 1(4) [of j] j that by blast
      ultimately show ?thesis using k pk j by (auto simp: s)
    qed
    moreover have "ndist (?h ! parent j) \<le> ndist (?h ! k)" if k: "k < n" "0 < k" "parent k = j" for k
      using k j 1(3) [of k] by (auto simp: s)
    ultimately have "ordered n (heap_down ?h j n) \<and> mset (heap_down ?h j n) = mset ?h \<and>
        length (heap_down ?h j n) = length ?h \<and> drop n (heap_down ?h j n) = drop n ?h"
      using 1(1) [OF refl _ j_def] j 1(2) by auto
    moreover have "drop n ?h = drop n h" using j by (simp add: heap_Swap_def)
    ultimately show ?thesis using len down by simp
  qed
qed

lemma ordered_root_least: "ordered n h \<Longrightarrow> k < n \<Longrightarrow> ndist (h ! 0) \<le> ndist (h ! k)"
proof (induction k rule: less_induct)
  case (less k)
  show ?case
  proof (cases "k = 0")
    case False
    then have "ndist (h ! 0) \<le> ndist (h ! parent k)" using less by auto
    also have "\<dots> \<le> ndist (h ! k)" using less.prems False by (simp add: ordered_def)
    finally show ?thesis .
  qed simp
qed

lemma heap_Push_spec:
  assumes "ordered (length h) h"
  shows "ordered (Suc (length h)) (heap_Push h x)" "length (heap_Push h x) = Suc (length h)"
proof -
  have "ordered (Suc (length h)) (heap_up (h @ [x]) (length h)) \<and>
      mset (heap_up (h @ [x]) (length h)) = mset (h @ [x]) \<and>
      length (heap_up (h @ [x]) (length h)) = length (h @ [x])"
  proof (rule heap_up_spec)
    show "ndist ((h @ [x]) ! parent k) \<le> ndist ((h @ [x]) ! k)"
      if "k < Suc (length h)" "0 < k" "k \<noteq> length h" for k
      using assms that parent_less [OF that(2)] by (auto simp: ordered_def nth_append)
    show "ndist ((h @ [x]) ! parent (length h)) \<le> ndist ((h @ [x]) ! k)"
      if "k < Suc (length h)" "0 < k" "parent k = length h" for k
      using that parent_less [OF that(2)] by simp
  qed simp_all
  then show "ordered (Suc (length h)) (heap_Push h x)" "length (heap_Push h x) = Suc (length h)"
    by (simp_all add: heap_Push_def)
qed

lemma mset_heap_up: "j < length h \<Longrightarrow> mset (heap_up h j) = mset h"
proof (induction h j rule: heap_up.induct)
  case (1 h j)
  have "parent j < length h" using 1(2) by (auto simp: parent_def)
  with 1 show ?case by (simp add: heap_up_eq [of h j] parent_def)
qed

lemma mset_heap_down:
  "n \<le> length h \<Longrightarrow> mset (heap_down h i n) = mset h \<and> length (heap_down h i n) = length h \<and>
     drop n (heap_down h i n) = drop n h"
proof (induction h i n rule: heap_down.induct)
  case (1 h i n)
  define j where "j = (if 2 * i + 2 < n \<and> heap_Less h (2 * i + 2) (2 * i + 1) then 2 * i + 2 else 2 * i + 1)"
  show ?case
  proof (cases "2 * i + 1 \<ge> n \<or> \<not> heap_Less h j i")
    case True
    then show ?thesis by (auto simp: heap_down.simps [of h i n] Let_def j_def)
  next
    case False
    then have j: "j < n" "i < n" by (auto simp: j_def)
    have "drop n (heap_Swap h i j) = drop n h" using j by (simp add: heap_Swap_def)
    with 1(1) [of "2 * i + 1" j] False j 1(2) show ?thesis
      by (auto simp: heap_down.simps [of h i n] Let_def j_def)
  qed
qed

lemma heap_Pop_eq:
  assumes "h \<noteq> []" "heap_Pop h = (x, h')"
  shows "x = h ! 0" "mset h = add_mset x (mset h')"
    "h' = take (length h - 1) (heap_down (heap_Swap h 0 (length h - 1)) 0 (length h - 1))"
proof -
  define n where "n = length h - 1"
  define g where "g = heap_down (heap_Swap h 0 n) 0 n"
  have n: "n < length h" "0 < length h" using assms(1) by (auto simp: n_def)
  have g: "mset g = mset h" "length g = length h" "drop n g = drop n (heap_Swap h 0 n)"
    using mset_heap_down [of n "heap_Swap h 0 n" 0] n by (simp_all add: g_def)
  have x: "x = g ! n" and h': "h' = take n g"
    using assms(2) by (auto simp: heap_Pop_def Let_def n_def g_def)
  have "drop n g = [g ! n]" using g(2) n by (metis Cons_nth_drop_Suc Suc_diff_1 drop_all n_def order_refl)
  moreover have "drop n (heap_Swap h 0 n) = [h ! 0]"
    using n by (metis Cons_nth_drop_Suc Suc_diff_1 drop_all length_Swap n_def nth_Swap order_refl)
  ultimately have last: "g ! n = h ! 0" using g(3) by simp
  with x show "x = h ! 0" by simp
  have "g = take n g @ [g ! n]" using \<open>drop n g = [g ! n]\<close> by (metis append_take_drop_id)
  then have "mset g = add_mset (g ! n) (mset (take n g))" by (metis add_mset_add_single mset.simps mset_append)
  with g(1) x h' show "mset h = add_mset x (mset h')" by simp
  show "h' = take (length h - 1) (heap_down (heap_Swap h 0 (length h - 1)) 0 (length h - 1))"
    using h' by (simp add: g_def n_def)
qed

lemma heap_Pop_ordered:
  assumes "ordered (length h) h" "h \<noteq> []" "heap_Pop h = (x, h')"
  shows "ordered (length h') h'"
proof -
  define n where "n = length h - 1"
  let ?s = "heap_Swap h 0 n"
  have n: "n < length h" "0 < length h" using assms(2) by (auto simp: n_def)
  note s = nth_Swap [OF n(2,1)]
  have "ndist (?s ! parent k) \<le> ndist (?s ! k)" if "k < n" "0 < k" "parent k \<noteq> 0" for k
    using assms(1) that n parent_less [OF that(2)] by (auto simp: s ordered_def)
  then have "ordered n (heap_down ?s 0 n)"
    using heap_down_spec [of n ?s 0] n by auto
  moreover have "h' = take n (heap_down ?s 0 n)"
    using heap_Pop_eq(3) [OF assms(2,3)] by (simp add: n_def)
  ultimately show ?thesis by (auto simp: ordered_def less_trans [OF parent_less])
qed

interpretation heap: priority_queue ndist heap_Push heap_Pop mset "\<lambda>h. ordered (length h) h"
proof
  show "ordered (length (heap_Push q x)) (heap_Push q x)" if "ordered (length q) q" for q x
    using heap_Push_spec [OF that, of x] by simp
  show "mset (heap_Push q x) = add_mset x (mset q)" for q x
    by (simp add: heap_Push_def mset_heap_up)
  show "ordered (length q') q'" if "ordered (length q) q" "mset q \<noteq> {#}" "heap_Pop q = (x, q')" for q x q'
    using heap_Pop_ordered that by auto
  show "mset q = add_mset x (mset q')" if "mset q \<noteq> {#}" "heap_Pop q = (x, q')" for q x q'
    using heap_Pop_eq(2) that by auto
  show "ndist x \<le> ndist y" if "ordered (length q) q" "heap_Pop q = (x, q')" "y \<in># mset q" for q x q' y
  proof -
    from that(3) obtain k where "k < length q" "y = q ! k" by (auto simp: in_set_conv_nth)
    then show ?thesis using heap_Pop_eq(1) [OF _ that(2)] ordered_root_least [OF that(1)] by (cases "q = []") auto
  qed
qed

end
