(* ===== verification/Latency_Graph.thy ===== *)
theory Latency_Graph
  imports Priority_Queue Prelude
begin

text \<open>
  The mesh latency matrix and the search for node-disjoint paths
  (\<open>internal/proxy/circuit_manager.go\<close>). Latencies are exact rationals: the rounding of float64
  sums is not modelled. The iteration order of a Go map is the order of its association list, so
  a statement about every matrix is one about every order.
\<close>

section \<open>The latency matrix\<close>

datatype NodeRole = RoleEntry | RoleRelay | RoleExit | RoleStandard
datatype NodeStatus = Online | Offline | Degraded
datatype NodeCapability = CapRelay | CapExit
datatype EdgeSource = EdgeProbe | EdgeGossip | EdgeKeepalive

record NodeInfo =
  ni_ID :: string
  ni_Hostname :: string
  ni_MeshAddr :: string
  ni_Role :: NodeRole
  ni_Capabilities :: "NodeCapability list"
  ni_Status :: NodeStatus

record LatencyEdge =
  le_Source :: string
  le_Target :: string
  RTTms :: rat
  BandwidthBps :: int
  MeasuredAt :: int
  SourceType :: EdgeSource

record MeshLatencyMatrix =
  nodes :: "(string \<times> NodeInfo) list"
  edges :: "(string \<times> (string \<times> LatencyEdge) list) list"
  updatedAt :: int

definition NewMeshLatencyMatrix :: MeshLatencyMatrix where
  "NewMeshLatencyMatrix = \<lparr>nodes = [], edges = [], updatedAt = 0\<rparr>"

definition AddNode :: "int \<Rightarrow> NodeInfo \<Rightarrow> MeshLatencyMatrix \<Rightarrow> MeshLatencyMatrix" where
  "AddNode now n m = m\<lparr>nodes := AList.update (ni_ID n) n (nodes m), updatedAt := now\<rparr>"

definition row :: "MeshLatencyMatrix \<Rightarrow> string \<Rightarrow> (string \<times> LatencyEdge) list" where
  \<comment> \<open>\<open>m.edges[u]\<close>, a nil map when absent\<close>
  "row m u = (case map_of (edges m) u of None \<Rightarrow> [] | Some es \<Rightarrow> es)"

definition setEdge :: "LatencyEdge \<Rightarrow> MeshLatencyMatrix \<Rightarrow> MeshLatencyMatrix" where
  "setEdge e m = m\<lparr>edges := AList.update (le_Source e) (AList.update (le_Target e) e (row m (le_Source e))) (edges m)\<rparr>"

definition AddEdge :: "int \<Rightarrow> LatencyEdge \<Rightarrow> MeshLatencyMatrix \<Rightarrow> MeshLatencyMatrix" where
  "AddEdge now e m =
     (let m = setEdge e m;
          m = setEdge (e\<lparr>le_Source := le_Target e, le_Target := le_Source e\<rparr>) m
      in m\<lparr>updatedAt := now\<rparr>)"

definition MergeEdges :: "int \<Rightarrow> LatencyEdge list \<Rightarrow> MeshLatencyMatrix \<Rightarrow> MeshLatencyMatrix" where
  "MergeEdges now es m = fold (AddEdge now) es m"

definition GetNode :: "string \<Rightarrow> MeshLatencyMatrix \<Rightarrow> NodeInfo option" where
  "GetNode i m = map_of (nodes m) i"

definition Neighbors :: "string \<Rightarrow> MeshLatencyMatrix \<Rightarrow> (string \<times> LatencyEdge) list" where
  "Neighbors u m = row m u"

definition EdgeWeight :: "string \<Rightarrow> string \<Rightarrow> MeshLatencyMatrix \<Rightarrow> rat option" where
  \<comment> \<open>\<open>None\<close> is \<open>+Inf\<close>\<close>
  "EdgeWeight u v m =
     (case map_of (row m u) v of
        None \<Rightarrow> None
      | Some e \<Rightarrow> Some (if RTTms e > 0 then RTTms e else 500))"

definition RelayNodes :: "MeshLatencyMatrix \<Rightarrow> NodeInfo list" where
  "RelayNodes m = filter (\<lambda>n. CapRelay \<in> set (ni_Capabilities n)) (map snd (nodes m))"

definition RelayCountWithRTT :: "string \<Rightarrow> MeshLatencyMatrix \<Rightarrow> nat" where
  "RelayCountWithRTT u m =
     length (filter (\<lambda>(i, n). i \<noteq> u \<and> CapRelay \<in> set (ni_Capabilities n) \<and>
       (case map_of (row m u) i of None \<Rightarrow> False | Some e \<Rightarrow> RTTms e > 0)) (nodes m))"

section \<open>Shortest paths\<close>

definition weight :: "LatencyEdge \<Rightarrow> rat" where
  "weight e = (if RTTms e = 0 then 500 else RTTms e)"

type_synonym search = "(string \<rightharpoonup> rat) \<times> (string \<rightharpoonup> string) \<times> dijkstraHeap"

definition relax :: "string set \<Rightarrow> string set \<Rightarrow> string \<Rightarrow> string \<times> LatencyEdge \<Rightarrow> search \<Rightarrow> search" where
  \<comment> \<open>the loop body over the neighbours of \<open>u\<close>\<close>
  "relax blocked visited u ve s =
     (let (v, edge) = ve; (dst, prev, pq) = s
      in if v \<in> blocked \<or> v \<in> visited then s
         else let alt = (case dst u of None \<Rightarrow> 0 | Some d \<Rightarrow> d) + weight edge
              in if (case dst v of None \<Rightarrow> True | Some d \<Rightarrow> alt < d)
                 then (dst(v \<mapsto> alt), prev(v \<mapsto> u), heap_Push pq \<lparr>ndist = alt, node = v\<rparr>)
                 else s)"

lemma length_heap_Pop [simp]: "heap_Pop q = (x, q') \<Longrightarrow> q \<noteq> [] \<Longrightarrow> length q = Suc (length q')"
  using heap_Pop_eq(2) [of q x q'] by (metis size_add_mset size_mset)

function searchLoop ::
    "MeshLatencyMatrix \<Rightarrow> string \<Rightarrow> string set \<Rightarrow> string set \<Rightarrow> search \<Rightarrow> search" where
  \<comment> \<open>the main loop: \<open>break\<close> when the target is reached\<close>
  "searchLoop m target blocked visited (dst, prev, pq) =
     (if pq = [] then (dst, prev, pq)
      else let (cur, pq) = heap_Pop pq; u = node cur
           in if u \<in> visited then searchLoop m target blocked visited (dst, prev, pq)
              else if u = target then (dst, prev, pq)
              else searchLoop m target blocked (insert u visited)
                     (fold (relax blocked (insert u visited) u) (Neighbors u m) (dst, prev, pq)))"
  by pat_completeness auto
termination
proof (relation "measures [\<lambda>(m, t, b, visited, s). card (fst ` set (edges m) - visited),
    \<lambda>(m, t, b, visited, (dst, prev, pq)). length pq]", goal_cases)
  case (3 m target blocked visited dst prev pq x cur q u)
  then have s: "heap_Pop pq = (cur, q)" "pq \<noteq> []" "u \<notin> visited" by auto
  show ?case
  proof (cases "u \<in> fst ` set (edges m)")
    case True
    then have "card (fst ` set (edges m) - insert u visited) < card (fst ` set (edges m) - visited)"
      using s by (intro psubset_card_mono) auto
    then show ?thesis by simp
  next
    case False
    then have "fst ` set (edges m) - insert u visited = fst ` set (edges m) - visited" by auto
    moreover have "map_of (edges m) u = None" using False by (simp add: map_of_eq_None_iff)
    then have "Neighbors u m = []" by (simp add: Neighbors_def row_def)
    ultimately show ?thesis using s by simp
  qed
next
  case (2 m target blocked visited dst prev pq x cur q u)
  then have "heap_Pop pq = (cur, q)" "pq \<noteq> []" by auto
  then show ?case by simp
qed auto

declare searchLoop.simps [simp del]

partial_function (option) pathTo :: "(string \<rightharpoonup> string) \<Rightarrow> string \<Rightarrow> string \<Rightarrow> string list \<Rightarrow> string list option" where
  \<comment> \<open>the reconstruction loop; a missing predecessor reads as the empty string\<close>
  "pathTo prev source cur path =
     (if cur = [] then Some path
      else if cur = source then Some (cur # path)
      else pathTo prev source (case prev cur of None \<Rightarrow> [] | Some u \<Rightarrow> u) (cur # path))"

declare pathTo.simps [code]

definition ShortestPath ::
    "MeshLatencyMatrix \<Rightarrow> string \<Rightarrow> string \<Rightarrow> string set \<Rightarrow> string list option option" where
  \<comment> \<open>\<open>None\<close>: the call does not return; \<open>Some None\<close>: it returns nil\<close>
  "ShortestPath m source target blocked =
     (if source \<in> blocked \<or> target \<in> blocked then Some None
      else let (dst, prev, pq) = searchLoop m target blocked {}
                 ([source \<mapsto> 0], Map.empty, heap_Push [] \<lparr>ndist = 0, node = source\<rparr>)
           in if dst target = None then Some None
              else Option.bind (pathTo prev source target []) (\<lambda>path.
                   if path = [] \<or> hd path \<noteq> source then Some None else Some (Some path)))"

section \<open>Disjoint paths\<close>

datatype path_error = ErrNoPaths | ErrPathOverlap

definition relays_of :: "string list \<Rightarrow> string list" where
  \<comment> \<open>\<open>path[1:len(path)-1]\<close>, empty on short paths\<close>
  "relays_of path = butlast (tl path)"

primrec disjointLoop ::
    "MeshLatencyMatrix \<Rightarrow> string \<Rightarrow> string \<Rightarrow> nat \<Rightarrow> string list list \<Rightarrow> string set \<Rightarrow> string list list option" where
  "disjointLoop m source target 0 paths blocked = Some paths"
| "disjointLoop m source target (Suc k) paths blocked =
     Option.bind (ShortestPath m source target blocked) (\<lambda>r.
       case r of None \<Rightarrow> Some paths
       | Some path \<Rightarrow> disjointLoop m source target k (paths @ [path]) (blocked \<union> set (relays_of path)))"

definition KShortestDisjointPaths ::
    "MeshLatencyMatrix \<Rightarrow> string \<Rightarrow> string \<Rightarrow> nat \<Rightarrow> (path_error + string list list) option" where
  "KShortestDisjointPaths m source target k =
     Option.bind (disjointLoop m source target k [] {}) (\<lambda>paths.
       if length paths < k then Some (Inl ErrNoPaths)
       else let relays = concat (map (\<lambda>p. remdups (relays_of p)) paths)
            in if \<exists>r\<in>set relays. 1 < length (filter ((=) r) relays) then Some (Inl ErrPathOverlap)
               else Some (Inr paths))"

definition PathsHaveOverlap :: "string list \<Rightarrow> string list \<Rightarrow> bool" where
  "PathsHaveOverlap a b \<longleftrightarrow> (\<exists>r\<in>set (relays_of b). r \<in> set (relays_of a))"

section \<open>Walks\<close>

inductive walk :: "MeshLatencyMatrix \<Rightarrow> string set \<Rightarrow> string \<Rightarrow> string \<Rightarrow> rat \<Rightarrow> string list \<Rightarrow> bool"
  for m blocked source where
  start: "walk m blocked source source 0 [source]"
| step: "walk m blocked source u d ps \<Longrightarrow> (v, e) \<in> set (Neighbors u m) \<Longrightarrow> v \<notin> blocked \<Longrightarrow>
    walk m blocked source v (d + weight e) (ps @ [v])"

definition wf_matrix :: "MeshLatencyMatrix \<Rightarrow> bool" where
  \<comment> \<open>round-trip times are not negative and no node has the empty identifier\<close>
  "wf_matrix m \<longleftrightarrow> (\<forall>(u, es)\<in>set (edges m). \<forall>(v, e)\<in>set es. 0 \<le> RTTms e \<and> v \<noteq> [])"

lemma Neighbors_wf:
  assumes "wf_matrix m" "(v, e) \<in> set (Neighbors u m)"
  shows "0 < weight e" "v \<noteq> []"
proof -
  from assms(2) obtain es where "map_of (edges m) u = Some es" "(v, e) \<in> set es"
    by (cases "map_of (edges m) u") (auto simp: Neighbors_def row_def)
  then have "0 \<le> RTTms e \<and> v \<noteq> []"
    using assms(1) map_of_SomeD by (fastforce simp: wf_matrix_def)
  then show "0 < weight e" "v \<noteq> []" by (auto simp: weight_def)
qed

lemma walk_ends:
  assumes "wf_matrix m" "walk m B s u d ps"
  shows "ps \<noteq> [] \<and> hd ps = s \<and> last ps = u \<and> 0 \<le> d"
  using assms(2)
proof (induction rule: walk.induct)
  case (step u d ps v e)
  then show ?case using Neighbors_wf(1) [OF assms(1) step(2)] by auto
qed simp

primrec chain :: "(string \<rightharpoonup> string) \<Rightarrow> string \<Rightarrow> string list \<Rightarrow> bool" where
  \<comment> \<open>a path written backwards, from its last node to the source, along the predecessors\<close>
  "chain prev s [] = False"
| "chain prev s (v # ps) \<longleftrightarrow> v \<noteq> [] \<and>
     (if v = s then ps = [] else ps \<noteq> [] \<and> prev v = Some (hd ps) \<and> chain prev s ps)"

lemma pathTo_chain: "chain prev s qs \<Longrightarrow> pathTo prev s (hd qs) acc = Some (rev qs @ acc)"
proof (induction qs arbitrary: acc)
  case (Cons v qs)
  then show ?case by (subst pathTo.simps) (auto split: if_splits)
qed simp

lemma chain_cong: "chain prev s qs \<Longrightarrow> (\<And>v. v \<in> set qs \<Longrightarrow> prev' v = prev v) \<Longrightarrow> chain prev' s qs"
  by (induction qs) (auto split: if_splits)

section \<open>Correctness of the search\<close>

definition minimal :: "MeshLatencyMatrix \<Rightarrow> string set \<Rightarrow> string \<Rightarrow> string \<Rightarrow> rat \<Rightarrow> bool" where
  "minimal m B s u d \<longleftrightarrow> (\<forall>c ps. walk m B s u c ps \<longrightarrow> d \<le> c)"

definition settled :: "MeshLatencyMatrix \<Rightarrow> string set \<Rightarrow> string \<Rightarrow> string set \<Rightarrow> (string \<rightharpoonup> string) \<Rightarrow> string \<Rightarrow> rat \<Rightarrow> bool" where
  \<comment> \<open>a visited node: its distance is least, and the predecessors spell a simple path of that cost\<close>
  "settled m B s V prev u d \<longleftrightarrow> minimal m B s u d \<and>
     (\<exists>qs. chain prev s qs \<and> hd qs = u \<and> set qs \<subseteq> V \<and> distinct qs \<and> walk m B s u d (rev qs))"

definition out_edges :: "MeshLatencyMatrix \<Rightarrow> string set \<Rightarrow> (string \<times> string \<times> LatencyEdge) set" where
  "out_edges m V = {(u, v, e). u \<in> V \<and> (v, e) \<in> set (Neighbors u m)}"

definition frontier :: "MeshLatencyMatrix \<Rightarrow> string set \<Rightarrow> string \<Rightarrow> string set \<Rightarrow> search \<Rightarrow> string \<Rightarrow> rat \<Rightarrow> bool" where
  \<comment> \<open>a node that is reached but not visited is queued, and its distance comes from a visited node\<close>
  "frontier m B s V S v d \<longleftrightarrow> (case S of (dst, prev, pq) \<Rightarrow>
     \<lparr>ndist = d, node = v\<rparr> \<in> set pq \<and> v \<notin> B \<and> (v = s \<or>
       (\<exists>u\<in>V. \<exists>e. prev v = Some u \<and> (v, e) \<in> set (Neighbors u m) \<and> d = the (dst u) + weight e)))"

definition search_inv ::
    "MeshLatencyMatrix \<Rightarrow> string set \<Rightarrow> string \<Rightarrow> string set \<Rightarrow> (string \<times> string \<times> LatencyEdge) set \<Rightarrow> search \<Rightarrow> bool" where
  \<comment> \<open>\<open>V\<close> is the set of visited nodes, \<open>X\<close> the set of edges relaxed so far\<close>
  "search_inv m B s V X S \<longleftrightarrow> (case S of (dst, prev, pq) \<Rightarrow>
     ordered (length pq) pq \<and> dst s = Some 0 \<and> s \<notin> B \<and> s \<noteq> [] \<and> X \<subseteq> out_edges m V \<and>
     (\<forall>u\<in>V. \<exists>d. dst u = Some d \<and> settled m B s V prev u d) \<and>
     (\<forall>(u, v, e)\<in>X. v \<notin> B \<longrightarrow> (\<exists>d. dst v = Some d \<and> d \<le> the (dst u) + weight e)) \<and>
     (\<forall>v d. dst v = Some d \<longrightarrow> v \<notin> V \<longrightarrow> frontier m B s V S v d) \<and>
     (\<forall>x\<in>set pq. \<exists>d. dst (node x) = Some d \<and> d \<le> ndist x))"

lemma search_invD:
  assumes "search_inv m B s V X (dst, prev, pq)"
  shows "ordered (length pq) pq" "dst s = Some 0" "s \<notin> B" "s \<noteq> []" "X \<subseteq> out_edges m V"
    "\<And>u. u \<in> V \<Longrightarrow> \<exists>d. dst u = Some d \<and> settled m B s V prev u d"
    "\<And>u v e. (u, v, e) \<in> X \<Longrightarrow> v \<notin> B \<Longrightarrow> \<exists>d. dst v = Some d \<and> d \<le> the (dst u) + weight e"
    "\<And>v d. dst v = Some d \<Longrightarrow> v \<notin> V \<Longrightarrow> frontier m B s V (dst, prev, pq) v d"
    "\<And>x. x \<in> set pq \<Longrightarrow> \<exists>d. dst (node x) = Some d \<and> d \<le> ndist x"
  using assms by (auto simp: search_inv_def)

lemma search_invI:
  assumes "ordered (length pq) pq" "dst s = Some 0" "s \<notin> B" "s \<noteq> []" "X \<subseteq> out_edges m V"
    "\<And>u. u \<in> V \<Longrightarrow> \<exists>d. dst u = Some d \<and> settled m B s V prev u d"
    "\<And>u v e. (u, v, e) \<in> X \<Longrightarrow> v \<notin> B \<Longrightarrow> \<exists>d. dst v = Some d \<and> d \<le> the (dst u) + weight e"
    "\<And>v d. dst v = Some d \<Longrightarrow> v \<notin> V \<Longrightarrow> frontier m B s V (dst, prev, pq) v d"
    "\<And>x. x \<in> set pq \<Longrightarrow> \<exists>d. dst (node x) = Some d \<and> d \<le> ndist x"
  shows "search_inv m B s V X (dst, prev, pq)"
  using assms by (auto simp: search_inv_def)

lemma settled_mono: "settled m B s V prev u d \<Longrightarrow> V \<subseteq> W \<Longrightarrow> settled m B s W prev u d"
  by (auto simp: settled_def)

lemma settled_cong:
  assumes "settled m B s V prev u d" "\<And>v. v \<in> V \<Longrightarrow> prev' v = prev v"
  shows "settled m B s V prev' u d"
proof -
  obtain qs where qs: "minimal m B s u d" "chain prev s qs" "hd qs = u" "set qs \<subseteq> V" "distinct qs"
    "walk m B s u d (rev qs)"
    using assms(1) by (auto simp: settled_def)
  have "chain prev' s qs" by (rule chain_cong [OF qs(2)]) (use assms(2) qs(4) in blast)
  with qs show ?thesis unfolding settled_def by blast
qed

lemma chain_source: "chain prev s qs \<Longrightarrow> s \<in> set qs"
  by (induction qs) (auto split: if_splits)

lemma source_visited:
  assumes "search_inv m B s V X (dst, prev, pq)" "u \<in> V"
  shows "s \<in> V"
proof -
  obtain qs where "chain prev s qs" "set qs \<subseteq> V"
    using search_invD(6) [OF assms] by (auto simp: settled_def)
  then show ?thesis using chain_source by blast
qed

text \<open>Every walk meets the frontier, or ends in a visited node, at a distance within its cost.\<close>

lemma walk_meets_frontier:
  assumes wf: "wf_matrix m" and inv: "search_inv m B s V (out_edges m V) (dst, prev, pq)"
    and w: "walk m B s v c ps"
  shows "\<exists>y d. dst y = Some d \<and> d \<le> c \<and> (y \<notin> V \<or> y = v)"
  using w
proof (induction rule: walk.induct)
  case start
  then show ?case using search_invD(2) [OF inv] by auto
next
  case (step u c ps v e)
  have pos: "0 < weight e" by (rule Neighbors_wf(1) [OF wf step.hyps(2)])
  from step.IH obtain y d where y: "dst y = Some d" "d \<le> c" "y \<notin> V \<or> y = u" by blast
  show ?case
  proof (cases "y \<in> V")
    case True
    with y have "(u, v, e) \<in> out_edges m V" using step.hyps(2) by (simp add: out_edges_def)
    from search_invD(7) [OF inv this step.hyps(3)] True y
    show ?thesis by (auto intro: order_trans [OF _ add_right_mono])
  next
    case False
    with y pos show ?thesis by (intro exI [of _ y] exI [of _ d]) auto
  qed
qed

lemma pop_set:
  "heap_Pop pq = (x, q) \<Longrightarrow> pq \<noteq> [] \<Longrightarrow> set pq = insert x (set q)"
  using heap.pop_content [of pq x q] by (metis mset_zero_iff set_mset_add_mset_insert set_mset_mset)

lemma pop_visited:
  assumes inv: "search_inv m B s V X (dst, prev, pq)" and pop: "heap_Pop pq = (x, q)" "pq \<noteq> []"
    and x: "node x \<in> V"
  shows "search_inv m B s V X (dst, prev, q)"
proof -
  note set = pop_set [OF pop]
  have "ordered (length q) q" using heap.pop_wf [of pq x q] search_invD(1) [OF inv] pop by simp
  moreover have "frontier m B s V (dst, prev, q) v d" if "dst v = Some d" "v \<notin> V" for v d
    using search_invD(8) [OF inv that] set x that(2) by (auto simp: frontier_def)
  ultimately show ?thesis using inv set by (auto simp: search_inv_def)
qed

lemma pop_settles:
  assumes wf: "wf_matrix m" and inv: "search_inv m B s V (out_edges m V) (dst, prev, pq)"
    and pop: "heap_Pop pq = (x, q)" "pq \<noteq> []" and x: "node x \<notin> V"
  shows "dst (node x) = Some (ndist x)" "settled m B s (insert (node x) V) prev (node x) (ndist x)"
proof -
  let ?u = "node x"
  note I = search_invD [OF inv]
  have least: "ndist x \<le> d" if "dst y = Some d" "y \<notin> V" for y d
    using heap.pop_least [OF I(1) pop(1), of "\<lparr>ndist = d, node = y\<rparr>"] I(8) [OF that]
    by (auto simp: frontier_def)
  obtain d where d: "dst ?u = Some d" "d \<le> ndist x" using I(9) [of x] pop_set [OF pop] by auto
  with least [OF d(1) x] show u: "dst ?u = Some (ndist x)" by simp
  have min: "minimal m B s ?u (ndist x)"
    unfolding minimal_def
  proof (intro allI impI)
    fix c ps assume "walk m B s ?u c ps"
    from walk_meets_frontier [OF wf inv this] x obtain y d where "dst y = Some d" "d \<le> c" "y \<notin> V" by auto
    with least show "ndist x \<le> c" by (meson order_trans)
  qed
  have f: "frontier m B s V (dst, prev, pq) ?u (ndist x)" by (rule I(8) [OF u x])
  have "\<exists>qs. chain prev s qs \<and> hd qs = ?u \<and> set qs \<subseteq> insert ?u V \<and> distinct qs \<and> walk m B s ?u (ndist x) (rev qs)"
  proof (cases "?u = s")
    case True
    then show ?thesis using u I(2,4) by (intro exI [of _ "[s]"]) (auto intro: walk.start)
  next
    case False
    with f obtain w e where w: "w \<in> V" "prev ?u = Some w" "(?u, e) \<in> set (Neighbors w m)"
      "ndist x = the (dst w) + weight e" "?u \<notin> B" by (auto simp: frontier_def)
    from I(6) [OF w(1)] obtain qs dw where qs: "dst w = Some dw" "chain prev s qs" "hd qs = w" "set qs \<subseteq> V"
      "distinct qs" "walk m B s w dw (rev qs)" by (auto simp: settled_def)
    have "qs \<noteq> []" using qs(2) by auto
    moreover have "walk m B s ?u (ndist x) (rev qs @ [?u])"
      using walk.step [OF qs(6) w(3,5)] w(4) qs(1) by simp
    ultimately show ?thesis
      using qs w x False Neighbors_wf(2) [OF wf w(3)] by (intro exI [of _ "?u # qs"]) auto
  qed
  with min show "settled m B s (insert ?u V) prev ?u (ndist x)" by (simp add: settled_def)
qed

lemma pop_unvisited:
  assumes wf: "wf_matrix m" and inv: "search_inv m B s V (out_edges m V) (dst, prev, pq)"
    and pop: "heap_Pop pq = (x, q)" "pq \<noteq> []" and x: "node x \<notin> V"
  shows "search_inv m B s (insert (node x) V) (out_edges m V) (dst, prev, q)"
proof -
  let ?W = "insert (node x) V"
  note I = search_invD [OF inv] and set = pop_set [OF pop]
  have "ordered (length q) q" using heap.pop_wf [of pq x q] I(1) pop by simp
  moreover have "frontier m B s ?W (dst, prev, q) v d" if "dst v = Some d" "v \<notin> ?W" for v d
    using I(8) [OF that(1)] set that(2) by (auto simp: frontier_def)
  moreover have "\<exists>d. dst u = Some d \<and> settled m B s ?W prev u d" if "u \<in> ?W" for u
    using pop_settles [OF assms] I(6) [of u] settled_mono [of m B s V prev u _ ?W] that by blast
  moreover have "out_edges m V \<subseteq> out_edges m ?W" by (auto simp: out_edges_def)
  ultimately show ?thesis using I(2-4,7,9) set unfolding search_inv_def by auto
qed

lemma relax_inv:
  assumes inv: "search_inv m B s V X S" and u: "u \<in> V" "(v, e) \<in> set (Neighbors u m)"
  shows "search_inv m B s V (insert (u, v, e) X) (relax B V u (v, e) S)"
proof -
  obtain dst prev pq where S: "S = (dst, prev, pq)" by (cases S)
  note I = search_invD [OF inv [unfolded S]]
  from I(6) [OF u(1)] obtain du qs where du: "dst u = Some du" "walk m B s u du (rev qs)"
    by (auto simp: settled_def)
  have sub: "insert (u, v, e) X \<subseteq> out_edges m V" using I(5) u by (auto simp: out_edges_def)
  show ?thesis
  proof (cases "v \<in> B \<or> v \<in> V \<or> (\<exists>d. dst v = Some d \<and> d \<le> du + weight e)")
    case True
    have "\<exists>d. dst v = Some d \<and> d \<le> the (dst u) + weight e" if "v \<notin> B"
    proof (cases "v \<in> V")
      case True
      then obtain dv where "dst v = Some dv" "minimal m B s v dv" using I(6) by (auto simp: settled_def)
      with walk.step [OF du(2) u(2) that] show ?thesis using du(1) by (auto simp: minimal_def)
    qed (use True that du in auto)
    moreover have "relax B V u (v, e) S = S"
      using True du by (auto simp: relax_def S split: option.splits)
    ultimately show ?thesis using inv sub unfolding search_inv_def S by auto
  next
    case False
    let ?d = "du + weight e"
    let ?dst = "dst(v \<mapsto> ?d)" and ?prev = "prev(v \<mapsto> u)" and ?pq = "heap_Push pq \<lparr>ndist = ?d, node = v\<rparr>"
    have r: "relax B V u (v, e) S = (?dst, ?prev, ?pq)"
      using False du by (auto simp: relax_def S Let_def split: option.splits)
    have set: "set ?pq = insert \<lparr>ndist = ?d, node = v\<rparr> (set pq)"
      using heap.push_content by (metis set_mset_add_mset_insert set_mset_mset)
    have "v \<noteq> s" using False source_visited [OF inv [unfolded S] u(1)] by auto
    moreover have "ordered (length ?pq) ?pq" using heap.push_wf I(1) by blast
    moreover have "\<exists>d. ?dst w = Some d \<and> settled m B s V ?prev w d" if "w \<in> V" for w
      using I(6) [OF that] settled_cong [of m B s V prev w _ ?prev] False that by (metis fun_upd_other)
    moreover have "\<exists>d. ?dst w = Some d \<and> d \<le> the (?dst x) + weight f"
      if "(x, w, f) \<in> insert (u, v, e) X" "w \<notin> B" for x w f
    proof -
      have "x \<noteq> v" using that(1) sub False by (auto simp: out_edges_def)
      moreover have "\<exists>d. dst w = Some d \<and> d \<le> the (dst x) + weight f" if "(x, w, f) \<in> X"
        using I(7) [OF that \<open>w \<notin> B\<close>] .
      ultimately show ?thesis using that du False by (auto simp: not_le)
    qed
    moreover have "frontier m B s V (?dst, ?prev, ?pq) w d" if "?dst w = Some d" "w \<notin> V" for w d
    proof (cases "w = v")
      case True
      then show ?thesis using that du u set False by (auto simp: frontier_def)
    next
      case wv: False
      then have "frontier m B s V (dst, prev, pq) w d" using I(8) that by simp
      moreover have "?dst x = dst x" if "x \<in> V" for x using that False by auto
      ultimately show ?thesis using wv set unfolding frontier_def by (auto simp: fun_upd_other)
    qed
    moreover have "\<exists>d. ?dst (node x) = Some d \<and> d \<le> ndist x" if "x \<in> set ?pq" for x
    proof (cases "x = \<lparr>ndist = ?d, node = v\<rparr>")
      case xv: False
      then show ?thesis using that set I(9) [of x] False by (cases "node x = v") (auto simp: not_le)
    qed simp
    ultimately show ?thesis unfolding r by (intro search_invI) (use I(2-4) sub in \<open>assumption | simp\<close>)+
  qed
qed

lemma relax_all_inv:
  "search_inv m B s V X S \<Longrightarrow> u \<in> V \<Longrightarrow> set es \<subseteq> set (Neighbors u m) \<Longrightarrow>
     search_inv m B s V (X \<union> (\<lambda>(v, e). (u, v, e)) ` set es) (fold (relax B V u) es S)"
proof (induction es arbitrary: X S)
  case (Cons ve es)
  obtain v e where ve: "ve = (v, e)" by fastforce
  have "search_inv m B s V (insert (u, v, e) X) (relax B V u (v, e) S)"
    using Cons.prems ve by (intro relax_inv) auto
  from Cons.IH [OF this] Cons.prems ve show ?case by simp
qed simp

lemma searchLoop_correct:
  "wf_matrix m \<Longrightarrow> search_inv m B s V (out_edges m V) S \<Longrightarrow> searchLoop m t B V S = (dst', prev', pq') \<Longrightarrow>
     case dst' t of
       None \<Rightarrow> \<not> (\<exists>c ps. walk m B s t c ps)
     | Some d \<Rightarrow> minimal m B s t d \<and> (\<exists>qs. chain prev' s qs \<and> hd qs = t \<and> distinct qs \<and> walk m B s t d (rev qs))"
proof (induction m t B V S rule: searchLoop.induct)
  case (1 m t B V dst prev pq)
  note wf = 1(3) and inv = 1(4) and res = 1(5)
  show ?case
  proof (cases "pq = []")
    case True
    then have r: "dst' = dst" "prev' = prev" using res by (simp_all add: searchLoop.simps)
    show ?thesis
    proof (cases "dst t")
      case None
      then show ?thesis
        using walk_meets_frontier [OF wf inv] search_invD(8) [OF inv] True r
        by (fastforce simp: frontier_def)
    next
      case (Some d)
      then have "t \<in> V" using search_invD(8) [OF inv Some] True by (auto simp: frontier_def)
      from search_invD(6) [OF inv this] show ?thesis using Some r by (auto simp: settled_def)
    qed
  next
    case False
    obtain x q where pop: "heap_Pop pq = (x, q)" by fastforce
    show ?thesis
    proof (cases "node x \<in> V")
      case True
      then show ?thesis
        using 1(1) [OF False pop [symmetric] refl refl True wf pop_visited [OF inv pop False True]] res False pop
        by (simp add: searchLoop.simps)
    next
      case nv: False
      note settle = pop_settles [OF wf inv pop False nv]
      show ?thesis
      proof (cases "node x = t")
        case True
        then have "dst' = dst" "prev' = prev" using res False pop nv by (simp_all add: searchLoop.simps)
        with True settle show ?thesis by (auto simp: settled_def)
      next
        case nt: False
        let ?W = "insert (node x) V"
        have "out_edges m V \<union> (\<lambda>(v, e). (node x, v, e)) ` set (Neighbors (node x) m) = out_edges m ?W"
          by (auto simp: out_edges_def)
        with relax_all_inv [OF pop_unvisited [OF wf inv pop False nv], of "node x" "Neighbors (node x) m"]
        have "search_inv m B s ?W (out_edges m ?W) (fold (relax B ?W (node x)) (Neighbors (node x) m) (dst, prev, q))"
          by simp
        from 1(2) [OF False pop [symmetric] refl refl nv nt wf this] res False pop nv nt
        show ?thesis by (simp add: searchLoop.simps Let_def)
      qed
    qed
  qed
qed

lemma search_inv_start:
  assumes "s \<notin> B" "s \<noteq> []"
  shows "search_inv m B s {} (out_edges m {}) ([s \<mapsto> 0], Map.empty, heap_Push [] \<lparr>ndist = 0, node = s\<rparr>)"
proof -
  have "set (heap_Push [] \<lparr>ndist = 0, node = s\<rparr>) = {\<lparr>ndist = 0, node = s\<rparr>}"
    using heap.push_content [of "[]" "\<lparr>ndist = 0, node = s\<rparr>"] by (metis set_mset_add_mset_insert set_mset_mset list.set(1))
  moreover have "ordered (length (heap_Push [] \<lparr>ndist = 0, node = s\<rparr>)) (heap_Push [] \<lparr>ndist = 0, node = s\<rparr>)"
    by (rule heap.push_wf) (simp add: ordered_def)
  ultimately show ?thesis using assms by (intro search_invI) (auto simp: out_edges_def frontier_def split: if_splits)
qed

definition shortest :: "MeshLatencyMatrix \<Rightarrow> string set \<Rightarrow> string \<Rightarrow> string \<Rightarrow> string list \<Rightarrow> bool" where
  \<comment> \<open>a simple path around the blocked nodes that no other walk undercuts\<close>
  "shortest m B s t ps \<longleftrightarrow> s \<notin> B \<and> t \<notin> B \<and> distinct ps \<and> (\<exists>d. walk m B s t d ps \<and> minimal m B s t d)"

lemma ShortestPath_spec:
  assumes wf: "wf_matrix m" and s: "s \<noteq> []"
  shows "(\<exists>ps. ShortestPath m s t B = Some (Some ps) \<and> shortest m B s t ps) \<or>
    ShortestPath m s t B = Some None \<and> (s \<in> B \<or> t \<in> B \<or> \<not> (\<exists>c ps. walk m B s t c ps))"
proof (cases "s \<in> B \<or> t \<in> B")
  case True
  then show ?thesis by (auto simp: ShortestPath_def)
next
  case False
  obtain dst prev pq where r: "searchLoop m t B {} ([s \<mapsto> 0], Map.empty, heap_Push [] \<lparr>ndist = 0, node = s\<rparr>)
      = (dst, prev, pq)" by (metis prod_cases3)
  have c: "case dst t of None \<Rightarrow> \<not> (\<exists>c ps. walk m B s t c ps)
     | Some d \<Rightarrow> minimal m B s t d \<and> (\<exists>qs. chain prev s qs \<and> hd qs = t \<and> distinct qs \<and> walk m B s t d (rev qs))"
    using searchLoop_correct [OF wf search_inv_start r] False s by blast
  show ?thesis
  proof (cases "dst t")
    case None
    with c False r show ?thesis by (simp add: ShortestPath_def)
  next
    case (Some d)
    with c obtain qs where qs: "minimal m B s t d" "chain prev s qs" "hd qs = t" "distinct qs"
      "walk m B s t d (rev qs)" by auto
    have "pathTo prev s t [] = Some (rev qs)" using pathTo_chain [OF qs(2), of "[]"] qs(3) by simp
    with walk_ends [OF wf qs(5)] have "ShortestPath m s t B = Some (Some (rev qs))"
      using False r Some by (simp add: ShortestPath_def)
    with qs False show ?thesis by (auto simp: shortest_def)
  qed
qed

primrec disjoint_seq :: "MeshLatencyMatrix \<Rightarrow> string \<Rightarrow> string \<Rightarrow> string set \<Rightarrow> string list list \<Rightarrow> bool" where
  \<comment> \<open>each path is shortest around the relays of the paths before it\<close>
  "disjoint_seq m s t B [] = True"
| "disjoint_seq m s t B (p # ps) \<longleftrightarrow> shortest m B s t p \<and> disjoint_seq m s t (B \<union> set (relays_of p)) ps"

lemma disjointLoop_spec:
  assumes "wf_matrix m" "s \<noteq> []"
  shows "\<exists>qs. disjointLoop m s t k paths B = Some (paths @ qs) \<and> length qs \<le> k \<and> disjoint_seq m s t B qs"
proof (induction k arbitrary: paths B)
  case (Suc k)
  from ShortestPath_spec [OF assms, of t B] show ?case
  proof (elim disjE exE conjE)
    fix p assume p: "ShortestPath m s t B = Some (Some p)" "shortest m B s t p"
    obtain qs where "disjointLoop m s t k (paths @ [p]) (B \<union> set (relays_of p)) = Some ((paths @ [p]) @ qs)"
      "length qs \<le> k" "disjoint_seq m s t (B \<union> set (relays_of p)) qs" using Suc.IH by blast
    with p show ?thesis by (intro exI [of _ "p # qs"]) simp
  qed auto
qed simp

lemma set_relays_of: "set (relays_of p) \<subseteq> set (tl p)"
  by (auto simp: relays_of_def dest: in_set_butlastD)

lemma walk_avoids: "walk m B s t d ps \<Longrightarrow> set (tl ps) \<inter> B = {}"
proof (induction rule: walk.induct)
  case (step u d ps v e)
  then show ?case by (cases ps) auto
qed simp

lemma disjoint_seq_avoids: "disjoint_seq m s t B ps \<Longrightarrow> p \<in> set ps \<Longrightarrow> set (relays_of p) \<inter> B = {}"
proof (induction ps arbitrary: B)
  case (Cons q ps)
  then show ?case using walk_avoids set_relays_of by (fastforce simp: shortest_def)
qed simp

lemma disjoint_seq_distinct:
  "disjoint_seq m s t B ps \<Longrightarrow> distinct (concat (map (\<lambda>p. remdups (relays_of p)) ps))"
proof (induction ps arbitrary: B)
  case (Cons p ps)
  have "set (relays_of q) \<inter> set (relays_of p) = {}" if "q \<in> set ps" for q
    using disjoint_seq_avoids [of m s t _ ps q] Cons.prems that by fastforce
  with Cons show ?case by fastforce
qed simp

lemma filter_eq_distinct: "distinct xs \<Longrightarrow> length (filter ((=) x) xs) \<le> 1"
  by (induction xs) (auto simp: filter_empty_conv)

lemma KShortestDisjointPaths_spec:
  assumes "wf_matrix m" "s \<noteq> []"
  shows "KShortestDisjointPaths m s t k = Some (Inl ErrNoPaths) \<or>
    (\<exists>ps. KShortestDisjointPaths m s t k = Some (Inr ps) \<and> length ps = k \<and> disjoint_seq m s t {} ps)"
proof -
  obtain qs where qs: "disjointLoop m s t k [] {} = Some qs" "length qs \<le> k" "disjoint_seq m s t {} qs"
    using disjointLoop_spec [OF assms, of t k "[]" "{}"] by auto
  let ?r = "concat (map (\<lambda>p. remdups (relays_of p)) qs)"
  have "length (filter ((=) x) ?r) \<le> 1" for x
    by (rule filter_eq_distinct) (rule disjoint_seq_distinct [OF qs(3)])
  then have "\<not> (\<exists>x\<in>set ?r. 1 < length (filter ((=) x) ?r))" by (meson leD)
  with qs show ?thesis by (auto simp: KShortestDisjointPaths_def Let_def)
qed

text \<open>
  When the direct link is the shortest path it has no relay to block, so every further path is the
  same link again.
\<close>

lemma direct_path_repeated:
  assumes "ShortestPath m s t {} = Some (Some [s, t])"
  shows "KShortestDisjointPaths m s t k = Some (Inr (replicate k [s, t]))"
proof -
  have "disjointLoop m s t k paths {} = Some (paths @ replicate k [s, t])" for paths
    using assms by (induction k arbitrary: paths) (simp_all add: relays_of_def replicate_append_same)
  moreover have "concat (map (\<lambda>p. remdups (relays_of p)) (replicate k [s, t])) = []"
    by (simp add: relays_of_def)
  ultimately show ?thesis by (simp add: KShortestDisjointPaths_def)
qed

section \<open>Properties\<close>

text \<open>
  C10. The path search is Dijkstra's algorithm: on a matrix without negative round-trip times it
  always returns; a path it returns is a simple walk around the blocked nodes whose total latency
  no other walk undercuts; it returns nil only when an end is blocked or no walk exists.
\<close>

theorem shortest_path_correct:
  assumes "wf_matrix m" "source \<noteq> []"
  shows "\<exists>r. ShortestPath m source target blocked = Some r \<and>
    (case r of
       None \<Rightarrow> source \<in> blocked \<or> target \<in> blocked \<or> \<not> (\<exists>c ps. walk m blocked source target c ps)
     | Some ps \<Rightarrow> distinct ps \<and> source \<notin> blocked \<and> target \<notin> blocked \<and>
         (\<exists>d. walk m blocked source target d ps \<and> (\<forall>c qs. walk m blocked source target c qs \<longrightarrow> d \<le> c)))"
  using ShortestPath_spec [OF assms, of target blocked] by (auto simp: shortest_def minimal_def)

definition link :: "string \<Rightarrow> string \<Rightarrow> rat \<Rightarrow> LatencyEdge" where
  "link u v w = \<lparr>le_Source = u, le_Target = v, RTTms = w, BandwidthBps = 0, MeasuredAt = 0, SourceType = EdgeProbe\<rparr>"

definition diamond :: MeshLatencyMatrix where
  \<comment> \<open>two disjoint routes exist, but the shortest route runs through both relays\<close>
  "diamond = MergeEdges 0 [link ''s'' ''a'' 1, link ''a'' ''b'' 1, link ''b'' ''t'' 1,
     link ''s'' ''b'' 10, link ''a'' ''t'' 10] NewMeshLatencyMatrix"

lemma wf_diamond: "wf_matrix diamond"
  by code_simp

theorem shortest_path_correct_witness:
  "\<exists>r. ShortestPath diamond ''s'' ''t'' {} = Some r \<and>
    (case r of
       None \<Rightarrow> \<not> (\<exists>c ps. walk diamond {} ''s'' ''t'' c ps)
     | Some ps \<Rightarrow> distinct ps \<and>
         (\<exists>d. walk diamond {} ''s'' ''t'' d ps \<and> (\<forall>c qs. walk diamond {} ''s'' ''t'' c qs \<longrightarrow> d \<le> c)))"
  using shortest_path_correct [OF wf_diamond, of "''s''" "''t''" "{}"]
  by (simp cong: option.case_cong)



text \<open>
  The selection is greedy and can miss: on the diamond network, where the routes over \<open>a\<close> and
  over \<open>b\<close> are disjoint, blocking the relays of the shortest route leaves none, and two paths are
  refused with \<open>ErrNoPaths\<close>.
\<close>

lemma greedy_selection_misses:
  "KShortestDisjointPaths diamond ''s'' ''t'' 2 = Some (Inl ErrNoPaths) \<and>
   walk diamond {} ''s'' ''t'' 11 [''s'', ''a'', ''t''] \<and> walk diamond {} ''s'' ''t'' 11 [''s'', ''b'', ''t''] \<and>
   \<not> PathsHaveOverlap [''s'', ''a'', ''t''] [''s'', ''b'', ''t'']"
proof (intro conjI)
  show "KShortestDisjointPaths diamond ''s'' ''t'' 2 = Some (Inl ErrNoPaths)"
    by code_simp
  have n: "Neighbors ''s'' diamond = [(''a'', link ''s'' ''a'' 1), (''b'', link ''s'' ''b'' 10)]"
    "(''t'', link ''a'' ''t'' 10) \<in> set (Neighbors ''a'' diamond)"
    "(''t'', link ''b'' ''t'' 1) \<in> set (Neighbors ''b'' diamond)"
    by code_simp+
  show "walk diamond {} ''s'' ''t'' 11 [''s'', ''a'', ''t'']"
    using walk.step [OF walk.step [OF walk.start, of "''a''" "link ''s'' ''a'' 1"] n(2)] n(1)
    by (simp add: weight_def link_def)
  show "walk diamond {} ''s'' ''t'' 11 [''s'', ''b'', ''t'']"
    using walk.step [OF walk.step [OF walk.start, of "''b''" "link ''s'' ''b'' 10"] n(3)] n(1)
    by (simp add: weight_def link_def)
  show "\<not> PathsHaveOverlap [''s'', ''a'', ''t''] [''s'', ''b'', ''t'']"
    by (simp add: PathsHaveOverlap_def relays_of_def)
qed

end
