(* ===== verification/Circuit_Manager.thy ===== *)
theory Circuit_Manager
  imports Latency_Graph Path_Selector
begin

text \<open>
  The circuit manager (\<open>internal/proxy/circuit_manager.go\<close>): paths and their health, the chunk
  assignment strategies, and the life cycle of circuits. Circuits are heap objects: \<open>objs\<close> holds
  every circuit ever allocated and the maps hold indices into it, as the code holds pointers. A
  method is one step under its locks; the teardown goroutines and the flush timer are pending
  tasks, and the two critical sections of \<open>CreateCircuit\<close> are separate operations.
\<close>

section \<open>Paths of a circuit\<close>

datatype CircuitState = CircuitCreating | CircuitActive | CircuitTeardown | CircuitClosed
datatype PathHealthState = PathHealthHealthy | PathHealthDegraded | PathHealthUnhealthy

record CircuitPath =
  Index :: int
  Hops :: "string list"
  cp_RelayKeys :: "bytes list"
  TotalChunks :: u64
  TotalBytes :: u64
  LastRTT :: int
  Health :: PathHealthState
  MissedKeepalives :: int
  EstablishedAt :: int

definition Healthy :: "CircuitPath \<Rightarrow> bool" where
  "Healthy p \<longleftrightarrow> Health p \<noteq> PathHealthUnhealthy"

definition RecordChunk :: "nat \<Rightarrow> CircuitPath \<Rightarrow> CircuitPath" where
  "RecordChunk byteCount p = p\<lparr>TotalChunks := TotalChunks p + 1, TotalBytes := TotalBytes p + of_nat byteCount\<rparr>"

definition RecordRTT :: "int \<Rightarrow> CircuitPath \<Rightarrow> CircuitPath" where
  "RecordRTT rtt p = p\<lparr>LastRTT := rtt, MissedKeepalives := 0, Health := PathHealthHealthy\<rparr>"

definition path_MissKeepalive :: "CircuitPath \<Rightarrow> CircuitPath" where
  "path_MissKeepalive p =
     (let p = p\<lparr>MissedKeepalives := MissedKeepalives p + 1\<rparr>
      in if MissedKeepalives p \<ge> 4 then p\<lparr>Health := PathHealthUnhealthy\<rparr>
         else if MissedKeepalives p \<ge> 2 then p\<lparr>Health := PathHealthDegraded\<rparr>
         else p)"

definition zeros :: "bytes \<Rightarrow> bytes" where
  "zeros bs = map (\<lambda>_. 0) bs"

definition path_ZeroKeys :: "CircuitPath \<Rightarrow> CircuitPath" where
  "path_ZeroKeys p = p\<lparr>cp_RelayKeys := map zeros (cp_RelayKeys p)\<rparr>"

section \<open>Circuits\<close>

datatype ChunkAssignmentStrategy = RoundRobinStrategy | WeightedStrategy | FastestOnlyStrategy

record Circuit =
  c_ID :: bytes
  State :: CircuitState
  CreatedAt :: int
  LastActivity :: int
  c_Entry :: string
  c_Exit :: string
  TargetAddr :: string
  E2EKey :: bytes
  c_PaddingSeed :: bytes
  Paths :: "CircuitPath option \<times> CircuitPath option"  \<comment> \<open>the array of two pointers\<close>
  AssignmentStrategy :: ChunkAssignmentStrategy
  KeepaliveInterval :: int
  IdleTimeout :: int
  nextPathIndex :: int

datatype cm_error =
    ErrCircuitNotFound | ErrInvalidCircuitState CircuitState | Rejected bytes | ErrTooManyCircuits
  | SelectNoPaths | SelectOverlap | GraphPathTooShort | RandomFailed | ProbeFailed select_error
  | InvalidPathIndex int | PathIsNil int

definition the_path :: "CircuitPath option \<Rightarrow> ('e, CircuitPath) res" where
  \<comment> \<open>a method call on a path pointer panics when it is nil\<close>
  "the_path p = (case p of None \<Rightarrow> Inl Panic | Some q \<Rightarrow> ok q)"

definition both_paths :: "Circuit \<Rightarrow> (CircuitPath \<Rightarrow> CircuitPath \<Rightarrow> ('e, 'a) res) \<Rightarrow> ('e, 'a) res" where
  "both_paths c f = and_then (the_path (fst (Paths c))) (\<lambda>p0. and_then (the_path (snd (Paths c))) (f p0))"

definition roundRobin_AssignPath :: "Circuit \<Rightarrow> int \<Rightarrow> ('e, int) res" where
  "roundRobin_AssignPath c callCount =
     both_paths c (\<lambda>p0 p1.
       ok (if \<not> Healthy p0 \<and> Healthy p1 then 1
           else if \<not> Healthy p1 \<and> Healthy p0 then 0
           else callCount mod 2))"

definition weighted_AssignPath :: "rat \<Rightarrow> Circuit \<Rightarrow> int \<Rightarrow> ('e, int) res" where
  \<comment> \<open>\<open>rnd\<close> is the draw of \<open>cryptoRandFloat\<close>, in \<open>[0, 1)\<close>\<close>
  "weighted_AssignPath rnd c callCount =
     both_paths c (\<lambda>p0 p1.
       ok (if \<not> Healthy p0 \<and> Healthy p1 then 1
           else if \<not> Healthy p1 \<and> Healthy p0 then 0
           else if \<not> Healthy p0 \<and> \<not> Healthy p1 then callCount mod 2
           else let rttA = LastRTT p0; rttB = LastRTT p1
                in if rttA = 0 \<and> rttB = 0 then callCount mod 2
                   else let rttA = (if rttA = 0 then rttB else rttA);
                            rttB = (if rttB = 0 then rttA else rttB);
                            weightA = of_int rttB / of_int (rttA + rttB)
                        in if rnd < weightA then 0 else 1))"

definition fastestOnly_AssignPath :: "Circuit \<Rightarrow> int \<Rightarrow> ('e, int) res" where
  "fastestOnly_AssignPath c callCount =
     both_paths c (\<lambda>p0 p1.
       ok (if \<not> Healthy p0 \<and> Healthy p1 then 1
           else if \<not> Healthy p1 \<and> Healthy p0 then 0
           else let rttA = LastRTT p0; rttB = LastRTT p1
                in if rttA = 0 \<and> rttB = 0 then callCount mod 2
                   else if rttA = 0 then 1
                   else if rttB = 0 then 0
                   else if rttA \<le> rttB then 0 else 1))"

fun strategy_AssignPath :: "rat \<Rightarrow> ChunkAssignmentStrategy \<Rightarrow> Circuit \<Rightarrow> int \<Rightarrow> ('e, int) res" where
  "strategy_AssignPath rnd RoundRobinStrategy c n = roundRobin_AssignPath c n"
| "strategy_AssignPath rnd WeightedStrategy c n = weighted_AssignPath rnd c n"
| "strategy_AssignPath rnd FastestOnlyStrategy c n = fastestOnly_AssignPath c n"

definition NewChunkAssignmentStrategy :: "string \<Rightarrow> ChunkAssignmentStrategy" where
  "NewChunkAssignmentStrategy name =
     (if name = ''weighted'' then WeightedStrategy
      else if name = ''fastest-only'' then FastestOnlyStrategy else RoundRobinStrategy)"

definition UpdateActivity :: "int \<Rightarrow> Circuit \<Rightarrow> Circuit" where
  "UpdateActivity now c = c\<lparr>LastActivity := now\<rparr>"

definition IsIdle :: "int \<Rightarrow> Circuit \<Rightarrow> bool" where
  "IsIdle now c \<longleftrightarrow> now - LastActivity c > IdleTimeout c"

definition BothPathsUnhealthy :: "Circuit \<Rightarrow> ('e, bool) res" where
  \<comment> \<open>\<open>&&\<close> reads the second path only when the first is unhealthy\<close>
  "BothPathsUnhealthy c =
     and_then (the_path (fst (Paths c))) (\<lambda>p0.
       if Healthy p0 then ok False
       else and_then (the_path (snd (Paths c))) (\<lambda>p1. ok (\<not> Healthy p1)))"

definition circuit_AssignPath :: "rat \<Rightarrow> Circuit \<Rightarrow> (cm_error, int) res \<times> Circuit" where
  "circuit_AssignPath rnd c =
     (let idx = nextPathIndex c; c = c\<lparr>nextPathIndex := idx + 1\<rparr>
      in (strategy_AssignPath rnd (AssignmentStrategy c) c idx, c))"

definition ZeroKeys :: "Circuit \<Rightarrow> Circuit" where
  "ZeroKeys c =
     c\<lparr>E2EKey := zeros (E2EKey c), c_PaddingSeed := zeros (c_PaddingSeed c),
       Paths := map_prod (map_option path_ZeroKeys) (map_option path_ZeroKeys) (Paths c)\<rparr>"

definition KeysZeroed :: "Circuit \<Rightarrow> bool" where
  "KeysZeroed c \<longleftrightarrow> list_all (\<lambda>b. b = 0) (E2EKey c) \<and> list_all (\<lambda>b. b = 0) (c_PaddingSeed c)"

record PathInfo =
  pi_Hops :: "string list"
  LatencyMs :: int
  pi_Chunks :: u64
  pi_Healthy :: bool

record CircuitInfo =
  ci_ID :: bytes
  ci_State :: string
  ci_Entry :: string
  ci_Exit :: string
  ci_Target :: string
  ci_Paths :: "PathInfo list"
  AgeSeconds :: int
  BytesDispatched :: u64

fun circuitStateName :: "CircuitState \<Rightarrow> string" where
  "circuitStateName CircuitCreating = ''creating''"
| "circuitStateName CircuitActive = ''active''"
| "circuitStateName CircuitTeardown = ''teardown''"
| "circuitStateName CircuitClosed = ''closed''"

definition path_list :: "Circuit \<Rightarrow> CircuitPath list" where
  \<comment> \<open>the loops over \<open>c.Paths\<close> skip nil pointers\<close>
  "path_list c = (case fst (Paths c) of None \<Rightarrow> [] | Some p \<Rightarrow> [p]) @ (case snd (Paths c) of None \<Rightarrow> [] | Some p \<Rightarrow> [p])"

definition ToInfo :: "int \<Rightarrow> Circuit \<Rightarrow> CircuitInfo" where
  \<comment> \<open>the identifier is kept as bytes; the code prints it in hexadecimal\<close>
  "ToInfo now c =
     \<lparr>ci_ID = c_ID c, ci_State = circuitStateName (State c), ci_Entry = c_Entry c, ci_Exit = c_Exit c,
      ci_Target = TargetAddr c,
      ci_Paths = map (\<lambda>p. \<lparr>pi_Hops = Hops p, LatencyMs = go_quot (LastRTT p) (10 ^ 6),
                            pi_Chunks = TotalChunks p, pi_Healthy = (Health p \<noteq> PathHealthUnhealthy)\<rparr>) (path_list c),
      AgeSeconds = go_quot (now - CreatedAt c) (10 ^ 9),
      BytesDispatched = fold (\<lambda>p n. n + TotalChunks p) (path_list c) 0\<rparr>"

section \<open>The manager\<close>

datatype CircuitEventType =
    EventCircuitCreated | EventCircuitEstablished | EventCircuitTeardownInitiated | EventCircuitClosed
  | EventPathDegraded | EventPathRestored | EventPathUnhealthy | EventKeepaliveTimeout | EventNACKReceived

datatype event_data = NoData | Reason bytes | PathIdx int

record CircuitEvent =
  ev_Type :: CircuitEventType
  ev_CircuitID :: bytes
  ev_Timestamp :: int
  ev_Data :: event_data

record CircuitStats =
  TotalCreated :: u64
  TotalClosed :: u64
  Active :: int
  TearingDown :: int
  TotalChunksDispatched :: u64
  TotalBytesDispatched :: u64

record CircuitManagerConfig =
  cm_PathCount :: int
  SelectionStrategy :: string
  cm_MaxCandidates :: int
  cm_ProbeTimeout :: int
  cm_MinCandidates :: int
  ChunkAssignment :: string
  SetupTimeout :: int
  cm_IdleTimeout :: int
  cm_KeepaliveInterval :: int
  FlushTimeout :: int
  MaxCircuitsPerExit :: int
  MaxCircuitsTotal :: int

datatype task =
    TeardownTask bytes bytes  \<comment> \<open>\<open>go cm.TeardownCircuit(cid, reason, nil)\<close>\<close>
  | FlushTask bytes bytes  \<comment> \<open>a teardown that waits for its flush timer\<close>

record CircuitManager =
  cm_cfg :: CircuitManagerConfig
  matrix :: MeshLatencyMatrix
  probe :: PathSelector
  objs :: "Circuit list"  \<comment> \<open>the heap of circuits\<close>
  circuits :: "(bytes \<times> nat) list"
  circuitsByExit :: "(string \<times> bytes list) list"
  stats :: CircuitStats
  eventCb :: bool  \<comment> \<open>whether a callback is registered\<close>
  events :: "CircuitEvent list"  \<comment> \<open>the calls of the callback, in order\<close>
  tasks :: "task list"

definition DefaultCircuitManagerConfig :: CircuitManagerConfig where
  "DefaultCircuitManagerConfig =
     \<lparr>cm_PathCount = 2, SelectionStrategy = ''auto'', cm_MaxCandidates = 10, cm_ProbeTimeout = 3 * 10 ^ 9,
      cm_MinCandidates = 2, ChunkAssignment = ''round-robin'', SetupTimeout = 10 * 10 ^ 9,
      cm_IdleTimeout = 5 * 60 * 10 ^ 9, cm_KeepaliveInterval = 30 * 10 ^ 9, FlushTimeout = 10 * 10 ^ 9,
      MaxCircuitsPerExit = 1024, MaxCircuitsTotal = 4096\<rparr>"

definition NewCircuitManager :: "(string \<Rightarrow> int \<times> probe_error option) \<Rightarrow> CircuitManagerConfig \<Rightarrow> CircuitManager" where
  "NewCircuitManager dial c =
     (let c = (if cm_PathCount c \<le> 0 then c\<lparr>cm_PathCount := 2\<rparr> else c);
          c = (if cm_MinCandidates c \<le> 0 then c\<lparr>cm_MinCandidates := 2\<rparr> else c);
          c = (if cm_MaxCandidates c \<le> 0 then c\<lparr>cm_MaxCandidates := 10\<rparr> else c);
          c = (if ChunkAssignment c = [] then c\<lparr>ChunkAssignment := ''round-robin''\<rparr> else c);
          c = (if SelectionStrategy c = [] then c\<lparr>SelectionStrategy := ''auto''\<rparr> else c);
          probeCfg = \<lparr>MaxRelaysPerPath = 2, ProbeTimeout = cm_ProbeTimeout c, ProbeConcurrency = 8,
            MinCandidates = cm_MinCandidates c, MaxCandidates = cm_MaxCandidates c,
            PathCount = cm_PathCount c, DialFunc = dial\<rparr>
      in \<lparr>cm_cfg = c, matrix = NewMeshLatencyMatrix, probe = NewPathSelector probeCfg, objs = [], circuits = [],
          circuitsByExit = [], stats = \<lparr>TotalCreated = 0, TotalClosed = 0, Active = 0, TearingDown = 0,
            TotalChunksDispatched = 0, TotalBytesDispatched = 0\<rparr>, eventCb = False, events = [], tasks = []\<rparr>)"

definition UpdateLatencyMatrix :: "int \<Rightarrow> LatencyEdge list \<Rightarrow> CircuitManager \<Rightarrow> CircuitManager" where
  "UpdateLatencyMatrix now es cm = cm\<lparr>matrix := MergeEdges now es (matrix cm)\<rparr>"

definition OnCircuitEvent :: "CircuitManager \<Rightarrow> CircuitManager" where
  "OnCircuitEvent cm = cm\<lparr>eventCb := True\<rparr>"

definition emitEvent :: "int \<Rightarrow> CircuitEventType \<Rightarrow> bytes \<Rightarrow> event_data \<Rightarrow> CircuitManager \<Rightarrow> CircuitManager" where
  "emitEvent now typ cid dat cm =
     (if eventCb cm
      then cm\<lparr>events := events cm @ [\<lparr>ev_Type = typ, ev_CircuitID = cid, ev_Timestamp = now, ev_Data = dat\<rparr>]\<rparr>
      else cm)"

definition upd :: "nat \<Rightarrow> (Circuit \<Rightarrow> Circuit) \<Rightarrow> CircuitManager \<Rightarrow> CircuitManager" where
  \<comment> \<open>a write through a circuit pointer\<close>
  "upd p f cm = cm\<lparr>objs := (objs cm)[p := f (objs cm ! p)]\<rparr>"

section \<open>Creating circuits\<close>

primrec drawKeys :: "nat \<Rightarrow> bytes \<Rightarrow> (cm_error, bytes list \<times> bytes) res" where
  "drawKeys 0 rnd = ok ([], rnd)"
| "drawKeys (Suc n) rnd =
     (if KeySize \<le> length rnd
      then and_then (drawKeys n (drop KeySize rnd)) (\<lambda>(keys, rnd'). ok (take KeySize rnd # keys, rnd'))
      else err RandomFailed)"

definition graphPathToProxyPath :: "bytes \<Rightarrow> string list \<Rightarrow> (cm_error, Path \<times> bytes) res" where
  "graphPathToProxyPath rnd graphPath =
     guard (length graphPath < 2) GraphPathTooShort
     (let relays = relays_of graphPath
      in and_then (drawKeys (length relays) rnd) (\<lambda>(keys, rnd). ok (\<lparr>Relays = relays, RelayKeys = keys\<rparr>, rnd)))"

primrec graphPaths :: "bytes \<Rightarrow> string list list \<Rightarrow> (cm_error, Path list) res" where
  "graphPaths rnd [] = ok []"
| "graphPaths rnd (p # ps) =
     and_then (graphPathToProxyPath rnd p) (\<lambda>(q, rnd).
     and_then (graphPaths rnd ps) (\<lambda>qs. ok (q # qs)))"

definition probePaths ::
    "int \<Rightarrow> bytes \<Rightarrow> CandidateRelay list \<Rightarrow> CircuitManager \<Rightarrow> (cm_error, Path list) res \<times> CircuitManager" where
  \<comment> \<open>the probe-based fallback\<close>
  "probePaths now rnd candidates cm =
     (if int (length candidates) < cm_MinCandidates (cm_cfg cm) then (err SelectNoPaths, cm)
      else let (r, ps) = ps_SelectPaths now rnd candidates (probe cm)
           in ((case r of
                  Inl Panic \<Rightarrow> Inl Panic
                | Inl (Err e) \<Rightarrow> err (ProbeFailed e)
                | Inr (p1, p2) \<Rightarrow> ok [p1, p2]), cm\<lparr>probe := ps\<rparr>))"

definition useBFS :: "string \<Rightarrow> CircuitManager \<Rightarrow> bool" where
  "useBFS entryID cm =
     (if SelectionStrategy (cm_cfg cm) = ''bfs'' then True
      else if SelectionStrategy (cm_cfg cm) = ''probe'' then False
      else SelectionStrategy (cm_cfg cm) = ''auto'' \<and>
           int (RelayCountWithRTT entryID (matrix cm)) \<ge> cm_MinCandidates (cm_cfg cm))"

definition cm_selectPaths ::
    "int \<Rightarrow> bytes \<Rightarrow> string \<Rightarrow> string \<Rightarrow> CandidateRelay list \<Rightarrow> CircuitManager \<Rightarrow>
     ((cm_error, Path list) res \<times> CircuitManager) option" where
  \<comment> \<open>\<open>None\<close> when the path search does not return\<close>
  "cm_selectPaths now rnd entryID exitID candidates cm =
     (if useBFS entryID cm
      then Option.bind (KShortestDisjointPaths (matrix cm) entryID exitID (nat (cm_PathCount (cm_cfg cm)))) (\<lambda>r.
             case r of
               Inr paths \<Rightarrow>
                 Some (and_then (graphPaths rnd paths) (\<lambda>ps.
                         guard (length ps \<ge> 2 \<and> HasOverlap (ps ! 0) (ps ! 1)) SelectOverlap (ok ps)), cm)
             | Inl e \<Rightarrow>
                 if SelectionStrategy (cm_cfg cm) \<noteq> ''auto''
                 then Some (err (case e of ErrNoPaths \<Rightarrow> SelectNoPaths | ErrPathOverlap \<Rightarrow> SelectOverlap), cm)
                 else Some (probePaths now rnd candidates cm))
      else Some (probePaths now rnd candidates cm))"

definition checkLimits :: "string \<Rightarrow> CircuitManager \<Rightarrow> bool" where
  \<comment> \<open>the first critical section of \<open>CreateCircuit\<close>\<close>
  "checkLimits exitID cm \<longleftrightarrow>
     int (length (circuits cm)) < MaxCircuitsTotal (cm_cfg cm) \<and>
     int (length (case map_of (circuitsByExit cm) exitID of None \<Rightarrow> [] | Some l \<Rightarrow> l)) < MaxCircuitsPerExit (cm_cfg cm)"

definition newCircuitPath :: "int \<Rightarrow> int \<Rightarrow> Path \<Rightarrow> CircuitPath" where
  "newCircuitPath now i p =
     \<lparr>Index = i, Hops = Relays p, cp_RelayKeys = RelayKeys p, TotalChunks = 0, TotalBytes = 0, LastRTT = 0,
      Health = PathHealthHealthy, MissedKeepalives = 0, EstablishedAt = now\<rparr>"

definition newCircuit ::
    "int \<Rightarrow> CircuitManagerConfig \<Rightarrow> bytes \<Rightarrow> bytes \<Rightarrow> bytes \<Rightarrow> string \<Rightarrow> string \<Rightarrow> string \<Rightarrow> Path list \<Rightarrow> Circuit" where
  "newCircuit now c cid e2eKey seed targetAddr entryID exitID paths =
     \<lparr>c_ID = cid, State = CircuitCreating, CreatedAt = now, LastActivity = now, c_Entry = entryID,
      c_Exit = exitID, TargetAddr = targetAddr, E2EKey = e2eKey, c_PaddingSeed = seed,
      Paths = (if length paths > 0 then Some (newCircuitPath now 0 (paths ! 0)) else None,
               if length paths > 1 then Some (newCircuitPath now 1 (paths ! 1)) else None),
      AssignmentStrategy = NewChunkAssignmentStrategy (ChunkAssignment c),
      KeepaliveInterval = cm_KeepaliveInterval c, IdleTimeout = cm_IdleTimeout c, nextPathIndex = 0\<rparr>"

definition storeCircuit :: "Circuit \<Rightarrow> CircuitManager \<Rightarrow> CircuitManager" where
  \<comment> \<open>the second critical section of \<open>CreateCircuit\<close>\<close>
  "storeCircuit c cm =
     (let p = length (objs cm);
          l = (case map_of (circuitsByExit cm) (c_Exit c) of None \<Rightarrow> [] | Some l \<Rightarrow> l)
      in cm\<lparr>objs := objs cm @ [c], circuits := AList.update (c_ID c) p (circuits cm),
            circuitsByExit := AList.update (c_Exit c) (l @ [c_ID c]) (circuitsByExit cm),
            stats := (stats cm)\<lparr>TotalCreated := TotalCreated (stats cm) + 1, Active := Active (stats cm) + 1\<rparr>\<rparr>)"

definition drawBytes :: "nat \<Rightarrow> bytes \<Rightarrow> (cm_error, bytes \<times> bytes) res" where
  "drawBytes n rnd = (if n \<le> length rnd then ok (take n rnd, drop n rnd) else err RandomFailed)"

definition CreateCircuit ::
    "int \<Rightarrow> bytes \<Rightarrow> bytes \<Rightarrow> string \<Rightarrow> string \<Rightarrow> string \<Rightarrow> CandidateRelay list \<Rightarrow> CircuitManager \<Rightarrow>
     ((cm_error, bytes) res \<times> CircuitManager) option" where
  \<comment> \<open>without other calls between its critical sections; \<open>rndKeys\<close> is what the path selection
    draws from \<open>crypto/rand\<close>, \<open>rnd\<close> what is drawn after it\<close>
  "CreateCircuit now rndKeys rnd targetAddr entryID exitID candidates cm =
     (if \<not> checkLimits exitID cm then Some (err ErrTooManyCircuits, cm)
      else Option.bind (cm_selectPaths now rndKeys entryID exitID candidates cm) (\<lambda>(r, cm).
           let built = and_then r (\<lambda>paths.
                 and_then (drawBytes CircuitIDSize rnd) (\<lambda>(cid, rnd).
                 and_then (drawBytes KeySize rnd) (\<lambda>(e2eKey, rnd).
                 and_then (drawBytes 32 rnd) (\<lambda>(seed, rnd).
                 ok (newCircuit now (cm_cfg cm) cid e2eKey seed targetAddr entryID exitID paths)))))
           in case built of
                Inl e \<Rightarrow> Some (Inl e, cm)
              | Inr c \<Rightarrow> Some (ok (c_ID c), emitEvent now EventCircuitCreated (c_ID c) NoData (storeCircuit c cm))))"

section \<open>The life cycle\<close>

definition removeCircuit :: "bytes \<Rightarrow> CircuitManager \<Rightarrow> CircuitManager" where
  "removeCircuit cid cm =
     (case map_of (circuits cm) cid of
        None \<Rightarrow> cm
      | Some p \<Rightarrow>
          let c = objs cm ! p;
              exitList = (case map_of (circuitsByExit cm) (c_Exit c) of None \<Rightarrow> [] | Some l \<Rightarrow> l);
              byExit = (if cid \<in> set exitList
                        then AList.update (c_Exit c) (remove1 cid exitList) (circuitsByExit cm)
                        else circuitsByExit cm);
              byExit = (if (case map_of byExit (c_Exit c) of None \<Rightarrow> [] | Some l \<Rightarrow> l) = []
                        then AList.delete (c_Exit c) byExit else byExit);
              st = (stats cm)\<lparr>TotalClosed := TotalClosed (stats cm) + 1\<rparr>;
              st = (if State c = CircuitActive then st\<lparr>Active := Active st - 1\<rparr>
                    else if State c = CircuitTeardown then st\<lparr>TearingDown := TearingDown st - 1\<rparr>
                    else st);
              st = fold (\<lambda>p st. st\<lparr>TotalChunksDispatched := TotalChunksDispatched st + TotalChunks p,
                                     TotalBytesDispatched := TotalBytesDispatched st + TotalBytes p\<rparr>) (path_list c) st
          in cm\<lparr>circuits := AList.delete cid (circuits cm), circuitsByExit := byExit, stats := st\<rparr>)"

definition close_at :: "int \<Rightarrow> bytes \<Rightarrow> nat \<Rightarrow> bytes \<Rightarrow> CircuitManager \<Rightarrow> CircuitManager" where
  \<comment> \<open>state CLOSED, keys zeroed, removed, event: the tail every closing method has\<close>
  "close_at now cid p reason cm =
     (let cm = upd p (\<lambda>c. c\<lparr>State := CircuitClosed\<rparr>) cm;
          cm = upd p ZeroKeys cm;
          cm = removeCircuit cid cm
      in emitEvent now EventCircuitClosed cid (Reason reason) cm)"

definition closeCircuit :: "int \<Rightarrow> bytes \<Rightarrow> bytes \<Rightarrow> CircuitManager \<Rightarrow> (cm_error, unit) res \<times> CircuitManager" where
  "closeCircuit now cid reason cm =
     (case map_of (circuits cm) cid of
        None \<Rightarrow> (err ErrCircuitNotFound, cm)
      | Some p \<Rightarrow> (ok (), close_at now cid p reason cm))"

definition resetHealth :: "CircuitPath \<Rightarrow> CircuitPath" where
  "resetHealth p = p\<lparr>Health := PathHealthHealthy, MissedKeepalives := 0\<rparr>"

definition HandleCircuitAck :: "int \<Rightarrow> bytes \<Rightarrow> CircuitAck \<Rightarrow> CircuitManager \<Rightarrow> (cm_error, unit) res \<times> CircuitManager" where
  "HandleCircuitAck now cid ack cm =
     (case map_of (circuits cm) cid of
        None \<Rightarrow> (err ErrCircuitNotFound, cm)
      | Some p \<Rightarrow>
          if State (objs cm ! p) \<noteq> CircuitCreating then (err (ErrInvalidCircuitState (State (objs cm ! p))), cm)
          else if \<not> ca_Accepted ack then (err (Rejected (ca_Reason ack)), close_at now cid p (ca_Reason ack) cm)
          else (ok (), emitEvent now EventCircuitEstablished cid NoData
                 (upd p (\<lambda>c. c\<lparr>State := CircuitActive, LastActivity := now,
                    Paths := map_prod (map_option resetHealth) (map_option resetHealth) (Paths c)\<rparr>) cm)))"

definition HandleSetupTimeout :: "int \<Rightarrow> bytes \<Rightarrow> CircuitManager \<Rightarrow> (cm_error, unit) res \<times> CircuitManager" where
  "HandleSetupTimeout now cid cm =
     (case map_of (circuits cm) cid of
        None \<Rightarrow> (err ErrCircuitNotFound, cm)
      | Some p \<Rightarrow>
          if State (objs cm ! p) \<noteq> CircuitCreating then (ok (), cm)
          else (ok (), close_at now cid p (ascii ''setup timeout'') cm))"

definition beginTeardown :: "int \<Rightarrow> bytes \<Rightarrow> bytes \<Rightarrow> CircuitManager \<Rightarrow> (cm_error, bool) res \<times> CircuitManager" where
  \<comment> \<open>\<open>TeardownCircuit\<close> up to its flush timer, and the start of \<open>HandleTeardown\<close>: true when the
    circuit has entered TEARDOWN\<close>
  "beginTeardown now cid reason cm =
     (case map_of (circuits cm) cid of
        None \<Rightarrow> (err ErrCircuitNotFound, cm)
      | Some p \<Rightarrow>
          if State (objs cm ! p) = CircuitClosed \<or> State (objs cm ! p) = CircuitTeardown then (ok False, cm)
          else (ok True, emitEvent now EventCircuitTeardownInitiated cid (Reason reason)
                 (upd p (\<lambda>c. c\<lparr>State := CircuitTeardown\<rparr>) cm)))"

definition endMarkers :: "bytes \<Rightarrow> CircuitManager \<Rightarrow> nat list" where
  \<comment> \<open>the paths on which \<open>TeardownCircuit\<close> calls \<open>sendChunkEnd\<close>\<close>
  "endMarkers cid cm =
     (case map_of (circuits cm) cid of
        None \<Rightarrow> []
      | Some p \<Rightarrow> filter (\<lambda>i. case (if i = 0 then fst else snd) (Paths (objs cm ! p)) of
                                   None \<Rightarrow> False | Some q \<Rightarrow> Healthy q) [0, 1])"

definition startTeardown :: "int \<Rightarrow> bytes \<Rightarrow> bytes \<Rightarrow> CircuitManager \<Rightarrow> (cm_error, bool) res \<times> CircuitManager" where
  \<comment> \<open>\<open>TeardownCircuit\<close> until it waits for the timer\<close>
  "startTeardown now cid reason cm =
     (case beginTeardown now cid reason cm of
        (Inr True, cm) \<Rightarrow> (ok True, cm\<lparr>tasks := tasks cm @ [FlushTask cid (ascii ''teardown: '' @ reason)]\<rparr>)
      | r \<Rightarrow> r)"

fun run_task :: "int \<Rightarrow> task \<Rightarrow> CircuitManager \<Rightarrow> CircuitManager" where
  \<comment> \<open>a pending goroutine runs, or the flush timer fires\<close>
  "run_task now (TeardownTask cid reason) cm =
     snd (startTeardown now cid reason (cm\<lparr>tasks := remove1 (TeardownTask cid reason) (tasks cm)\<rparr>))"
| "run_task now (FlushTask cid reason) cm =
     snd (closeCircuit now cid reason (cm\<lparr>tasks := remove1 (FlushTask cid reason) (tasks cm)\<rparr>))"

definition HandleTeardown :: "int \<Rightarrow> bytes \<Rightarrow> TeardownMsg \<Rightarrow> CircuitManager \<Rightarrow> (cm_error, unit) res \<times> CircuitManager" where
  "HandleTeardown now cid msg cm =
     (case beginTeardown now cid (td_Reason msg) cm of
        (Inr True, cm) \<Rightarrow> closeCircuit now cid (ascii ''exit teardown: '' @ td_Reason msg) cm
      | (Inr False, cm) \<Rightarrow> (ok (), cm)
      | (Inl e, cm) \<Rightarrow> (Inl e, cm))"

section \<open>Keepalives and dispatch\<close>

definition path_at :: "int \<Rightarrow> Circuit \<Rightarrow> CircuitPath option" where
  "path_at i c = (if i = 0 then fst (Paths c) else snd (Paths c))"

definition set_path :: "int \<Rightarrow> CircuitPath \<Rightarrow> Circuit \<Rightarrow> Circuit" where
  "set_path i q c = c\<lparr>Paths := (if i = 0 then (Some q, snd (Paths c)) else (fst (Paths c), Some q))\<rparr>"

definition with_path ::
    "bytes \<Rightarrow> int \<Rightarrow> (nat \<Rightarrow> CircuitPath \<Rightarrow> (cm_error, unit) res \<times> CircuitManager) \<Rightarrow> CircuitManager \<Rightarrow>
     (cm_error, unit) res \<times> CircuitManager" where
  \<comment> \<open>the lookup and the index checks the keepalive and dispatch methods begin with\<close>
  "with_path cid pathIdx f cm =
     (case map_of (circuits cm) cid of
        None \<Rightarrow> (err ErrCircuitNotFound, cm)
      | Some p \<Rightarrow>
          if pathIdx < 0 \<or> pathIdx \<ge> 2 then (err (InvalidPathIndex pathIdx), cm)
          else case path_at pathIdx (objs cm ! p) of
                 None \<Rightarrow> (err (PathIsNil pathIdx), cm)
               | Some q \<Rightarrow> f p q)"

definition HandleKeepaliveResponse :: "int \<Rightarrow> bytes \<Rightarrow> int \<Rightarrow> int \<Rightarrow> CircuitManager \<Rightarrow> (cm_error, unit) res \<times> CircuitManager" where
  "HandleKeepaliveResponse now cid pathIdx timestamp cm =
     with_path cid pathIdx (\<lambda>p q.
       let rtt = now - timestamp;
           rtt = (if rtt < 0 then 0 else rtt);
           cm = upd p (\<lambda>c. UpdateActivity now (set_path pathIdx (RecordRTT rtt q) c)) cm
       in (ok (), if Health q = PathHealthUnhealthy \<or> Health q = PathHealthDegraded
                  then emitEvent now EventPathRestored cid (PathIdx pathIdx) cm else cm)) cm"

definition cm_MissKeepalive :: "int \<Rightarrow> bytes \<Rightarrow> int \<Rightarrow> CircuitManager \<Rightarrow> (cm_error, unit) res \<times> CircuitManager" where
  "cm_MissKeepalive now cid pathIdx cm =
     with_path cid pathIdx (\<lambda>p q.
       let wasHealthy = (Health q = PathHealthHealthy);
           q = path_MissKeepalive q;
           cm = upd p (set_path pathIdx q) cm;
           cm = (if Health q = PathHealthDegraded \<and> wasHealthy
                 then emitEvent now EventPathDegraded cid (PathIdx pathIdx) cm else cm);
           cm = (if Health q = PathHealthUnhealthy then emitEvent now EventPathUnhealthy cid (PathIdx pathIdx) cm else cm)
       in case BothPathsUnhealthy (objs cm ! p) of
            Inl e \<Rightarrow> (Inl e, cm)
          | Inr True \<Rightarrow> (ok (), (let cm = emitEvent now EventKeepaliveTimeout cid NoData cm
                                in cm\<lparr>tasks := tasks cm @ [TeardownTask cid (ascii ''both paths unhealthy'')]\<rparr>))
          | Inr False \<Rightarrow> (ok (), cm)) cm"

definition RecordChunkDispatch :: "int \<Rightarrow> bytes \<Rightarrow> int \<Rightarrow> nat \<Rightarrow> CircuitManager \<Rightarrow> (cm_error, unit) res \<times> CircuitManager" where
  "RecordChunkDispatch now cid pathIdx byteCount cm =
     with_path cid pathIdx (\<lambda>p q.
       (ok (), upd p (\<lambda>c. UpdateActivity now (set_path pathIdx (RecordChunk byteCount q) c)) cm)) cm"

definition AssignChunkPath :: "rat \<Rightarrow> bytes \<Rightarrow> CircuitManager \<Rightarrow> (cm_error, int) res \<times> CircuitManager" where
  "AssignChunkPath rnd cid cm =
     (case map_of (circuits cm) cid of
        None \<Rightarrow> (err ErrCircuitNotFound, cm)
      | Some p \<Rightarrow> let (r, c) = circuit_AssignPath rnd (objs cm ! p) in (r, upd p (\<lambda>_. c) cm))"

definition GetCircuit :: "bytes \<Rightarrow> CircuitManager \<Rightarrow> (cm_error, nat) res" where
  "GetCircuit cid cm = (case map_of (circuits cm) cid of None \<Rightarrow> err ErrCircuitNotFound | Some p \<Rightarrow> ok p)"

definition ListCircuits :: "int \<Rightarrow> CircuitManager \<Rightarrow> CircuitInfo list" where
  "ListCircuits now cm =
     map (\<lambda>(cid, p). ToInfo now (objs cm ! p)) (filter (\<lambda>(cid, p). State (objs cm ! p) \<noteq> CircuitClosed) (circuits cm))"

definition GetCircuitStats :: "CircuitManager \<Rightarrow> CircuitStats" where
  "GetCircuitStats cm =
     (stats cm)\<lparr>Active := int (length (filter (\<lambda>(cid, p). State (objs cm ! p) = CircuitActive) (circuits cm))),
                TearingDown := int (length (filter (\<lambda>(cid, p). State (objs cm ! p) = CircuitTeardown) (circuits cm)))\<rparr>"

definition CheckIdleTimeouts :: "int \<Rightarrow> CircuitManager \<Rightarrow> CircuitManager" where
  "CheckIdleTimeouts now cm =
     (let toTeardown = map fst (filter (\<lambda>(cid, p). State (objs cm ! p) = CircuitActive \<and> IsIdle now (objs cm ! p)) (circuits cm))
      in cm\<lparr>tasks := tasks cm @ map (\<lambda>cid. TeardownTask cid (ascii ''idle timeout'')) toTeardown\<rparr>)"

definition Shutdown :: "int \<Rightarrow> CircuitManager \<Rightarrow> CircuitManager" where
  "Shutdown now cm = fold (\<lambda>cid cm. snd (closeCircuit now cid (ascii ''shutdown'') cm)) (map fst (circuits cm)) cm"

section \<open>Invariants\<close>

definition byExit :: "CircuitManager \<Rightarrow> string \<Rightarrow> bytes list" where
  "byExit cm e = (case map_of (circuitsByExit cm) e of None \<Rightarrow> [] | Some l \<Rightarrow> l)"

definition live :: "CircuitManager \<Rightarrow> bytes \<Rightarrow> nat \<Rightarrow> bool" where
  "live cm cid p \<longleftrightarrow> map_of (circuits cm) cid = Some p"

definition erased :: "Circuit \<Rightarrow> bool" where
  "erased c \<longleftrightarrow> State c = CircuitClosed \<and> KeysZeroed c \<and> (\<forall>q\<in>set (path_list c). \<forall>k\<in>set (cp_RelayKeys q). \<forall>b\<in>set k. b = 0)"

definition heap_inv :: "CircuitManager \<Rightarrow> bool" where
  \<comment> \<open>every tracked pointer is valid and its circuit open; every other circuit is erased\<close>
  "heap_inv cm \<longleftrightarrow> distinct (map fst (circuits cm)) \<and>
     (\<forall>cid p. live cm cid p \<longrightarrow> p < length (objs cm) \<and> c_ID (objs cm ! p) = cid \<and> State (objs cm ! p) \<noteq> CircuitClosed) \<and>
     (\<forall>p<length (objs cm). \<not> live cm (c_ID (objs cm ! p)) p \<longrightarrow> erased (objs cm ! p))"

definition index_inv :: "CircuitManager \<Rightarrow> bool" where
  "index_inv cm \<longleftrightarrow> distinct (map fst (circuitsByExit cm)) \<and> (\<forall>e. map_of (circuitsByExit cm) e \<noteq> Some []) \<and>
     (\<forall>e. distinct (byExit cm e) \<and> set (byExit cm e) = {cid. \<exists>p. live cm cid p \<and> c_Exit (objs cm ! p) = e})"

definition flush_inv :: "CircuitManager \<Rightarrow> bool" where
  "flush_inv cm \<longleftrightarrow> (\<forall>cid p. live cm cid p \<longrightarrow> State (objs cm ! p) = CircuitTeardown \<longrightarrow> (\<exists>r. FlushTask cid r \<in> set (tasks cm)))"

definition health_of :: "int \<Rightarrow> PathHealthState" where
  "health_of missed = (if missed \<ge> 4 then PathHealthUnhealthy else if missed \<ge> 2 then PathHealthDegraded else PathHealthHealthy)"

definition paths_ok :: "Circuit \<Rightarrow> bool" where
  "paths_ok c \<longleftrightarrow> (\<forall>q\<in>set (path_list c). 0 \<le> MissedKeepalives q \<and> Health q = health_of (MissedKeepalives q))"

definition count_inv :: "CircuitManager \<Rightarrow> bool" where
  "count_inv cm \<longleftrightarrow> TotalCreated (stats cm) - TotalClosed (stats cm) = of_nat (length (circuits cm))"

definition cm_inv :: "CircuitManager \<Rightarrow> bool" where
  "cm_inv cm \<longleftrightarrow> heap_inv cm \<and> index_inv cm \<and> flush_inv cm \<and> (\<forall>c\<in>set (objs cm). paths_ok c) \<and> count_inv cm"

inductive cm_step :: "CircuitManager \<Rightarrow> CircuitManager \<Rightarrow> bool" where
  create: "cid \<notin> c_ID ` set (objs cm) \<Longrightarrow> c = newCircuit now (cm_cfg cm) cid e2eKey seed target entry exit paths \<Longrightarrow>
    cm_step cm (emitEvent now EventCircuitCreated cid NoData (storeCircuit c cm))"
| matrix: "cm_step cm (UpdateLatencyMatrix now es cm)"
| probing: "cm_step cm (cm\<lparr>probe := ps\<rparr>)"
| callback: "cm_step cm (OnCircuitEvent cm)"
| ack: "cm_step cm (snd (HandleCircuitAck now cid a cm))"
| setup_timeout: "cm_step cm (snd (HandleSetupTimeout now cid cm))"
| teardown: "cm_step cm (snd (startTeardown now cid reason cm))"
| exit_teardown: "cm_step cm (snd (HandleTeardown now cid msg cm))"
| task: "t \<in> set (tasks cm) \<Longrightarrow> cm_step cm (run_task now t cm)"
| keepalive: "cm_step cm (snd (HandleKeepaliveResponse now cid i ts cm))"
| missed: "cm_step cm (snd (cm_MissKeepalive now cid i cm))"
| dispatch: "cm_step cm (snd (RecordChunkDispatch now cid i n cm))"
| assign: "cm_step cm (snd (AssignChunkPath rnd cid cm))"
| idle: "cm_step cm (CheckIdleTimeouts now cm)"
| shutdown: "cm_step cm (Shutdown now cm)"

lemma emitEvent_frame [simp]:
  "objs (emitEvent now t cid d cm) = objs cm" "circuits (emitEvent now t cid d cm) = circuits cm"
  "circuitsByExit (emitEvent now t cid d cm) = circuitsByExit cm" "tasks (emitEvent now t cid d cm) = tasks cm"
  "stats (emitEvent now t cid d cm) = stats cm" "cm_cfg (emitEvent now t cid d cm) = cm_cfg cm"
  by (simp_all add: emitEvent_def)

lemma upd_frame [simp]:
  "circuits (upd p f cm) = circuits cm" "circuitsByExit (upd p f cm) = circuitsByExit cm"
  "tasks (upd p f cm) = tasks cm" "stats (upd p f cm) = stats cm"
  "objs (upd p f cm) = (objs cm)[p := f (objs cm ! p)]" "cm_cfg (upd p f cm) = cm_cfg cm"
  by (simp_all add: upd_def)

lemma cm_inv_cong:
  assumes "objs cm' = objs cm" "circuits cm' = circuits cm" "circuitsByExit cm' = circuitsByExit cm"
    "tasks cm' = tasks cm" "stats cm' = stats cm"
  shows "cm_inv cm' = cm_inv cm"
  using assms by (simp add: cm_inv_def heap_inv_def index_inv_def flush_inv_def count_inv_def live_def byExit_def)

lemma cm_inv_emit [simp]: "cm_inv (emitEvent now t cid d cm) = cm_inv cm"
  by (rule cm_inv_cong) simp_all

lemma tasks_frame [simp]:
  "live (cm\<lparr>tasks := ts\<rparr>) = live cm" "heap_inv (cm\<lparr>tasks := ts\<rparr>) = heap_inv cm"
  "index_inv (cm\<lparr>tasks := ts\<rparr>) = index_inv cm" "count_inv (cm\<lparr>tasks := ts\<rparr>) = count_inv cm"
  by (simp_all add: heap_inv_def index_inv_def count_inv_def live_def byExit_def fun_eq_iff)

lemma cm_inv_tasks:
  assumes "cm_inv cm" "\<And>cid r. FlushTask cid r \<in> set (tasks cm) \<Longrightarrow> FlushTask cid r \<in> set ts"
  shows "cm_inv (cm\<lparr>tasks := ts\<rparr>)"
proof -
  have "flush_inv (cm\<lparr>tasks := ts\<rparr>)"
    using assms unfolding cm_inv_def flush_inv_def tasks_frame by simp blast
  with assms(1) show ?thesis by (simp add: cm_inv_def)
qed

lemma flush_pending:
  "cm_inv cm \<Longrightarrow> live cm cid p \<Longrightarrow> State (objs cm ! p) = CircuitTeardown \<Longrightarrow> \<exists>r. FlushTask cid r \<in> set (tasks cm)"
  unfolding cm_inv_def flush_inv_def by blast

lemma live_unique:
  assumes "heap_inv cm" "live cm c1 p" "live cm c2 p"
  shows "c1 = c2"
  using assms unfolding heap_inv_def by blast

lemma live_obj:
  assumes "heap_inv cm" "live cm cid p"
  shows "p < length (objs cm)" "c_ID (objs cm ! p) = cid" "State (objs cm ! p) \<noteq> CircuitClosed"
  using assms unfolding heap_inv_def by blast+

lemma cm_inv_upd:
  assumes inv: "cm_inv cm" and live: "live cm cid p" and
    f: "c_ID (f (objs cm ! p)) = c_ID (objs cm ! p)" "c_Exit (f (objs cm ! p)) = c_Exit (objs cm ! p)"
      "State (f (objs cm ! p)) \<noteq> CircuitClosed" "paths_ok (f (objs cm ! p))"
      "State (f (objs cm ! p)) = CircuitTeardown \<Longrightarrow> State (objs cm ! p) \<noteq> CircuitTeardown \<Longrightarrow>
         \<exists>r. FlushTask cid r \<in> set (tasks cm)"
  shows "cm_inv (upd p f cm)"
proof -
  have h: "heap_inv cm" using inv by (simp add: cm_inv_def)
  note o = live_obj [OF h live]
  have L: "live (upd p f cm) = live cm" by (simp add: live_def fun_eq_iff)
  have nth: "objs (upd p f cm) ! q = (if q = p then f (objs cm ! p) else objs cm ! q)" for q
    using o(1) by (simp add: nth_list_update)
  have "heap_inv (upd p f cm)"
    unfolding heap_inv_def L
  proof (intro conjI allI impI)
    show "distinct (map fst (circuits (upd p f cm)))" using h by (simp add: heap_inv_def)
    fix cid' q assume l: "live cm cid' q"
    note oq = live_obj [OF h l]
    show "q < length (objs (upd p f cm))" using oq(1) by simp
    show "c_ID (objs (upd p f cm) ! q) = cid'" "State (objs (upd p f cm) ! q) \<noteq> CircuitClosed"
      unfolding nth using oq f(1,3) by auto
  next
    fix q assume q: "q < length (objs (upd p f cm))" "\<not> live cm (c_ID (objs (upd p f cm) ! q)) q"
    have "c_ID (objs (upd p f cm) ! p) = cid" unfolding nth using f(1) o(2) by simp
    then have "q \<noteq> p" using q(2) live by auto
    with q h show "erased (objs (upd p f cm) ! q)" unfolding nth heap_inv_def by simp
  qed
  moreover have "index_inv (upd p f cm)"
  proof -
    have "c_Exit (objs (upd p f cm) ! q) = c_Exit (objs cm ! q)" for q using f nth by simp
    moreover have "byExit (upd p f cm) = byExit cm" by (simp add: byExit_def fun_eq_iff)
    ultimately show ?thesis using inv unfolding cm_inv_def index_inv_def L by simp
  qed
  moreover have "flush_inv (upd p f cm)"
    unfolding flush_inv_def L
  proof (intro allI impI)
    fix cid' q assume l: "live cm cid' q" and t: "State (objs (upd p f cm) ! q) = CircuitTeardown"
    show "\<exists>r. FlushTask cid' r \<in> set (tasks (upd p f cm))"
    proof (cases "q = p \<and> State (objs cm ! p) \<noteq> CircuitTeardown")
      case True
      then have "cid' = cid" using live_unique [OF h l] live by simp
      with True t [unfolded nth] f(5) show ?thesis by simp
    next
      case False
      then have "State (objs cm ! q) = CircuitTeardown" using t [unfolded nth] by (auto split: if_splits)
      with inv l show ?thesis by (simp add: cm_inv_def flush_inv_def)
    qed
  qed
  moreover have "\<forall>c\<in>set (objs (upd p f cm)). paths_ok c"
    using inv f(4) by (auto simp: cm_inv_def dest!: set_update_subset_insert [THEN subsetD])
  moreover have "count_inv (upd p f cm)" using inv by (simp add: cm_inv_def count_inv_def)
  ultimately show ?thesis by (simp add: cm_inv_def)
qed

definition closed_of :: "Circuit \<Rightarrow> Circuit" where
  "closed_of c = ZeroKeys (c\<lparr>State := CircuitClosed\<rparr>)"

lemma closed_of_simps [simp]:
  "c_ID (closed_of c) = c_ID c" "c_Exit (closed_of c) = c_Exit c" "State (closed_of c) = CircuitClosed"
  by (simp_all add: closed_of_def ZeroKeys_def)

lemma path_list_map:
  "path_list (c\<lparr>Paths := map_prod (map_option f) (map_option f) (Paths c)\<rparr>) = map f (path_list c)"
  by (cases "Paths c") (auto simp: path_list_def split: option.split)

lemma path_list_closed: "path_list (closed_of c) = map path_ZeroKeys (path_list c)"
  by (cases "Paths c") (auto simp: closed_of_def ZeroKeys_def path_list_def split: option.split)

lemma erased_closed: "erased (closed_of c)"
  by (auto simp: erased_def KeysZeroed_def list_all_iff path_list_closed path_ZeroKeys_def zeros_def)
    (auto simp: closed_of_def ZeroKeys_def zeros_def)

lemma paths_ok_closed: "paths_ok c \<Longrightarrow> paths_ok (closed_of c)"
  by (auto simp: paths_ok_def path_list_closed path_ZeroKeys_def)

lemma stats_fold [simp]:
  "TotalCreated (fold (\<lambda>p st. st\<lparr>TotalChunksDispatched := TotalChunksDispatched st + TotalChunks p,
     TotalBytesDispatched := TotalBytesDispatched st + TotalBytes p\<rparr>) ps st) = TotalCreated st"
  "TotalClosed (fold (\<lambda>p st. st\<lparr>TotalChunksDispatched := TotalChunksDispatched st + TotalChunks p,
     TotalBytesDispatched := TotalBytesDispatched st + TotalBytes p\<rparr>) ps st) = TotalClosed st"
  by (induction ps arbitrary: st) simp_all

lemma length_alist_delete:
  "distinct (map fst al) \<Longrightarrow> k \<in> fst ` set al \<Longrightarrow> length al = Suc (length (AList.delete k al))"
proof (induction al)
  case (Cons x al)
  then show ?case by (cases "k = fst x") (auto simp: asum_delete_absent)
qed simp

text \<open>What closing a tracked circuit leaves behind.\<close>

lemma close_at_effect:
  assumes "live cm cid p" "p < length (objs cm)" "cm' = close_at now cid p reason cm"
  shows "objs cm' = (objs cm)[p := closed_of (objs cm ! p)]" "circuits cm' = AList.delete cid (circuits cm)"
    "tasks cm' = tasks cm" "cm_cfg cm' = cm_cfg cm" "TotalCreated (stats cm') = TotalCreated (stats cm)"
    "TotalClosed (stats cm') = TotalClosed (stats cm) + 1"
proof -
  let ?cm = "upd p ZeroKeys (upd p (\<lambda>c. c\<lparr>State := CircuitClosed\<rparr>) cm)"
  have o: "objs ?cm = (objs cm)[p := closed_of (objs cm ! p)]" using assms(2) by (simp add: closed_of_def)
  have l: "map_of (circuits ?cm) cid = Some p" using assms(1) by (simp add: live_def)
  show "objs cm' = (objs cm)[p := closed_of (objs cm ! p)]" "circuits cm' = AList.delete cid (circuits cm)"
    "tasks cm' = tasks cm" "cm_cfg cm' = cm_cfg cm" "TotalCreated (stats cm') = TotalCreated (stats cm)"
    "TotalClosed (stats cm') = TotalClosed (stats cm) + 1"
    unfolding assms(3) close_at_def Let_def removeCircuit_def l option.case using o assms(2) by simp_all
qed

lemma close_at_byExit:
  assumes "live cm cid p" "p < length (objs cm)" "cm' = close_at now cid p reason cm" "index_inv cm"
  shows "distinct (map fst (circuitsByExit cm'))" "map_of (circuitsByExit cm') e \<noteq> Some []"
    "byExit cm' e = (if e = c_Exit (objs cm ! p) then remove1 cid (byExit cm e) else byExit cm e)"
proof -
  let ?cm = "upd p ZeroKeys (upd p (\<lambda>c. c\<lparr>State := CircuitClosed\<rparr>) cm)"
  let ?x = "c_Exit (objs cm ! p)"
  have l: "map_of (circuits ?cm) cid = Some p" using assms(1) by (simp add: live_def)
  have x: "c_Exit (objs ?cm ! p) = ?x" using assms(2) by (simp add: ZeroKeys_def)
  have cid: "cid \<in> set (byExit cm ?x)" using assms(1,4) by (auto simp: index_inv_def)
  then obtain b where b: "map_of (circuitsByExit cm) ?x = Some b" "byExit cm ?x = b" "cid \<in> set b"
    by (cases "map_of (circuitsByExit cm) ?x") (auto simp: byExit_def)
  have d: "distinct (map fst (circuitsByExit cm))" "\<And>e. map_of (circuitsByExit cm) e \<noteq> Some []"
    using assms(4) by (auto simp: index_inv_def)
  let ?u = "AList.update ?x (remove1 cid b) (circuitsByExit cm)"
  have c: "circuitsByExit cm' = (if remove1 cid b = [] then AList.delete ?x ?u else ?u)"
    unfolding assms(3) close_at_def Let_def removeCircuit_def l option.case using x b
    by (simp add: update_conv')
  show "distinct (map fst (circuitsByExit cm'))" using d c by (simp add: distinct_update distinct_delete)
  show "map_of (circuitsByExit cm') e \<noteq> Some []"
    using d c by (auto simp: update_conv' delete_conv')
  show "byExit cm' e = (if e = ?x then remove1 cid (byExit cm e) else byExit cm e)"
    using c b by (auto simp: byExit_def update_conv' delete_conv')
qed

lemma close_at_inv:
  assumes h: "heap_inv cm" and ix: "index_inv cm" and ct: "count_inv cm" and po: "\<forall>c\<in>set (objs cm). paths_ok c"
    and fl: "\<And>cid' q. live cm cid' q \<Longrightarrow> cid' \<noteq> cid \<Longrightarrow> State (objs cm ! q) = CircuitTeardown \<Longrightarrow>
      \<exists>r. FlushTask cid' r \<in> set (tasks cm)"
    and live: "live cm cid p"
  shows "cm_inv (close_at now cid p reason cm)"
proof -
  define cm' where "cm' = close_at now cid p reason cm"
  note o = live_obj [OF h live]
  note e = close_at_effect [OF live o(1) cm'_def] and b = close_at_byExit [OF live o(1) cm'_def ix]
  have d: "distinct (map fst (circuits cm))" using h by (simp add: heap_inv_def)
  have L: "live cm' cid' q \<longleftrightarrow> cid' \<noteq> cid \<and> live cm cid' q" for cid' q
    by (simp add: live_def e(2) delete_conv')
  have qp: "q \<noteq> p" if "live cm' cid' q" for cid' q using that L live_unique [OF h _ live] by blast
  have nth: "objs cm' ! q = (if q = p then closed_of (objs cm ! p) else objs cm ! q)" for q
    using o(1) by (simp add: e(1) nth_list_update)
  have "heap_inv cm'"
    unfolding heap_inv_def
  proof (intro conjI allI impI)
    show "distinct (map fst (circuits cm'))" using d by (simp add: e(2) distinct_delete)
    fix cid' q assume l: "live cm' cid' q"
    then have "live cm cid' q" using L by blast
    note oq = live_obj [OF h this]
    show "q < length (objs cm')" using oq(1) by (simp add: e(1))
    show "c_ID (objs cm' ! q) = cid'" "State (objs cm' ! q) \<noteq> CircuitClosed"
      using oq qp [OF l] by (auto simp: nth)
  next
    fix q assume q: "q < length (objs cm')" "\<not> live cm' (c_ID (objs cm' ! q)) q"
    show "erased (objs cm' ! q)"
    proof (cases "q = p")
      case False
      have "\<not> live cm (c_ID (objs cm ! q)) q"
      proof
        assume l: "live cm (c_ID (objs cm ! q)) q"
        with False have "c_ID (objs cm ! q) \<noteq> cid" using live by (auto simp: live_def)
        with l L q(2) False show False by (auto simp: nth)
      qed
      with h q(1) False show ?thesis by (simp add: nth heap_inv_def e(1))
    qed (simp add: nth erased_closed)
  qed
  moreover have "index_inv cm'"
    unfolding index_inv_def
  proof (intro conjI allI)
    show "distinct (map fst (circuitsByExit cm'))" "map_of (circuitsByExit cm') x \<noteq> Some []" for x
      using b(1,2) by blast+
    fix x
    have s: "distinct (byExit cm x)" "set (byExit cm x) = {c. \<exists>q. live cm c q \<and> c_Exit (objs cm ! q) = x}"
      using ix by (auto simp: index_inv_def)
    show "distinct (byExit cm' x)" using s(1) by (auto simp: b(3) intro: distinct_remove1)
    have "c_Exit (objs cm' ! q) = c_Exit (objs cm ! q)" for q by (simp add: nth)
    moreover have "cid \<notin> set (byExit cm x)" if "x \<noteq> c_Exit (objs cm ! p)"
      using s(2) live that by (auto simp: live_def)
    ultimately show "set (byExit cm' x) = {c. \<exists>q. live cm' c q \<and> c_Exit (objs cm' ! q) = x}"
      using s by (auto simp: b(3) L set_remove1_eq)
  qed
  moreover have "flush_inv cm'"
    unfolding flush_inv_def nth e(3) using fl L qp by (metis (full_types))
  moreover have "\<forall>c\<in>set (objs cm'). paths_ok c"
    using po o(1) paths_ok_closed by (auto simp: e(1) dest!: set_update_subset_insert [THEN subsetD])
  moreover have "count_inv cm'"
  proof -
    have "cid \<in> fst ` set (circuits cm)" using live by (auto simp: live_def dest: map_of_SomeD intro: rev_image_eqI)
    then have "length (circuits cm) = Suc (length (circuits cm'))"
      using d by (simp add: e(2) length_alist_delete)
    with ct show ?thesis by (simp add: count_inv_def e(5,6) algebra_simps)
  qed
  ultimately show ?thesis by (simp add: cm_inv_def cm'_def)
qed

lemma close_inv: "cm_inv cm \<Longrightarrow> live cm cid p \<Longrightarrow> cm_inv (close_at now cid p reason cm)"
  by (rule close_at_inv) (auto simp: cm_inv_def flush_inv_def)

lemma closeCircuit_inv:
  assumes "cm_inv cm"
  shows "cm_inv (snd (closeCircuit now cid reason cm))"
  using assms close_inv by (auto simp: closeCircuit_def live_def split: option.split)

lemma storeCircuit_inv:
  assumes inv: "cm_inv cm" and fresh: "c_ID c \<notin> c_ID ` set (objs cm)" and c: "State c = CircuitCreating" "paths_ok c"
  shows "cm_inv (storeCircuit c cm)"
proof -
  define cm' where "cm' = storeCircuit c cm"
  have h: "heap_inv cm" and ix: "index_inv cm" using inv by (simp_all add: cm_inv_def)
  let ?n = "length (objs cm)"
  have e: "objs cm' = objs cm @ [c]" "circuits cm' = AList.update (c_ID c) ?n (circuits cm)" "tasks cm' = tasks cm"
    "circuitsByExit cm' = AList.update (c_Exit c) (byExit cm (c_Exit c) @ [c_ID c]) (circuitsByExit cm)"
    by (simp_all add: cm'_def storeCircuit_def Let_def byExit_def)
  have new: "map_of (circuits cm) (c_ID c) = None"
  proof (cases "map_of (circuits cm) (c_ID c)")
    case (Some q)
    then have "q < ?n" "c_ID (objs cm ! q) = c_ID c" using live_obj [OF h] by (auto simp: live_def)
    with fresh show ?thesis by (metis image_eqI nth_mem)
  qed
  have L: "live cm' cid q \<longleftrightarrow> live cm cid q \<or> cid = c_ID c \<and> q = ?n" for cid q
    using new by (auto simp: live_def e(2) update_conv')
  have nth: "q < ?n \<Longrightarrow> objs cm' ! q = objs cm ! q" "objs cm' ! ?n = c" for q by (simp_all add: e(1) nth_append)
  have "heap_inv cm'"
    unfolding heap_inv_def
  proof (intro conjI allI impI)
    show "distinct (map fst (circuits cm'))" using h by (simp add: e(2) distinct_update heap_inv_def)
    fix cid q assume "live cm' cid q"
    then show "q < length (objs cm')" "c_ID (objs cm' ! q) = cid" "State (objs cm' ! q) \<noteq> CircuitClosed"
      using live_obj [OF h] c nth unfolding L by (auto simp: e(1) less_Suc_eq)
  next
    fix q assume q: "q < length (objs cm')" "\<not> live cm' (c_ID (objs cm' ! q)) q"
    then have "q < ?n" unfolding L using nth(2) by (auto simp: e(1) less_Suc_eq)
    with q(2) nth(1) h show "erased (objs cm' ! q)" unfolding L by (auto simp: heap_inv_def)
  qed
  moreover have "index_inv cm'"
    unfolding index_inv_def
  proof (intro conjI allI)
    show "distinct (map fst (circuitsByExit cm'))" "map_of (circuitsByExit cm') x \<noteq> Some []" for x
      using ix by (auto simp: index_inv_def e(4) distinct_update update_conv')
    fix x
    have b: "byExit cm' x = (if x = c_Exit c then byExit cm x @ [c_ID c] else byExit cm x)"
      by (simp add: byExit_def [of cm'] e(4) update_conv') (simp add: byExit_def)
    have s: "distinct (byExit cm x)" "set (byExit cm x) = {cid. \<exists>q. live cm cid q \<and> c_Exit (objs cm ! q) = x}"
      using ix by (auto simp: index_inv_def)
    have notin: "c_ID c \<notin> set (byExit cm x)" using s(2) new by (simp add: live_def)
    then show "distinct (byExit cm' x)" using s(1) by (auto simp: b)
    have E: "c_Exit (objs cm' ! q) = c_Exit (objs cm ! q)" if "live cm cid q" for cid q
      using nth(1) live_obj(1) [OF h that] by simp
    have "(\<exists>q. live cm' cid q \<and> c_Exit (objs cm' ! q) = x) \<longleftrightarrow> cid \<in> set (byExit cm x) \<or> cid = c_ID c \<and> c_Exit c = x" for cid
      unfolding L s(2) mem_Collect_eq using E nth(2) by metis
    then show "set (byExit cm' x) = {cid. \<exists>q. live cm' cid q \<and> c_Exit (objs cm' ! q) = x}"
      by (auto simp: b)
  qed
  moreover have "flush_inv cm'"
    using inv nth live_obj(1) [OF h] c(1) unfolding flush_inv_def cm_inv_def L e(3) by auto
  moreover have "\<forall>c\<in>set (objs cm'). paths_ok c" using inv c(2) by (simp add: cm_inv_def e(1))
  moreover have "count_inv cm'"
  proof -
    have "c_ID c \<notin> fst ` set (circuits cm)" using new by (simp add: map_of_eq_None_iff)
    then have "length (circuits cm') = Suc (length (circuits cm))" by (simp add: e(2) length_alist_update)
    moreover have "TotalCreated (stats cm') = TotalCreated (stats cm) + 1" "TotalClosed (stats cm') = TotalClosed (stats cm)"
      by (simp_all add: cm'_def storeCircuit_def Let_def)
    ultimately show ?thesis using inv by (simp add: cm_inv_def count_inv_def algebra_simps)
  qed
  ultimately show ?thesis by (simp add: cm_inv_def cm'_def)
qed

lemma paths_ok_new: "paths_ok (newCircuit now conf cid k s t e x ps)"
  by (auto simp: paths_ok_def path_list_def newCircuit_def newCircuitPath_def health_of_def)

lemma paths_ok_map:
  "paths_ok c \<Longrightarrow> (\<And>q. 0 \<le> MissedKeepalives q \<Longrightarrow> Health q = health_of (MissedKeepalives q) \<Longrightarrow>
     0 \<le> MissedKeepalives (f q) \<and> Health (f q) = health_of (MissedKeepalives (f q))) \<Longrightarrow>
   Paths c' = map_prod (map_option f) (map_option f) (Paths c) \<Longrightarrow> paths_ok c'"
  by (cases "Paths c") (auto simp: paths_ok_def path_list_def split: option.splits)

lemma paths_ok_set_path:
  "paths_ok c \<Longrightarrow> 0 \<le> MissedKeepalives q \<Longrightarrow> Health q = health_of (MissedKeepalives q) \<Longrightarrow> paths_ok (set_path i q c)"
  by (cases "Paths c") (auto simp: paths_ok_def path_list_def set_path_def split: option.splits if_splits)

lemma path_at_ok:
  "paths_ok c \<Longrightarrow> path_at i c = Some q \<Longrightarrow> 0 \<le> MissedKeepalives q \<and> Health q = health_of (MissedKeepalives q)"
  by (cases "Paths c") (auto simp: paths_ok_def path_list_def path_at_def split: option.splits if_splits)

lemma path_MissKeepalive_ok:
  "0 \<le> MissedKeepalives q \<Longrightarrow> Health q = health_of (MissedKeepalives q) \<Longrightarrow>
     0 \<le> MissedKeepalives (path_MissKeepalive q) \<and>
     Health (path_MissKeepalive q) = health_of (MissedKeepalives (path_MissKeepalive q))"
  by (auto simp: path_MissKeepalive_def health_of_def Let_def split: if_splits)

lemma with_path_inv:
  assumes "cm_inv cm" "\<And>p q. live cm cid p \<Longrightarrow> path_at i (objs cm ! p) = Some q \<Longrightarrow> cm_inv (snd (f p q))"
  shows "cm_inv (snd (with_path cid i f cm))"
  using assms by (auto simp: with_path_def live_def split: option.split)

lemma inv_obj: "cm_inv cm \<Longrightarrow> live cm cid p \<Longrightarrow> paths_ok (objs cm ! p) \<and> State (objs cm ! p) \<noteq> CircuitClosed"
  using live_obj [of cm cid p] by (auto simp: cm_inv_def)

lemma beginTeardown_inv:
  assumes inv: "cm_inv cm" and r: "beginTeardown now cid reason cm = (ok True, cm')"
  shows "cm_inv (cm'\<lparr>tasks := tasks cm' @ [FlushTask cid m]\<rparr>)" "\<exists>p. live cm' cid p"
    "heap_inv cm'" "index_inv cm'" "count_inv cm'" "\<forall>c\<in>set (objs cm'). paths_ok c"
    "\<And>cid' q. live cm' cid' q \<Longrightarrow> cid' \<noteq> cid \<Longrightarrow> State (objs cm' ! q) = CircuitTeardown \<Longrightarrow>
       \<exists>r. FlushTask cid' r \<in> set (tasks cm')"
proof -
  obtain p where p: "live cm cid p"
    and cm': "cm' = emitEvent now EventCircuitTeardownInitiated cid (Reason reason) (upd p (\<lambda>c. c\<lparr>State := CircuitTeardown\<rparr>) cm)"
    using r by (auto simp: beginTeardown_def live_def split: option.splits if_splits)
  let ?cm = "cm\<lparr>tasks := tasks cm @ [FlushTask cid m]\<rparr>"
  have "cm_inv (upd p (\<lambda>c. c\<lparr>State := CircuitTeardown\<rparr>) ?cm)"
  proof (rule cm_inv_upd)
    show "cm_inv ?cm" by (rule cm_inv_tasks [OF inv]) simp
    show "live ?cm cid p" using p by (simp add: live_def)
    show "paths_ok ((objs ?cm ! p)\<lparr>State := CircuitTeardown\<rparr>)"
      using inv_obj [OF inv p] by (simp add: paths_ok_def path_list_def)
  qed auto
  then show i: "cm_inv (cm'\<lparr>tasks := tasks cm' @ [FlushTask cid m]\<rparr>)"
    by (rule cm_inv_cong [THEN iffD1, rotated -1]) (simp_all add: cm')
  show "\<exists>p. live cm' cid p" using p by (auto simp: cm' live_def)
  show "heap_inv cm'" "index_inv cm'" "count_inv cm'" "\<forall>c\<in>set (objs cm'). paths_ok c"
    using i by (simp_all add: cm_inv_def)
  fix cid' q assume l: "live cm' cid' q" "cid' \<noteq> cid" "State (objs cm' ! q) = CircuitTeardown"
  with flush_pending [OF i, of cid' q] show "\<exists>r. FlushTask cid' r \<in> set (tasks cm')" by auto
qed

lemma startTeardown_inv: "cm_inv cm \<Longrightarrow> cm_inv (snd (startTeardown now cid reason cm))"
proof (cases "beginTeardown now cid reason cm")
  case (Pair r cm')
  assume inv: "cm_inv cm"
  show ?thesis
  proof (cases "r = ok True")
    case True
    with beginTeardown_inv(1) [OF inv] Pair show ?thesis by (simp add: startTeardown_def)
  next
    case False
    then have "cm' = cm" using Pair by (auto simp: beginTeardown_def split: option.splits if_splits)
    moreover have "startTeardown now cid reason cm = (r, cm')"
      using Pair False by (auto simp: startTeardown_def split: sum.split bool.split)
    ultimately show ?thesis using inv by simp
  qed
qed

lemma HandleTeardown_inv:
  assumes inv: "cm_inv cm"
  shows "cm_inv (snd (HandleTeardown now cid msg cm))"
proof -
  obtain r cm' where b: "beginTeardown now cid (td_Reason msg) cm = (r, cm')" by fastforce
  show ?thesis
  proof (cases "r = ok True")
    case True
    note t = beginTeardown_inv [OF inv b [unfolded True]]
    obtain p where p: "live cm' cid p" using t(2) by blast
    have "cm_inv (close_at now cid p (ascii ''exit teardown: '' @ td_Reason msg) cm')"
      by (rule close_at_inv) (use t p in auto)
    then show ?thesis using b True p by (simp add: HandleTeardown_def closeCircuit_def live_def)
  next
    case False
    then have "cm' = cm" using b by (auto simp: beginTeardown_def split: option.splits if_splits)
    then show ?thesis using b False inv by (auto simp: HandleTeardown_def split: sum.split bool.split)
  qed
qed

lemma FlushTask_inv:
  assumes inv: "cm_inv cm"
  shows "cm_inv (snd (closeCircuit now cid reason (cm\<lparr>tasks := remove1 (FlushTask cid m) (tasks cm)\<rparr>)))"
proof -
  let ?cm = "cm\<lparr>tasks := remove1 (FlushTask cid m) (tasks cm)\<rparr>"
  have parts: "heap_inv ?cm" "index_inv ?cm" "count_inv ?cm" "\<forall>c\<in>set (objs ?cm). paths_ok c"
    using inv by (simp_all add: cm_inv_def)
  have fl: "\<exists>r. FlushTask cid' r \<in> set (tasks ?cm)"
    if "live ?cm cid' q" "cid' \<noteq> cid" "State (objs ?cm ! q) = CircuitTeardown" for cid' q
  proof -
    have "\<exists>r. FlushTask cid' r \<in> set (tasks cm)"
      using flush_pending [OF inv, of cid' q] that by simp
    then obtain r where "FlushTask cid' r \<in> set (tasks cm)" ..
    with that(2) show ?thesis by (auto intro!: exI [of _ r] in_set_remove1 [THEN iffD2])
  qed
  show ?thesis
  proof (cases "map_of (circuits cm) cid")
    case None
    then have "flush_inv ?cm" using fl unfolding flush_inv_def by (metis tasks_frame(1) live_def option.distinct(1))
    with parts None show ?thesis by (simp add: closeCircuit_def cm_inv_def)
  next
    case (Some p)
    then have "live ?cm cid p" by (simp add: live_def)
    from close_at_inv [OF parts(1,2,3,4) fl this] show ?thesis using Some by (simp add: closeCircuit_def)
  qed
qed

lemma ack_inv:
  assumes "cm_inv cm"
  shows "cm_inv (snd (HandleCircuitAck now cid a cm))"
proof (cases "map_of (circuits cm) cid")
  case None
  then show ?thesis using assms by (simp add: HandleCircuitAck_def)
next
  case (Some p)
  then have l: "live cm cid p" by (simp add: live_def)
  let ?f = "\<lambda>c. c\<lparr>State := CircuitActive, LastActivity := now,
    Paths := map_prod (map_option resetHealth) (map_option resetHealth) (Paths c)\<rparr>"
  have "paths_ok (?f (objs cm ! p))"
    by (rule paths_ok_map [where f = resetHealth]) (use inv_obj [OF assms l] in \<open>auto simp: resetHealth_def health_of_def\<close>)
  then have "cm_inv (upd p ?f cm)" by (intro cm_inv_upd [OF assms l]) auto
  with close_inv [OF assms l] assms Some show ?thesis by (simp add: HandleCircuitAck_def)
qed

lemma missed_inv:
  assumes "cm_inv cm"
  shows "cm_inv (snd (cm_MissKeepalive now cid i cm))"
  unfolding cm_MissKeepalive_def
proof (rule with_path_inv [OF assms])
  fix p q assume l: "live cm cid p" and q: "path_at i (objs cm ! p) = Some q"
  have "cm_inv (upd p (set_path i (path_MissKeepalive q)) cm)"
  proof (rule cm_inv_upd [OF assms l])
    show "paths_ok (set_path i (path_MissKeepalive q) (objs cm ! p))"
      using path_MissKeepalive_ok path_at_ok [OF _ q] inv_obj [OF assms l] by (intro paths_ok_set_path) auto
  qed (use inv_obj [OF assms l] in \<open>auto simp: set_path_def\<close>)
  then show "cm_inv (snd (let wasHealthy = Health q = PathHealthHealthy; q = path_MissKeepalive q;
             cm = upd p (set_path i q) cm;
             cm = if Health q = PathHealthDegraded \<and> wasHealthy then emitEvent now EventPathDegraded cid (PathIdx i) cm else cm;
             cm = if Health q = PathHealthUnhealthy then emitEvent now EventPathUnhealthy cid (PathIdx i) cm else cm
         in case BothPathsUnhealthy (objs cm ! p) of Inl e \<Rightarrow> (Inl e, cm)
            | Inr True \<Rightarrow> (ok (), let cm = emitEvent now EventKeepaliveTimeout cid NoData cm
                  in cm\<lparr>tasks := tasks cm @ [TeardownTask cid (ascii ''both paths unhealthy'')]\<rparr>)
            | Inr False \<Rightarrow> (ok (), cm)))"
    by (auto simp: Let_def intro!: cm_inv_tasks split: sum.split bool.split)
qed

lemma touch_inv:
  assumes "cm_inv cm" "live cm cid p" "0 \<le> MissedKeepalives q" "Health q = health_of (MissedKeepalives q)"
  shows "cm_inv (upd p (\<lambda>c. UpdateActivity now (set_path i q c)) cm)"
proof (rule cm_inv_upd [OF assms(1,2)])
  show "paths_ok (UpdateActivity now (set_path i q (objs cm ! p)))"
    using paths_ok_set_path [OF inv_obj [OF assms(1,2), THEN conjunct1] assms(3,4), of i]
    by (simp add: paths_ok_def path_list_def UpdateActivity_def)
qed (use inv_obj [OF assms(1,2)] in \<open>auto simp: set_path_def UpdateActivity_def\<close>)

lemma assign_inv:
  assumes "cm_inv cm"
  shows "cm_inv (snd (AssignChunkPath rnd cid cm))"
proof (cases "map_of (circuits cm) cid")
  case (Some p)
  then have l: "live cm cid p" by (simp add: live_def)
  have "cm_inv (upd p (\<lambda>c. c\<lparr>nextPathIndex := nextPathIndex c + 1\<rparr>) cm)"
    by (rule cm_inv_upd [OF assms l]) (use inv_obj [OF assms l] in \<open>auto simp: paths_ok_def path_list_def\<close>)
  then show ?thesis using Some by (simp add: AssignChunkPath_def circuit_AssignPath_def Let_def upd_def)
qed (use assms in \<open>simp add: AssignChunkPath_def\<close>)

lemma shutdown_inv: "cm_inv cm \<Longrightarrow> cm_inv (Shutdown now cm)"
proof -
  have "cm_inv (fold (\<lambda>cid cm. snd (closeCircuit now cid r cm)) ids cm)" if "cm_inv cm" for ids r
    using that by (induction ids arbitrary: cm) (auto intro: closeCircuit_inv)
  then show "cm_inv cm \<Longrightarrow> cm_inv (Shutdown now cm)" by (simp add: Shutdown_def)
qed

lemma step_inv: "cm_step cm cm' \<Longrightarrow> cm_inv cm \<Longrightarrow> cm_inv cm'"
proof (induction rule: cm_step.induct)
  case (create cid cm c now e2eKey seed target entry exit paths)
  have c: "c_ID c = cid" "State c = CircuitCreating" by (simp_all add: create.hyps newCircuit_def)
  have "cm_inv (storeCircuit c cm)"
    by (rule storeCircuit_inv) (use create paths_ok_new c in auto)
  then show ?case by simp
next
  case (task t cm now)
  show ?case
  proof (cases t)
    case (TeardownTask cid r)
    have "cm_inv (cm\<lparr>tasks := remove1 t (tasks cm)\<rparr>)"
      by (rule cm_inv_tasks [OF task(2)]) (simp add: TeardownTask)
    then show ?thesis using startTeardown_inv TeardownTask by simp
  qed (use FlushTask_inv [OF task(2)] in simp)
next
  case (keepalive cm now cid i ts)
  show ?case unfolding HandleKeepaliveResponse_def
    by (rule with_path_inv [OF keepalive])
      (auto simp: Let_def intro!: touch_inv [OF keepalive] simp: RecordRTT_def health_of_def)
next
  case (dispatch cm now cid i n)
  show ?case unfolding RecordChunkDispatch_def
  proof (rule with_path_inv [OF dispatch])
    fix p q assume l: "live cm cid p" and q: "path_at i (objs cm ! p) = Some q"
    have "0 \<le> MissedKeepalives q \<and> Health q = health_of (MissedKeepalives q)"
      using path_at_ok [OF _ q] inv_obj [OF dispatch l] by blast
    then show "cm_inv (snd (ok (), upd p (\<lambda>c. UpdateActivity now (set_path i (RecordChunk n q) c)) cm))"
      using touch_inv [OF dispatch l, of "RecordChunk n q"] by (simp add: RecordChunk_def)
  qed
next
  case (setup_timeout cm now cid)
  then show ?case using close_inv by (auto simp: HandleSetupTimeout_def live_def split: option.split)
next
  case (matrix cm now es)
  then show ?case by (subst cm_inv_cong [of _ cm]) (simp_all add: UpdateLatencyMatrix_def)
next
  case (probing cm ps)
  then show ?case by (subst cm_inv_cong [of _ cm]) simp_all
next
  case (callback cm)
  then show ?case by (subst cm_inv_cong [of _ cm]) (simp_all add: OnCircuitEvent_def)
next
  case (idle cm now)
  then show ?case by (auto simp: CheckIdleTimeouts_def Let_def intro!: cm_inv_tasks)
qed (auto intro: ack_inv startTeardown_inv HandleTeardown_inv missed_inv assign_inv shutdown_inv)

lemma cm_inv_new: "cm_inv (NewCircuitManager dial c)"
  by (simp add: NewCircuitManager_def Let_def cm_inv_def heap_inv_def index_inv_def flush_inv_def count_inv_def live_def byExit_def)

lemma reachable_inv: "cm_step\<^sup>*\<^sup>* (NewCircuitManager dial c) cm \<Longrightarrow> cm_inv cm"
  by (induction rule: rtranclp_induct) (auto intro: cm_inv_new step_inv)

section \<open>The abstract life cycle\<close>

inductive lifecycle :: "CircuitState \<Rightarrow> CircuitState \<Rightarrow> bool" where
  "lifecycle CircuitCreating CircuitActive"
| "lifecycle CircuitCreating CircuitTeardown"
| "lifecycle CircuitActive CircuitTeardown"
| "s \<noteq> CircuitClosed \<Longrightarrow> lifecycle s CircuitClosed"

definition evolves :: "CircuitManager \<Rightarrow> CircuitManager \<Rightarrow> bool" where
  \<comment> \<open>no circuit object disappears, and each one moves along the life cycle or not at all\<close>
  "evolves cm cm' \<longleftrightarrow> length (objs cm) \<le> length (objs cm') \<and>
     (\<forall>p<length (objs cm). lifecycle\<^sup>*\<^sup>* (State (objs cm ! p)) (State (objs cm' ! p)) \<and>
        c_ID (objs cm' ! p) = c_ID (objs cm ! p))"

lemma evolves_refl [simp]: "evolves cm cm"
  by (simp add: evolves_def)

lemma evolves_trans:
  assumes "evolves a b" "evolves b c"
  shows "evolves a c"
  unfolding evolves_def
proof (intro conjI allI impI)
  show "length (objs a) \<le> length (objs c)" using assms by (simp add: evolves_def)
  fix p assume "p < length (objs a)"
  then have "p < length (objs b)" "lifecycle\<^sup>*\<^sup>* (State (objs a ! p)) (State (objs b ! p))" "c_ID (objs b ! p) = c_ID (objs a ! p)"
    using assms(1) by (auto simp: evolves_def)
  with assms(2) show "lifecycle\<^sup>*\<^sup>* (State (objs a ! p)) (State (objs c ! p))" "c_ID (objs c ! p) = c_ID (objs a ! p)"
    by (auto simp: evolves_def intro: rtranclp_trans)
qed

lemma evolves_cong: "objs cm' = objs cm \<Longrightarrow> evolves cm cm'"
  by (simp add: evolves_def)

lemma evolves_upd:
  assumes "lifecycle\<^sup>*\<^sup>* (State (objs cm ! p)) (State (f (objs cm ! p)))" "c_ID (f (objs cm ! p)) = c_ID (objs cm ! p)"
    "objs cm' = (objs cm)[p := f (objs cm ! p)]"
  shows "evolves cm cm'"
proof -
  have "objs cm' ! q = (if q = p then f (objs cm ! p) else objs cm ! q)" if "q < length (objs cm)" for q
    using that assms(3) by (simp add: nth_list_update)
  moreover have "length (objs cm') = length (objs cm)" using assms(3) by simp
  ultimately show ?thesis using assms(1,2) unfolding evolves_def by auto
qed

lemma to_closed: "lifecycle\<^sup>*\<^sup>* s CircuitClosed"
  by (cases "s = CircuitClosed") (auto intro: lifecycle.intros(4))

lemma evolves_close: "heap_inv cm \<Longrightarrow> live cm cid p \<Longrightarrow> evolves cm (close_at now cid p reason cm)"
  by (rule evolves_upd [where f = closed_of]) (auto simp: live_obj close_at_effect(1) [OF _ _ refl] intro: to_closed)

lemma evolves_closeCircuit: "heap_inv cm \<Longrightarrow> evolves cm (snd (closeCircuit now cid reason cm))"
  using evolves_close by (auto simp: closeCircuit_def live_def split: option.split)

lemma evolves_begin: "evolves cm (snd (beginTeardown now cid reason cm))"
proof (cases "map_of (circuits cm) cid")
  case (Some p)
  have "lifecycle\<^sup>*\<^sup>* s CircuitTeardown" if "s \<noteq> CircuitClosed" for s
    using that by (cases s) (auto intro: lifecycle.intros)
  then show ?thesis using Some
    by (auto simp: beginTeardown_def intro!: evolves_upd [where p = p and f = "\<lambda>c. c\<lparr>State := CircuitTeardown\<rparr>"])
qed (simp add: beginTeardown_def)

lemma evolves_with_path:
  "(\<And>p q. evolves cm (snd (f p q))) \<Longrightarrow> evolves cm (snd (with_path cid i f cm))"
  by (auto simp: with_path_def split: option.split)

lemma evolves_start: "evolves cm (snd (startTeardown now cid reason cm))"
proof -
  obtain r cm' where b: "beginTeardown now cid reason cm = (r, cm')" by fastforce
  have "objs (snd (startTeardown now cid reason cm)) = objs cm'"
    by (auto simp: startTeardown_def b split: sum.split bool.split)
  with evolves_begin [of cm now cid reason] b show ?thesis by (auto simp: evolves_def)
qed

lemma evolves_path:
  "objs cm' = (objs cm)[p := f (objs cm ! p)] \<Longrightarrow> State (f (objs cm ! p)) = State (objs cm ! p) \<Longrightarrow>
     c_ID (f (objs cm ! p)) = c_ID (objs cm ! p) \<Longrightarrow> evolves cm cm'"
  by (rule evolves_upd) auto

lemma step_evolves:
  assumes "cm_step cm cm'" "cm_inv cm"
  shows "evolves cm cm'"
  using assms
proof (induction rule: cm_step.induct)
  case (create cid cm c now e2eKey seed target entry exit paths)
  then show ?case by (auto simp: evolves_def storeCircuit_def Let_def nth_append)
next
  case (ack cm now cid a)
  have h: "heap_inv cm" using ack by (simp add: cm_inv_def)
  show ?case
  proof (cases "map_of (circuits cm) cid")
    case (Some p)
    then show ?thesis using evolves_close [OF h, of cid p]
      by (auto simp: HandleCircuitAck_def live_def intro!: evolves_upd [where p = p and
            f = "\<lambda>c. c\<lparr>State := CircuitActive, LastActivity := now,
              Paths := map_prod (map_option resetHealth) (map_option resetHealth) (Paths c)\<rparr>"] lifecycle.intros(1))
  qed (simp add: HandleCircuitAck_def)
next
  case (setup_timeout cm now cid)
  then show ?case using evolves_close
    by (auto simp: HandleSetupTimeout_def live_def cm_inv_def split: option.split)
next
  case (exit_teardown cm now cid msg)
  obtain r cm' where b: "beginTeardown now cid (td_Reason msg) cm = (r, cm')" by fastforce
  then have e: "evolves cm cm'" using evolves_begin [of cm now cid "td_Reason msg"] by simp
  show ?case
  proof (cases "r = ok True")
    case True
    have "heap_inv cm'" using beginTeardown_inv(3) [OF exit_teardown b [unfolded True]] .
    with e b True show ?thesis
      by (auto simp: HandleTeardown_def intro: evolves_trans evolves_closeCircuit)
  next
    case False
    then show ?thesis using e b by (auto simp: HandleTeardown_def split: sum.split bool.split)
  qed
next
  case (task t cm now)
  show ?case
  proof (cases t)
    case (TeardownTask cid r)
    have "evolves cm (cm\<lparr>tasks := remove1 t (tasks cm)\<rparr>)" by (rule evolves_cong) simp
    then show ?thesis using evolves_start TeardownTask by (auto intro: evolves_trans)
  next
    case (FlushTask cid r)
    have "evolves cm (cm\<lparr>tasks := remove1 t (tasks cm)\<rparr>)" by (rule evolves_cong) simp
    moreover have "heap_inv (cm\<lparr>tasks := remove1 t (tasks cm)\<rparr>)" using task by (simp add: cm_inv_def)
    ultimately show ?thesis using evolves_closeCircuit FlushTask by (auto intro: evolves_trans)
  qed
next
  case (keepalive cm now cid i ts)
  show ?case unfolding HandleKeepaliveResponse_def
    by (rule evolves_with_path) (auto simp: Let_def intro!: evolves_path simp: UpdateActivity_def set_path_def)
next
  case (missed cm now cid i)
  show ?case unfolding cm_MissKeepalive_def
    by (rule evolves_with_path, rule evolves_path [where f = "set_path i _"])
      (auto simp: Let_def set_path_def split: sum.split bool.split)
next
  case (dispatch cm now cid i n)
  show ?case unfolding RecordChunkDispatch_def
    by (rule evolves_with_path) (auto intro!: evolves_path simp: UpdateActivity_def set_path_def)
next
  case (assign cm rnd cid)
  then show ?case
    by (auto simp: AssignChunkPath_def circuit_AssignPath_def Let_def split: option.split
        intro!: evolves_path [where f = "\<lambda>c. c\<lparr>nextPathIndex := nextPathIndex c + 1\<rparr>"])
next
  case (shutdown cm now)
  have "evolves cm (fold (\<lambda>cid cm. snd (closeCircuit now cid r cm)) ids cm)" if "cm_inv cm" for ids r
    using that
  proof (induction ids arbitrary: cm)
    case (Cons i ids)
    then show ?case
      using evolves_trans [OF evolves_closeCircuit [of cm now i r]] closeCircuit_inv by (auto simp: cm_inv_def)
  qed simp
  then show ?case using shutdown by (simp add: Shutdown_def)
qed (auto intro: evolves_start evolves_cong simp: UpdateLatencyMatrix_def OnCircuitEvent_def CheckIdleTimeouts_def Let_def)

section \<open>What the manager guarantees\<close>

lemma strategy_cases:
  assumes "Paths c = (Some p0, Some p1)"
  shows "\<exists>i\<in>{0, 1}. (strategy_AssignPath rnd s c n :: ('e, int) res) = ok i \<and>
    (Healthy p0 \<and> \<not> Healthy p1 \<longrightarrow> i = 0) \<and> (Healthy p1 \<and> \<not> Healthy p0 \<longrightarrow> i = 1)"
proof -
  have "n mod 2 = 0 \<or> n mod 2 = 1" by presburger
  then show ?thesis
    by (cases s) (auto simp: assms roundRobin_AssignPath_def weighted_AssignPath_def fastestOnly_AssignPath_def
        both_paths_def the_path_def Let_def)
qed


definition examplePath :: "int \<Rightarrow> PathHealthState \<Rightarrow> CircuitPath" where
  "examplePath rtt h = \<lparr>Index = 0, Hops = [''r''], cp_RelayKeys = [replicate 32 1], TotalChunks = 0, TotalBytes = 0,
     LastRTT = rtt, Health = h, MissedKeepalives = 0, EstablishedAt = 0\<rparr>"

definition exampleCircuit :: Circuit where
  "exampleCircuit = (newCircuit 0 DefaultCircuitManagerConfig (replicate 16 7) (replicate 32 1) (replicate 32 2)
     ''t'' ''e'' ''x'' [\<lparr>Relays = [''a''], RelayKeys = [replicate 32 3]\<rparr>, \<lparr>Relays = [''b''], RelayKeys = [replicate 32 4]\<rparr>])"


lemma single_path_panics:
  "Paths c = (Some p0, None) \<Longrightarrow> strategy_AssignPath rnd s c n = Inl Panic"
  by (cases s) (simp_all add: roundRobin_AssignPath_def weighted_AssignPath_def fastestOnly_AssignPath_def both_paths_def the_path_def)

text \<open>
  C11. In every state the manager can reach, under any interleaving of its methods, timers and
  goroutines: each identifier in the circuit map leads to an open circuit with that identifier; the
  per-exit index lists, without repetition, exactly the tracked circuits of each exit and keeps no
  empty entry; and created minus closed is the number of tracked circuits.
\<close>

theorem circuit_tracking:
  assumes "cm_step\<^sup>*\<^sup>* (NewCircuitManager dial cf) cm"
  shows "(\<forall>cid p. map_of (circuits cm) cid = Some p \<longrightarrow>
      p < length (objs cm) \<and> c_ID (objs cm ! p) = cid \<and> State (objs cm ! p) \<noteq> CircuitClosed) \<and>
    (\<forall>e. distinct (byExit cm e) \<and> map_of (circuitsByExit cm) e \<noteq> Some [] \<and>
      set (byExit cm e) = {cid. \<exists>p. map_of (circuits cm) cid = Some p \<and> c_Exit (objs cm ! p) = e}) \<and>
    TotalCreated (stats cm) - TotalClosed (stats cm) = of_nat (length (circuits cm))"
  using reachable_inv [OF assms]
  unfolding cm_inv_def heap_inv_def index_inv_def count_inv_def live_def by blast

definition exampleManager :: CircuitManager where
  \<comment> \<open>one circuit, just created\<close>
  "exampleManager = emitEvent 0 EventCircuitCreated (c_ID exampleCircuit) NoData
     (storeCircuit exampleCircuit (NewCircuitManager (\<lambda>a. (1, None)) DefaultCircuitManagerConfig))"

lemma exampleManager_reachable:
  "cm_step\<^sup>*\<^sup>* (NewCircuitManager (\<lambda>a. (1, None)) DefaultCircuitManagerConfig) exampleManager"
proof -
  have "exampleCircuit = newCircuit 0 (cm_cfg (NewCircuitManager (\<lambda>a. (1, None)) DefaultCircuitManagerConfig))
      (c_ID exampleCircuit) (replicate 32 1) (replicate 32 2) ''t'' ''e'' ''x''
      [\<lparr>Relays = [''a''], RelayKeys = [replicate 32 3]\<rparr>, \<lparr>Relays = [''b''], RelayKeys = [replicate 32 4]\<rparr>]"
    by (simp add: exampleCircuit_def newCircuit_def NewCircuitManager_def DefaultCircuitManagerConfig_def)
  moreover have "objs (NewCircuitManager dial cf) = []" for dial cf by (simp add: NewCircuitManager_def Let_def)
  ultimately show ?thesis
    unfolding exampleManager_def by (intro r_into_rtranclp cm_step.create) simp_all
qed

theorem circuit_tracking_witness:
  "set (byExit exampleManager ''x'') = {cid. \<exists>p. map_of (circuits exampleManager) cid = Some p \<and> c_Exit (objs exampleManager ! p) = ''x''} \<and>
   byExit exampleManager ''x'' = [replicate 16 7]"
proof
  show "set (byExit exampleManager ''x'') = {cid. \<exists>p. map_of (circuits exampleManager) cid = Some p \<and> c_Exit (objs exampleManager ! p) = ''x''}"
    using circuit_tracking [OF exampleManager_reachable] by blast
  show "byExit exampleManager ''x'' = [replicate 16 7]" by code_simp
qed

lemma delete_absent: "map_of xs k = None \<Longrightarrow> AList.delete k xs = xs"
  by (simp add: delete_idem map_of_eq_None_iff)

lemma closeCircuit_circuits:
  assumes "heap_inv cm"
  shows "circuits (snd (closeCircuit now cid r cm)) = AList.delete cid (circuits cm)"
  using close_at_effect(2) [OF _ _ refl, of cm cid _ now r] live_obj(1) [OF assms, of cid]
  by (auto simp: closeCircuit_def live_def delete_absent split: option.split)

lemma Shutdown_empty:
  assumes "cm_inv cm"
  shows "circuits (Shutdown now cm) = []"
proof -
  have "circuits (fold (\<lambda>cid cm. snd (closeCircuit now cid r cm)) ids cm) = []"
    if "cm_inv cm" "fst ` set (circuits cm) \<subseteq> set ids" for ids r
    using that
  proof (induction ids arbitrary: cm)
    case (Cons i ids)
    have "heap_inv cm" using Cons.prems by (simp add: cm_inv_def)
    then have "fst ` set (circuits (snd (closeCircuit now i r cm))) \<subseteq> set ids"
      using Cons.prems(2) by (auto simp: closeCircuit_circuits AList.delete_eq)
    with Cons closeCircuit_inv show ?case by simp
  qed simp
  from this [OF assms, of "map fst (circuits cm)"] show ?thesis by (simp add: Shutdown_def)
qed

text \<open>
  C24. Key material does not outlive a circuit: in every reachable state a circuit that is no longer
  tracked is closed, and its end-to-end key, its padding seed and all its relay keys are zero; after
  a shutdown no circuit is tracked and this holds of every circuit ever created.
\<close>

theorem released_keys_zeroed:
  assumes "cm_step\<^sup>*\<^sup>* (NewCircuitManager dial cf) cm"
  shows "(\<forall>p<length (objs cm). map_of (circuits cm) (c_ID (objs cm ! p)) \<noteq> Some p \<longrightarrow> erased (objs cm ! p)) \<and>
    circuits (Shutdown now cm) = [] \<and> (\<forall>c\<in>set (objs (Shutdown now cm)). erased c)"
proof -
  have inv: "cm_inv cm" using reachable_inv [OF assms] .
  then have "cm_inv (Shutdown now cm)" using step_inv cm_step.shutdown by blast
  moreover have empty: "circuits (Shutdown now cm) = []" using Shutdown_empty [OF inv] .
  ultimately show ?thesis using inv
    unfolding cm_inv_def heap_inv_def live_def by (auto simp: in_set_conv_nth)
qed

theorem released_keys_zeroed_witness:
  "circuits (Shutdown 1 exampleManager) = [] \<and> erased (objs (Shutdown 1 exampleManager) ! 0)"
proof -
  have "objs (Shutdown 1 exampleManager) ! 0 \<in> set (objs (Shutdown 1 exampleManager))" by (rule nth_mem) code_simp
  then show ?thesis using released_keys_zeroed [OF exampleManager_reachable, of 1] by blast
qed

text \<open>
  C25. A teardown completes: whenever a tracked circuit is in TEARDOWN, its flush timer is still
  pending, and the step the timer takes removes the circuit, closes it and erases its keys.
\<close>

theorem teardown_completes:
  assumes "cm_step\<^sup>*\<^sup>* (NewCircuitManager dial cf) cm"
    "map_of (circuits cm) cid = Some p" "State (objs cm ! p) = CircuitTeardown"
  shows "\<exists>r. FlushTask cid r \<in> set (tasks cm) \<and> cm_step cm (run_task now (FlushTask cid r) cm) \<and>
    map_of (circuits (run_task now (FlushTask cid r) cm)) cid = None \<and>
    erased (objs (run_task now (FlushTask cid r) cm) ! p)"
proof -
  have inv: "cm_inv cm" using reachable_inv [OF assms(1)] .
  then obtain r where r: "FlushTask cid r \<in> set (tasks cm)"
    using flush_pending [OF _ _ assms(3)] assms(2) unfolding live_def by blast
  let ?cm = "cm\<lparr>tasks := remove1 (FlushTask cid r) (tasks cm)\<rparr>"
  have h: "heap_inv ?cm" and l: "live ?cm cid p" using inv assms(2) by (simp_all add: cm_inv_def live_def)
  have run: "run_task now (FlushTask cid r) cm = close_at now cid p r ?cm"
    using assms(2) by (simp add: closeCircuit_def)
  show ?thesis
    using r cm_step.task [OF r] close_at_effect(1,2) [OF l live_obj(1) [OF h l] run] live_obj(1) [OF h l] erased_closed
    by (intro exI [of _ r]) (auto simp del: run_task.simps simp: delete_conv')
qed

definition exampleTeardown :: CircuitManager where
  "exampleTeardown = snd (startTeardown 1 (replicate 16 7) (ascii ''user'') exampleManager)"

lemma exampleTeardown_reachable:
  "cm_step\<^sup>*\<^sup>* (NewCircuitManager (\<lambda>a. (1, None)) DefaultCircuitManagerConfig) exampleTeardown"
  unfolding exampleTeardown_def
  by (rule rtranclp.rtrancl_into_rtrancl [OF exampleManager_reachable cm_step.teardown])

theorem teardown_completes_witness:
  "\<exists>r. FlushTask (replicate 16 7) r \<in> set (tasks exampleTeardown) \<and>
     erased (objs (run_task 2 (FlushTask (replicate 16 7) r) exampleTeardown) ! 0)"
proof -
  have "map_of (circuits exampleTeardown) (replicate 16 7) = Some 0" "State (objs exampleTeardown ! 0) = CircuitTeardown"
    by code_simp+
  from teardown_completes [OF exampleTeardown_reachable this, of 2] show ?thesis by blast
qed



lemma drawKeys_length: "drawKeys n rnd = ok (ks, rnd') \<Longrightarrow> length ks = n \<and> (\<forall>k\<in>set ks. length k = KeySize)"
  by (induction n arbitrary: rnd ks) (auto simp: res_iffs split: if_splits)

lemma graphPaths_spec:
  "graphPaths rnd gs = ok ps \<Longrightarrow> map Relays ps = map relays_of gs \<and> (\<forall>p\<in>set ps. length (RelayKeys p) = length (Relays p))"
  by (induction gs arbitrary: rnd ps)
    (fastforce simp: res_iffs graphPathToProxyPath_def Let_def dest: drawKeys_length)+

lemma cm_selectPaths_bfs:
  assumes "cm_selectPaths now rnd entry exit cands cm = Some (ok ps, cm1)" "SelectionStrategy (cm_cfg cm) = ''bfs''"
    "cm_PathCount (cm_cfg cm) = 2" "wf_matrix (matrix cm)" "entry \<noteq> []"
  shows "cm1 = cm \<and> (\<exists>g1 g2. map Relays ps = [relays_of g1, relays_of g2] \<and> set (relays_of g1) \<inter> set (relays_of g2) = {} \<and>
    (\<forall>p\<in>set ps. length (RelayKeys p) = length (Relays p)) \<and>
    shortest (matrix cm) {} entry exit g1 \<and> shortest (matrix cm) (set (relays_of g1)) entry exit g2)"
proof -
  obtain gs where gs: "KShortestDisjointPaths (matrix cm) entry exit 2 = Some (Inr gs)" "length gs = 2"
    "disjoint_seq (matrix cm) entry exit {} gs"
    using KShortestDisjointPaths_spec [OF assms(4,5), of exit 2] assms(1-3)
    by (auto simp: cm_selectPaths_def useBFS_def)
  obtain g1 g2 where g: "gs = [g1, g2]" using gs(2) by (auto simp: length_Suc_conv numeral_2_eq_2)
  have p: "graphPaths rnd gs = ok ps" "cm1 = cm"
    using assms(1-3) gs(1) by (auto simp: cm_selectPaths_def useBFS_def res_iffs)
  have "set (relays_of g1) \<inter> set (relays_of g2) = {}" "shortest (matrix cm) {} entry exit g1"
    "shortest (matrix cm) (set (relays_of g1)) entry exit g2"
    using gs(3) disjoint_seq_distinct [OF gs(3)] by (auto simp: g)
  then show ?thesis using graphPaths_spec [OF p(1)] p(2) g by auto
qed

lemma CreateCircuit_cases:
  assumes "CreateCircuit now rk rnd target entry exit cands cm = Some (ok cid, cm')"
  shows "\<exists>ps cm1 e2e seed. checkLimits exit cm \<and> cm_selectPaths now rk entry exit cands cm = Some (ok ps, cm1) \<and>
    cm' = emitEvent now EventCircuitCreated cid NoData (storeCircuit (newCircuit now (cm_cfg cm1) cid e2e seed target entry exit ps) cm1)"
proof -
  have lim: "checkLimits exit cm" using assms by (auto simp: CreateCircuit_def split: if_splits)
  obtain r cm1 where sel: "cm_selectPaths now rk entry exit cands cm = Some (r, cm1)"
    using assms lim by (auto simp: CreateCircuit_def bind_eq_Some_conv)
  have i: "c_ID (newCircuit now cf i e2e seed target entry exit ps) = i" for cf i e2e seed ps by (simp add: newCircuit_def)
  show ?thesis
  proof (cases r)
    case (Inr ps)
    then show ?thesis using assms lim sel
      by (auto simp: CreateCircuit_def Let_def drawBytes_def i split: if_splits)
  qed (use assms lim sel in \<open>simp add: CreateCircuit_def\<close>)
qed

lemma cm_selectPaths_frame:
  assumes "cm_selectPaths now rk entry exit cands cm = Some (r, cm1)"
  shows "\<exists>ps. cm1 = cm\<lparr>probe := ps\<rparr>"
proof -
  let ?k = "KShortestDisjointPaths (matrix cm) entry exit (nat (cm_PathCount (cm_cfg cm)))"
  have same: "\<exists>ps. cm = cm\<lparr>probe := ps\<rparr>" by (rule exI [of _ "probe cm"]) simp
  have "?k = None \<or> (\<exists>e. ?k = Some (Inl e)) \<or> (\<exists>ps. ?k = Some (Inr ps))"
    by (metis option.exhaust sum.exhaust)
  then have "cm1 = cm \<or> probePaths now rk cands cm = (r, cm1)"
    using assms by (elim disjE exE) (auto simp: cm_selectPaths_def split: if_splits)
  with same show ?thesis by (auto simp: probePaths_def split: if_splits prod.splits)
qed

lemma CreateCircuit_steps:
  assumes "CreateCircuit now rk rnd target entry exit cands cm = Some (ok cid, cm')" "cid \<notin> c_ID ` set (objs cm)"
  shows "cm_step\<^sup>*\<^sup>* cm cm'"
proof -
  obtain ps cm1 e2e seed where c: "cm_selectPaths now rk entry exit cands cm = Some (ok ps, cm1)"
    "cm' = emitEvent now EventCircuitCreated cid NoData (storeCircuit (newCircuit now (cm_cfg cm1) cid e2e seed target entry exit ps) cm1)"
    using CreateCircuit_cases [OF assms(1)] by blast
  obtain pr where f: "cm1 = cm\<lparr>probe := pr\<rparr>" using cm_selectPaths_frame [OF c(1)] by blast
  have "cm_step cm cm1" unfolding f by (rule cm_step.probing)
  moreover have "cm_step cm1 cm'" unfolding c(2) by (rule cm_step.create [OF _ refl]) (simp add: f assms(2))
  ultimately show ?thesis by simp
qed

lemma storeCircuit_effect:
  assumes "heap_inv cm" "c_ID c \<notin> c_ID ` set (objs cm)"
  shows "length (circuits (storeCircuit c cm)) = length (circuits cm) + 1"
    "map_of (circuits (storeCircuit c cm)) (c_ID c) = Some (length (objs cm))"
    "objs (storeCircuit c cm) = objs cm @ [c]"
    "length (byExit (storeCircuit c cm) (c_Exit c)) = length (byExit cm (c_Exit c)) + 1"
proof -
  have "map_of (circuits cm) (c_ID c) = None"
    using assms live_obj(1,2) [OF assms(1), of "c_ID c"] unfolding live_def by (metis image_eqI not_None_eq nth_mem)
  then show "length (circuits (storeCircuit c cm)) = length (circuits cm) + 1"
    by (simp add: storeCircuit_def Let_def map_of_eq_None_iff length_alist_update)
qed (simp_all add: storeCircuit_def Let_def byExit_def update_conv' split: option.split)

text \<open>
  Creating a circuit over the latency graph, with the checks of one call not interleaved with
  another: a call that succeeds with a fresh identifier registers one new circuit in CREATING,
  within the total and the per-exit limit, whose two paths are the relays of a shortest route and
  of a shortest route around those relays, so that the paths share no relay.
\<close>

lemma created_circuit:
  assumes "cm_step\<^sup>*\<^sup>* (NewCircuitManager dial cf) cm"
    "CreateCircuit now rk rnd target entry exit cands cm = Some (ok cid, cm')"
    "cid \<notin> c_ID ` set (objs cm)" "SelectionStrategy (cm_cfg cm) = ''bfs''" "cm_PathCount (cm_cfg cm) = 2"
    "wf_matrix (matrix cm)" "entry \<noteq> []"
  shows "int (length (circuits cm')) \<le> MaxCircuitsTotal (cm_cfg cm) \<and>
    int (length (byExit cm' exit)) \<le> MaxCircuitsPerExit (cm_cfg cm) \<and>
    (\<exists>c p0 p1 g1 g2. objs cm' = objs cm @ [c] \<and> map_of (circuits cm') cid = Some (length (objs cm)) \<and>
       State c = CircuitCreating \<and> c_Exit c = exit \<and> Paths c = (Some p0, Some p1) \<and>
       Hops p0 = relays_of g1 \<and> Hops p1 = relays_of g2 \<and> set (Hops p0) \<inter> set (Hops p1) = {} \<and>
       shortest (matrix cm) {} entry exit g1 \<and> shortest (matrix cm) (set (Hops p0)) entry exit g2)"
proof -
  obtain ps cm1 e2e seed where lim: "checkLimits exit cm" and
    sel: "cm_selectPaths now rk entry exit cands cm = Some (ok ps, cm1)" and
    cm': "cm' = emitEvent now EventCircuitCreated cid NoData (storeCircuit (newCircuit now (cm_cfg cm1) cid e2e seed target entry exit ps) cm1)"
    using CreateCircuit_cases [OF assms(2)] by blast
  obtain g1 g2 where s: "cm1 = cm" "map Relays ps = [relays_of g1, relays_of g2]"
    "set (relays_of g1) \<inter> set (relays_of g2) = {}" "shortest (matrix cm) {} entry exit g1"
    "shortest (matrix cm) (set (relays_of g1)) entry exit g2"
    using cm_selectPaths_bfs [OF sel assms(4-7)] by auto
  obtain q0 q1 where ps: "ps = [q0, q1]" "Relays q0 = relays_of g1" "Relays q1 = relays_of g2" using s(2) by auto
  let ?c = "newCircuit now (cm_cfg cm) cid e2e seed target entry exit ps"
  have c: "c_ID ?c = cid" "c_Exit ?c = exit" "State ?c = CircuitCreating"
    "Paths ?c = (Some (newCircuitPath now 0 q0), Some (newCircuitPath now 1 q1))"
    by (simp_all add: newCircuit_def ps)
  have h: "heap_inv cm" using reachable_inv [OF assms(1)] by (simp add: cm_inv_def)
  have b: "byExit (emitEvent now t i d cm) = byExit cm" for now t i d cm by (simp add: byExit_def fun_eq_iff)
  note e = storeCircuit_effect [OF h, of ?c, unfolded c, OF assms(3)]
  have "int (length (circuits cm')) \<le> MaxCircuitsTotal (cm_cfg cm)"
    "int (length (byExit cm' exit)) \<le> MaxCircuitsPerExit (cm_cfg cm)"
    using lim e(1,4) unfolding cm' s(1) checkLimits_def byExit_def [symmetric] b by simp_all
  moreover have "objs cm' = objs cm @ [?c]" "map_of (circuits cm') cid = Some (length (objs cm))"
    using e(2,3) by (simp_all add: cm' s(1))
  moreover have "Hops (newCircuitPath now 0 q0) = relays_of g1" "Hops (newCircuitPath now 1 q1) = relays_of g2"
    by (simp_all add: newCircuitPath_def ps)
  ultimately show ?thesis using s(3-5) c(2-4) by (intro conjI exI) (assumption | simp)+
qed

definition exampleMesh :: CircuitManager where
  \<comment> \<open>two relays between \<open>e\<close> and \<open>x\<close>\<close>
  "exampleMesh = UpdateLatencyMatrix 0 [link ''e'' ''a'' 1, link ''a'' ''x'' 1, link ''e'' ''b'' 2, link ''b'' ''x'' 2]
     (NewCircuitManager (\<lambda>a. (1, None)) (DefaultCircuitManagerConfig\<lparr>SelectionStrategy := ''bfs''\<rparr>))"

text \<open>The limits hold for one call at a time only: two calls that both pass the check before either stores its circuit.\<close>

lemma limit_race:
  assumes "cm_step\<^sup>*\<^sup>* (NewCircuitManager dial cf) cm" "c_ID c1 \<notin> c_ID ` set (objs cm)" "c_ID c2 \<notin> c_ID ` set (objs cm)"
    "c_ID c1 \<noteq> c_ID c2" "State c1 = CircuitCreating" "paths_ok c1"
    "int (length (circuits cm)) = MaxCircuitsTotal (cm_cfg cm) - 1" "checkLimits (c_Exit c1) cm" "checkLimits (c_Exit c2) cm"
  shows "int (length (circuits (storeCircuit c2 (storeCircuit c1 cm)))) = MaxCircuitsTotal (cm_cfg cm) + 1"
proof -
  have inv: "cm_inv cm" using reachable_inv [OF assms(1)] .
  then have h: "heap_inv cm" by (simp add: cm_inv_def)
  have "cm_inv (storeCircuit c1 cm)" using storeCircuit_inv inv assms(2,5,6) by auto
  then have h1: "heap_inv (storeCircuit c1 cm)" by (simp add: cm_inv_def)
  show ?thesis
    using storeCircuit_effect(1) [OF h1, of c2] storeCircuit_effect(1,3) [OF h assms(2)] assms(3,4,7) by auto
qed

end
