(* ===== verification/Overlap.thy ===== *)
theory Overlap
  imports Path_Selector
begin

text \<open>
  Overlap analysis of path pairs (\<open>internal/proxy/overlap.go\<close>): the report, the searches for a
  disjoint pair, and the validation of configured paths. A path's node set is the set of its
  relays, so the order of \<open>SharedNodes\<close>, which follows map iteration, is that of the relay list.
\<close>

record OverlapReport =
  or_HasOverlap :: bool
  SharedNodes :: "string list"
  Path1Nodes :: "string set"
  Path2Nodes :: "string set"
  DiversityScore :: rat

definition AnalyzeOverlap :: "Path \<Rightarrow> Path \<Rightarrow> OverlapReport" where
  "AnalyzeOverlap p1 p2 =
     (let shared = filter (\<lambda>n. n \<in> Nodes p2) (remdups (Relays p1));
          unionSize = card (Nodes p1) + card (Nodes p2) - length shared
      in \<lparr>or_HasOverlap = (length shared > 0), SharedNodes = shared, Path1Nodes = Nodes p1, Path2Nodes = Nodes p2,
          DiversityScore = (if unionSize > 0 then 1 - of_nat (length shared) / of_nat unionSize else 1)\<rparr>)"

datatype overlap_error = SharedRelays "string list" | FewCandidates nat | NoDisjointPair
  | KeyCount nat nat | KeySizeMismatch nat

definition RejectIfOverlap :: "Path \<Rightarrow> Path \<Rightarrow> (overlap_error, unit) res" where
  "RejectIfOverlap p1 p2 =
     guard (or_HasOverlap (AnalyzeOverlap p1 p2)) (SharedRelays (SharedNodes (AnalyzeOverlap p1 p2))) (ok ())"

definition index_pairs :: "'a list \<Rightarrow> ('a \<times> 'a) list" where
  \<comment> \<open>the pairs \<open>i < j\<close> in the order of the nested loops\<close>
  "index_pairs xs = concat (map (\<lambda>i. map (\<lambda>j. (xs ! i, xs ! j)) [i + 1..<length xs]) [0..<length xs])"

definition bestDiverse :: "(Path \<times> Path) list \<Rightarrow> rat \<times> (Path \<times> Path) option" where
  \<comment> \<open>the fallback the loop tracks: the most diverse pair, the first of equals\<close>
  "bestDiverse ps = fold (\<lambda>(p, q) (best, r). let s = DiversityScore (AnalyzeOverlap p q)
                            in if s > best then (s, Some (p, q)) else (best, r)) ps (-1, None)"

definition FindDisjointPair :: "Path list \<Rightarrow> (Path \<times> Path) option \<times> overlap_error option" where
  "FindDisjointPair candidates =
     (if length candidates < 2 then (None, Some (FewCandidates (length candidates)))
      else case List.find (\<lambda>(p, q). \<not> or_HasOverlap (AnalyzeOverlap p q)) (index_pairs candidates) of
             Some pq \<Rightarrow> (Some pq, None)
           | None \<Rightarrow> (snd (bestDiverse (index_pairs candidates)), Some NoDisjointPair))"

definition FindBestDisjointPair :: "(Path \<Rightarrow> rat) \<Rightarrow> Path list \<Rightarrow> (overlap_error, Path \<times> Path) res" where
  \<comment> \<open>the initial \<open>MaxFloat64\<close> stands above every score\<close>
  "FindBestDisjointPair qualityFn candidates =
     guard (length candidates < 2) (FewCandidates (length candidates))
     (case fold (\<lambda>(p, q) best.
             if or_HasOverlap (AnalyzeOverlap p q) then best
             else let score = qualityFn p + qualityFn q
                  in case best of
                       None \<Rightarrow> Some (score, p, q)
                     | Some (s, _) \<Rightarrow> if score < s then Some (score, p, q) else best)
           (index_pairs candidates) None of
        None \<Rightarrow> err NoDisjointPair
      | Some (_, p, q) \<Rightarrow> ok (p, q))"

definition PathQualityMetric :: "Path \<Rightarrow> rat" where
  "PathQualityMetric p = of_nat (length (Relays p)) * 10"

definition MultiHopOverlap :: "Path \<Rightarrow> Path \<Rightarrow> bool" where
  "MultiHopOverlap p1 p2 = or_HasOverlap (AnalyzeOverlap p1 p2)"

definition checkKeys :: "Path \<Rightarrow> (overlap_error, unit) res" where
  \<comment> \<open>the loop over the key sizes of one path\<close>
  "checkKeys p = (case List.find (\<lambda>k. length k \<noteq> KeySize) (RelayKeys p) of
     Some k \<Rightarrow> err (KeySizeMismatch (length k)) | None \<Rightarrow> ok ())"

definition ValidatePathPair :: "Path \<Rightarrow> Path \<Rightarrow> (overlap_error, unit) res" where
  "ValidatePathPair p1 p2 =
     guard (length (RelayKeys p1) \<noteq> length (Relays p1)) (KeyCount (length (RelayKeys p1)) (length (Relays p1)))
     (guard (length (RelayKeys p2) \<noteq> length (Relays p2)) (KeyCount (length (RelayKeys p2)) (length (Relays p2)))
     (and_then (checkKeys p1) (\<lambda>_. and_then (checkKeys p2) (\<lambda>_. RejectIfOverlap p1 p2))))"

section \<open>The analysis agrees with the dispatcher's check\<close>

lemma HasOverlap_iff: "HasOverlap a b \<longleftrightarrow> set (Relays a) \<inter> set (Relays b) \<noteq> {}"
  by (auto simp: HasOverlap_def Nodes_def list_ex_iff)

lemma AnalyzeOverlap_HasOverlap: "or_HasOverlap (AnalyzeOverlap p q) = HasOverlap p q"
  by (auto simp: AnalyzeOverlap_def Let_def HasOverlap_iff Nodes_def filter_empty_conv length_greater_0_conv)

lemma shared_card: "length (SharedNodes (AnalyzeOverlap p q)) = card (Nodes p \<inter> Nodes q)"
proof -
  let ?s = "filter (\<lambda>n. n \<in> Nodes q) (remdups (Relays p))"
  have "card (set ?s) = length ?s" by (rule distinct_card) simp
  moreover have "set ?s = Nodes p \<inter> Nodes q" by (auto simp: Nodes_def)
  ultimately show ?thesis by (simp add: AnalyzeOverlap_def Let_def)
qed

lemma DiversityScore_Jaccard:
  assumes "Nodes p \<union> Nodes q \<noteq> {}"
  shows "DiversityScore (AnalyzeOverlap p q) = 1 - of_nat (card (Nodes p \<inter> Nodes q)) / of_nat (card (Nodes p \<union> Nodes q))"
proof -
  have fin: "finite (Nodes p)" "finite (Nodes q)" by (simp_all add: Nodes_def)
  have u: "card (Nodes p) + card (Nodes q) - card (Nodes p \<inter> Nodes q) = card (Nodes p \<union> Nodes q)"
    using card_Un_Int [OF fin] by simp
  moreover have "0 < card (Nodes p \<union> Nodes q)" using assms fin by (simp add: card_gt_0_iff)
  moreover have "length (filter (\<lambda>n. n \<in> Nodes q) (remdups (Relays p))) = card (Nodes p \<inter> Nodes q)"
    using shared_card [of p q] by (simp add: AnalyzeOverlap_def Let_def)
  ultimately show ?thesis by (simp add: AnalyzeOverlap_def Let_def)
qed

lemma index_pairs_set: "set (index_pairs xs) = {(xs ! i, xs ! j) | i j. i < j \<and> j < length xs}"
  by (fastforce simp: index_pairs_def)

lemma FindDisjointPair_correct:
  assumes "FindDisjointPair cs = (r, None)"
  shows "\<exists>i j. i < j \<and> j < length cs \<and> r = Some (cs ! i, cs ! j) \<and> \<not> HasOverlap (cs ! i) (cs ! j)"
proof -
  from assms obtain p q where f: "List.find (\<lambda>(p, q). \<not> or_HasOverlap (AnalyzeOverlap p q)) (index_pairs cs) = Some (p, q)"
    "r = Some (p, q)"
    by (auto simp: FindDisjointPair_def split: if_splits option.splits)
  from f(1) have "(p, q) \<in> set (index_pairs cs)" "\<not> HasOverlap p q"
    by (auto simp: find_Some_iff AnalyzeOverlap_HasOverlap in_set_conv_nth)
  with f(2) show ?thesis by (auto simp: index_pairs_set)
qed

end
