(* ===== verification/Dispatcher.thy ===== *)
theory Dispatcher
  imports Circuit_Manager Overlap Wire
begin

text \<open>
  The entry-side dispatcher (\<open>internal/proxy/dispatcher.go\<close>): it reads the client connection, cuts
  the data into chunks, assigns each a path, encrypts it and sends it. The connection is the list
  of results its \<open>Read\<close> calls return; \<open>sendOK\<close> says, from what was sent before, whether a call of
  the send callback succeeds; \<open>rnd\<close> is what \<open>crypto/rand\<close> delivers, and \<open>draw n\<close> the float of the
  weighted strategy at the \<open>n\<close>-th assignment.
\<close>

section \<open>Configuration and state\<close>

record CircuitConfig =
  cc_IdleTimeout :: int
  cc_KeepaliveInterval :: int
  NACKTimeout :: int
  OrphanTimeout :: int
  MaxReassemblyWindow :: int
  cc_StreamReassemblyTimeout :: int
  MaxNACKRetries :: int

definition DefaultCircuitConfig :: CircuitConfig where
  "DefaultCircuitConfig =
     \<lparr>cc_IdleTimeout = 5 * 60 * 10 ^ 9, cc_KeepaliveInterval = 30 * 10 ^ 9, NACKTimeout = 5 * 10 ^ 9,
      OrphanTimeout = 30 * 10 ^ 9, MaxReassemblyWindow = 256, cc_StreamReassemblyTimeout = 60 * 10 ^ 9,
      MaxNACKRetries = 3\<rparr>"

record DispatcherConfig =
  ChunkerStrategy :: string
  ChunkerCfg :: ChunkerConfig
  CircuitCfg :: CircuitConfig
  Path1 :: "Path option"
  Path2 :: "Path option"
  d_E2EKey :: bytes
  d_CircuitID :: bytes
  ExitAddr :: string
  DebugFixedChunks :: bool
  d_Assignment :: "ChunkAssignmentStrategy option"

record pathStats =
  p1Chunks :: int
  p2Chunks :: int
  p1Bytes :: int
  p2Bytes :: int

record Dispatcher =
  d_cfg :: DispatcherConfig
  d_chunker :: Chunker
  d_chunkerCfg :: ChunkerConfig
  d_streamID :: u32
  d_nextSeq :: u32
  d_closed :: bool
  d_pathStats :: pathStats
  d_strategy :: ChunkAssignmentStrategy
  d_callCount :: int

datatype disp_error =
    E2EKeyLength nat | DispCircuitID nat | NeedTwoPaths | DispOverlap | SeedFailed
  | EncodeFailed proto_error | SendFailed | ReadFailed | DispCancelled

definition NewDispatcher ::
    "(bytes \<Rightarrow> bytes) \<Rightarrow> (bytes \<Rightarrow> bytes \<Rightarrow> bytes) \<Rightarrow> chunkerFactory registry \<Rightarrow> bytes \<Rightarrow> DispatcherConfig \<Rightarrow>
     (disp_error, Dispatcher) res" where
  "NewDispatcher sha256 aes reg rnd c =
     guard (length (d_E2EKey c) \<noteq> KeySize) (E2EKeyLength (length (d_E2EKey c)))
     (guard (length (d_CircuitID c) \<noteq> CircuitIDSize) (DispCircuitID (length (d_CircuitID c)))
     (case (Path1 c, Path2 c) of
        (Some p1, Some p2) \<Rightarrow>
          guard (HasOverlap p1 p2) DispOverlap
          (let strategy = (if ChunkerStrategy c = [] then boundedName else ChunkerStrategy c);
               strategy = (if DebugFixedChunks c then fixed16kName else strategy);
               cc = (if MaxChunkSize (ChunkerCfg c) = 0 then DefaultChunkerConfig else ChunkerCfg c)
           in and_then (if PaddingSeed cc \<noteq> [] then ok cc
                        else if 32 \<le> length rnd then ok (cc\<lparr>PaddingSeed := take 32 rnd\<rparr>)
                        else err SeedFailed) (\<lambda>cc.
              case NewChunkerWithConfig (NewPaddingSource sha256 aes (drop 32 rnd) cc) reg strategy cc of
                Inl _ \<Rightarrow> Inl Panic
              | Inr ck \<Rightarrow>
                  ok \<lparr>d_cfg = c, d_chunker = ck, d_chunkerCfg = cc, d_streamID = 0, d_nextSeq = 0,
                      d_closed = False, d_pathStats = \<lparr>p1Chunks = 0, p2Chunks = 0, p1Bytes = 0, p2Bytes = 0\<rparr>,
                      d_strategy = (case d_Assignment c of None \<Rightarrow> RoundRobinStrategy | Some s \<Rightarrow> s),
                      d_callCount = 0\<rparr>))
      | _ \<Rightarrow> err NeedTwoPaths))"

section \<open>Running\<close>

definition buildCircuitPaths :: "int \<Rightarrow> DispatcherConfig \<Rightarrow> CircuitPath option \<times> CircuitPath option" where
  "buildCircuitPaths now c =
     (map_option (newCircuitPath now 0) (Path1 c), map_option (newCircuitPath now 1) (Path2 c))"

definition assignCircuit :: "ChunkAssignmentStrategy \<Rightarrow> CircuitPath option \<times> CircuitPath option \<Rightarrow> Circuit" where
  \<comment> \<open>the throw-away circuit handed to the strategy, which reads its paths only\<close>
  "assignCircuit s paths =
     \<lparr>c_ID = [], State = CircuitCreating, CreatedAt = 0, LastActivity = 0, c_Entry = [], c_Exit = [],
      TargetAddr = [], E2EKey = [], c_PaddingSeed = [], Paths = paths, AssignmentStrategy = s,
      KeepaliveInterval = 0, IdleTimeout = 0, nextPathIndex = 0\<rparr>"

definition firstHop :: "DispatcherConfig \<Rightarrow> int \<Rightarrow> ('e, bytes \<times> bytes) res" where
  \<comment> \<open>next hop and header key for the path; a nil path or a relay without a key panics\<close>
  "firstHop c pathIdx =
     (case if pathIdx = 0 then Path1 c else Path2 c of
        None \<Rightarrow> Inl Panic
      | Some p \<Rightarrow>
          (case Relays p of
             [] \<Rightarrow> ok (ascii (ExitAddr c), d_E2EKey c)
           | r # _ \<Rightarrow> (case RelayKeys p of [] \<Rightarrow> Inl Panic | k # _ \<Rightarrow> ok (ascii r, k))))"

record running =
  rd :: Dispatcher
  rpaths :: "CircuitPath option \<times> CircuitPath option"
  rsent :: "(int \<times> WireChunk) list"
  rrnd :: bytes

type_synonym sender = "(int \<times> WireChunk) list \<Rightarrow> int \<Rightarrow> WireChunk \<Rightarrow> bool"

definition countChunk :: "int \<Rightarrow> nat \<Rightarrow> pathStats \<Rightarrow> pathStats" where
  "countChunk pathIdx n st =
     (if pathIdx = 0 then st\<lparr>p1Chunks := p1Chunks st + 1, p1Bytes := p1Bytes st + int n\<rparr>
      else st\<lparr>p2Chunks := p2Chunks st + 1, p2Bytes := p2Bytes st + int n\<rparr>)"

definition recordOn :: "int \<Rightarrow> nat \<Rightarrow> CircuitPath option \<times> CircuitPath option \<Rightarrow> CircuitPath option \<times> CircuitPath option" where
  "recordOn i n ps = (if i = 0 then apfst (map_option (RecordChunk n)) ps else apsnd (map_option (RecordChunk n)) ps)"

definition dispatchChunk ::
    "(bytes \<Rightarrow> bytes \<Rightarrow> bytes) \<Rightarrow> (bytes \<Rightarrow> bytes \<Rightarrow> bytes \<Rightarrow> bytes \<Rightarrow> bytes) \<Rightarrow> sender \<Rightarrow> (int \<Rightarrow> rat) \<Rightarrow>
     chunk \<Rightarrow> running \<Rightarrow> (disp_error, unit) res \<times> running" where
  \<comment> \<open>the body of the loop over the chunks of one read\<close>
  "dispatchChunk aes seal sendOK draw ch s =
     (let d = rd s;
          ch = ch\<lparr>StreamID := d_streamID d, Sequence := d_nextSeq d\<rparr>;
          callCount = d_callCount d;
          s = s\<lparr>rd := d\<lparr>d_nextSeq := d_nextSeq d + 1, d_callCount := callCount + 1\<rparr>\<rparr>;
          ch = ch\<lparr>Total := 0\<rparr>
      in case strategy_AssignPath (draw callCount) (d_strategy d) (assignCircuit (d_strategy d) (rpaths s)) callCount of
           Inl e \<Rightarrow> (Inl e, s)
         | Inr pathIdx \<Rightarrow>
             (case firstHop (d_cfg d) pathIdx of
                Inl e \<Rightarrow> (Inl e, s)
              | Inr (nextHop, relayKey) \<Rightarrow>
                  (case EncodeChunk aes seal (rrnd s) ch (d_E2EKey (d_cfg d)) relayKey nextHop (d_CircuitID (d_cfg d)) of
                     Inl Panic \<Rightarrow> (Inl Panic, s)
                   | Inl (Err e) \<Rightarrow> (err (EncodeFailed e), s)
                   | Inr (wc, rnd) \<Rightarrow>
                       let s = s\<lparr>rrnd := rnd\<rparr>
                       in if \<not> sendOK (rsent s) pathIdx wc then (err SendFailed, s)
                          else (ok (), s\<lparr>rsent := rsent s @ [(pathIdx, wc)],
                                 rd := (rd s)\<lparr>d_pathStats := countChunk pathIdx (length (Payload ch)) (d_pathStats (rd s))\<rparr>,
                                 rpaths := recordOn pathIdx (length (Payload ch)) (rpaths s)\<rparr>))))"

primrec dispatchChunks ::
    "(bytes \<Rightarrow> bytes \<Rightarrow> bytes) \<Rightarrow> (bytes \<Rightarrow> bytes \<Rightarrow> bytes \<Rightarrow> bytes \<Rightarrow> bytes) \<Rightarrow> sender \<Rightarrow> (int \<Rightarrow> rat) \<Rightarrow>
     chunk list \<Rightarrow> running \<Rightarrow> (disp_error, unit) res \<times> running" where
  "dispatchChunks aes seal sendOK draw [] s = (ok (), s)"
| "dispatchChunks aes seal sendOK draw (ch # chs) s =
     (case dispatchChunk aes seal sendOK draw ch s of
        (Inl e, s) \<Rightarrow> (Inl e, s)
      | (Inr _, s) \<Rightarrow> dispatchChunks aes seal sendOK draw chs s)"

definition sendEndOn ::
    "(bytes \<Rightarrow> bytes \<Rightarrow> bytes) \<Rightarrow> (bytes \<Rightarrow> bytes \<Rightarrow> bytes \<Rightarrow> bytes \<Rightarrow> bytes) \<Rightarrow> sender \<Rightarrow> chunk \<Rightarrow> int \<Rightarrow> running \<Rightarrow>
     (disp_error, unit) res \<times> running" where
  \<comment> \<open>one round of the loop of \<open>sendStreamEnd\<close>, which ignores encoding and sending errors\<close>
  "sendEndOn aes seal sendOK endChunk pathIdx s =
     (let c = d_cfg (rd s)
      in case firstHop c pathIdx of
           Inl e \<Rightarrow> (Inl e, s)
         | Inr (nextHop, relayKey) \<Rightarrow>
             (case EncodeChunk aes seal (rrnd s) endChunk (d_E2EKey c) relayKey nextHop (d_CircuitID c) of
                Inl Panic \<Rightarrow> (Inl Panic, s)
              | Inl (Err e) \<Rightarrow> (ok (), s)
              | Inr (wc, rnd) \<Rightarrow>
                  let s = s\<lparr>rrnd := rnd\<rparr>
                  in (ok (), if sendOK (rsent s) pathIdx wc then s\<lparr>rsent := rsent s @ [(pathIdx, wc)]\<rparr> else s)))"

definition endMarker :: "Dispatcher \<Rightarrow> chunk" where
  "endMarker d = \<lparr>StreamID = d_streamID d, Sequence = d_nextSeq d, Total = 0, CType = ChunkStreamEnd,
     Payload = [], PaddingLen = 0\<rparr>"

definition sendStreamEnd ::
    "(bytes \<Rightarrow> bytes \<Rightarrow> bytes) \<Rightarrow> (bytes \<Rightarrow> bytes \<Rightarrow> bytes \<Rightarrow> bytes \<Rightarrow> bytes) \<Rightarrow> sender \<Rightarrow> running \<Rightarrow>
     (disp_error, unit) res \<times> running" where
  "sendStreamEnd aes seal sendOK s =
     (let endChunk = endMarker (rd s);
          s = s\<lparr>rd := (rd s)\<lparr>d_nextSeq := d_nextSeq (rd s) + 1\<rparr>\<rparr>
      in case sendEndOn aes seal sendOK endChunk 0 s of
           (Inl e, s) \<Rightarrow> (Inl e, s)
         | (Inr _, s) \<Rightarrow> sendEndOn aes seal sendOK endChunk 1 s)"

datatype conn_end = ConnEOF | ConnError

primrec runLoop ::
    "(bytes \<Rightarrow> bytes \<Rightarrow> bytes) \<Rightarrow> (bytes \<Rightarrow> bytes \<Rightarrow> bytes \<Rightarrow> bytes \<Rightarrow> bytes) \<Rightarrow> (int \<Rightarrow> u64 \<Rightarrow> int) \<Rightarrow>
     sender \<Rightarrow> (int \<Rightarrow> rat) \<Rightarrow> nat option \<Rightarrow> (bytes \<times> conn_end option) list \<Rightarrow> running \<Rightarrow>
     (disp_error, unit) res option \<times> running" where
  \<comment> \<open>\<open>None\<close>: still waiting for the connection; \<open>ctx\<close> as in the relay loop: rounds until it is cancelled\<close>
  "runLoop aes seal q sendOK draw ctx [] s = (if ctx = Some 0 then Some (err DispCancelled) else None, s)"
| "runLoop aes seal q sendOK draw ctx (r # reads) s =
     (if ctx = Some 0 then (Some (err DispCancelled), s)
      else let (chs, ck) = (if fst r = [] then ([], d_chunker (rd s)) else chunker_Split q (d_chunker (rd s)) (fst r));
               s = s\<lparr>rd := (rd s)\<lparr>d_chunker := ck\<rparr>\<rparr>
           in case dispatchChunks aes seal sendOK draw chs s of
                (Inl e, s) \<Rightarrow> (Some (Inl e), s)
              | (Inr _, s) \<Rightarrow>
                  (case snd r of
                     Some ConnEOF \<Rightarrow> (let (x, s) = sendStreamEnd aes seal sendOK s in (Some x, s))
                   | Some ConnError \<Rightarrow> (Some (err ReadFailed), s)
                   | None \<Rightarrow> runLoop aes seal q sendOK draw (map_option (\<lambda>n. n - 1) ctx) reads s))"

definition disp_Run ::
    "(bytes \<Rightarrow> bytes \<Rightarrow> bytes) \<Rightarrow> (bytes \<Rightarrow> bytes \<Rightarrow> bytes \<Rightarrow> bytes \<Rightarrow> bytes) \<Rightarrow> (int \<Rightarrow> u64 \<Rightarrow> int) \<Rightarrow>
     sender \<Rightarrow> (int \<Rightarrow> rat) \<Rightarrow> nat option \<Rightarrow> int \<Rightarrow> bytes \<Rightarrow> (bytes \<times> conn_end option) list \<Rightarrow> Dispatcher \<Rightarrow>
     (disp_error, unit) res option \<times> running" where
  "disp_Run aes seal q sendOK draw ctx now rnd reads d =
     runLoop aes seal q sendOK draw ctx reads
       \<lparr>rd = d, rpaths = buildCircuitPaths now (d_cfg d), rsent = [], rrnd = rnd\<rparr>"

section \<open>The other operations\<close>

definition HandleNACK :: "NACKMsg \<Rightarrow> Dispatcher \<Rightarrow> Dispatcher" where
  \<comment> \<open>a placeholder in the code: nothing is retransmitted\<close>
  "HandleNACK nack d = d"

definition disp_Close :: "Dispatcher \<Rightarrow> Dispatcher" where
  "disp_Close d =
     (if d_closed d then d
      else d\<lparr>d_closed := True, d_chunkerCfg := (d_chunkerCfg d)\<lparr>PaddingSeed := zeros (PaddingSeed (d_chunkerCfg d))\<rparr>\<rparr>)"

definition disp_Stats :: "Dispatcher \<Rightarrow> int \<times> int \<times> int \<times> int" where
  "disp_Stats d = (p1Chunks (d_pathStats d), p2Chunks (d_pathStats d), p1Bytes (d_pathStats d), p2Bytes (d_pathStats d))"

definition disp_PaddingSeed :: "Dispatcher \<Rightarrow> bytes option" where
  "disp_PaddingSeed d = (if PaddingSeed (d_chunkerCfg d) = [] then None else Some (PaddingSeed (d_chunkerCfg d)))"

fun assignRelays :: "nat \<Rightarrow> nat \<Rightarrow> string list \<Rightarrow> string list \<times> string list \<Rightarrow> string list \<times> string list" where
  \<comment> \<open>the candidates from index \<open>i\<close> on, at most \<open>m\<close> to each path\<close>
  "assignRelays m i [] ps = ps"
| "assignRelays m i (r # rs) (p1, p2) =
     assignRelays m (i + 1) rs
       (if i mod 2 = 0 \<and> length p1 < m then (p1 @ [r], p2)
        else if length p2 < m then (p1, p2 @ [r]) else (p1, p2))"

datatype static_error = TooFewRelays nat | InsufficientRelays | SelectedOverlap

primrec takeKeys :: "nat \<Rightarrow> bytes \<Rightarrow> bytes list \<times> bytes" where
  \<comment> \<open>\<open>n\<close> keys\<close>
  "takeKeys 0 rnd = ([], rnd)"
| "takeKeys (Suc n) rnd = (let (k, rnd) = drawKey rnd; (ks, rnd) = takeKeys n rnd in (k # ks, rnd))"

definition disp_SelectPaths :: "bytes \<Rightarrow> string list \<Rightarrow> nat \<Rightarrow> (static_error, Path \<times> Path) res" where
  "disp_SelectPaths rnd candidates maxRelaysPerPath =
     guard (length candidates < 2) (TooFewRelays (length candidates))
     (let (r1, r2) = assignRelays maxRelaysPerPath 0 candidates ([], [])
      in guard (r1 = [] \<or> r2 = []) InsufficientRelays
         (let (k1, rnd) = takeKeys (length r1) rnd; (k2, rnd) = takeKeys (length r2) rnd;
              path1 = \<lparr>Relays = r1, RelayKeys = k1\<rparr>; path2 = \<lparr>Relays = r2, RelayKeys = k2\<rparr>
          in guard (HasOverlap path1 path2) SelectedOverlap (ok (path1, path2))))"

definition keepaliveTick :: "u64 \<Rightarrow> DispatcherConfig \<Rightarrow> (int \<times> KeepaliveMsg) list" where
  \<comment> \<open>what one tick of \<open>KeepaliveLoop\<close> sends, for the configured circuit identifier\<close>
  "keepaliveTick now c =
     (let msg = \<lparr>ka_CircuitID = d_CircuitID c, ka_Timestamp = now\<rparr> in [(0, msg), (1, msg)])"

definition keepaliveInterval :: "DispatcherConfig \<Rightarrow> int" where
  "keepaliveInterval c =
     (if cc_KeepaliveInterval (CircuitCfg c) \<le> 0 then 15 * 10 ^ 9 else cc_KeepaliveInterval (CircuitCfg c))"

section \<open>What a run sends\<close>

fun streamOf :: "(bytes \<times> conn_end option) list \<Rightarrow> bytes" where
  \<comment> \<open>what the connection delivers up to its end\<close>
  "streamOf [] = []"
| "streamOf ((d, None) # reads) = d @ streamOf reads"
| "streamOf ((d, Some _) # reads) = d"

fun readChunks :: "(int \<Rightarrow> u64 \<Rightarrow> int) \<Rightarrow> Chunker \<Rightarrow> (bytes \<times> conn_end option) list \<Rightarrow> bytes list" where
  \<comment> \<open>the payloads the chunker cuts the reads into\<close>
  "readChunks q ck [] = []"
| "readChunks q ck ((d, en) # reads) =
     (let (chs, ck) = (if d = [] then ([], ck) else chunker_Split q ck d)
      in map Payload chs @ (if en = None then readChunks q ck reads else []))"

definition sends ::
    "(bytes \<Rightarrow> bytes \<Rightarrow> bytes) \<Rightarrow> (bytes \<Rightarrow> bytes \<Rightarrow> bytes \<Rightarrow> bytes \<Rightarrow> bytes) \<Rightarrow> DispatcherConfig \<Rightarrow> chunk \<Rightarrow> int \<times> WireChunk \<Rightarrow> bool" where
  \<comment> \<open>the wire chunk is an encoding of the chunk for the first hop of its path\<close>
  "sends aes seal c ch y \<longleftrightarrow>
     (\<exists>hop key rnd rnd'. (firstHop c (fst y) :: (disp_error, bytes \<times> bytes) res) = ok (hop, key) \<and>
        EncodeChunk aes seal rnd ch (d_E2EKey c) key hop (d_CircuitID c) = ok (snd y, rnd'))"

primrec renumber :: "u32 \<Rightarrow> u32 \<Rightarrow> chunk list \<Rightarrow> chunk list" where
  "renumber i n [] = []"
| "renumber i n (ch # chs) = ch\<lparr>StreamID := i, Sequence := n, Total := 0\<rparr> # renumber i (n + 1) chs"

lemma renumber_simps [simp]:
  "length (renumber i n chs) = length chs" "map Payload (renumber i n chs) = map Payload chs"
  by (induction chs arbitrary: n) simp_all

lemma seq_from_renumber: "\<forall>ch\<in>set chs. CType ch = ChunkData \<Longrightarrow> seq_from i n (renumber i n chs)"
  by (induction chs arbitrary: n) simp_all

lemma Total_renumber: "ch \<in> set (renumber i n chs) \<Longrightarrow> Total ch = 0"
  by (induction chs arbitrary: n) auto

lemma seq_from_CType: "seq_from i n chs \<Longrightarrow> ch \<in> set chs \<Longrightarrow> CType ch = ChunkData"
  by (induction chs arbitrary: n) auto

definition same_run :: "running \<Rightarrow> nat \<Rightarrow> running \<Rightarrow> bool" where
  \<comment> \<open>\<open>n\<close> sequence numbers were used; the configuration, the stream and the chunker are kept\<close>
  "same_run s n s' \<longleftrightarrow> d_cfg (rd s') = d_cfg (rd s) \<and> d_streamID (rd s') = d_streamID (rd s) \<and>
     d_chunker (rd s') = d_chunker (rd s) \<and> d_nextSeq (rd s') = d_nextSeq (rd s) + of_nat n"

lemma dispatchChunk_ok:
  assumes "dispatchChunk aes seal sendOK draw ch s = (Inr x, s')"
  shows "\<exists>y. rsent s' = rsent s @ [y] \<and> same_run s 1 s' \<and>
    sends aes seal (d_cfg (rd s)) (ch\<lparr>StreamID := d_streamID (rd s), Sequence := d_nextSeq (rd s), Total := 0\<rparr>) y"
  using assms
  by (auto simp: dispatchChunk_def Let_def sends_def same_run_def split: sum.splits fail.splits if_splits) blast+

lemma dispatchChunks_ok:
  assumes "dispatchChunks aes seal sendOK draw chs s = (Inr x, s')"
  shows "\<exists>ys. rsent s' = rsent s @ ys \<and> same_run s (length chs) s' \<and>
    list_all2 (sends aes seal (d_cfg (rd s))) (renumber (d_streamID (rd s)) (d_nextSeq (rd s)) chs) ys"
  using assms
proof (induction chs arbitrary: s)
  case Nil
  then show ?case by (simp add: same_run_def)
next
  case (Cons ch chs)
  obtain x1 s1 where d: "dispatchChunk aes seal sendOK draw ch s = (Inr x1, s1)"
    "dispatchChunks aes seal sendOK draw chs s1 = (Inr x, s')"
    using Cons.prems by (auto split: prod.splits sum.splits)
  from dispatchChunk_ok [OF d(1)] Cons.IH [OF d(2)] show ?case
    by (auto simp: same_run_def algebra_simps)
qed

lemma sendEndOn_ok:
  assumes "sendEndOn aes seal sendOK ch p s = (Inr x, s')"
  shows "\<exists>ys. rsent s' = rsent s @ ys \<and> length ys \<le> 1 \<and> same_run s 0 s' \<and> list_all (sends aes seal (d_cfg (rd s)) ch) ys"
  using assms
  by (auto simp: sendEndOn_def Let_def sends_def same_run_def split: sum.splits fail.splits if_splits) blast+

lemma sendStreamEnd_ok:
  assumes "sendStreamEnd aes seal sendOK s = (Inr x, s')"
  shows "\<exists>ys. rsent s' = rsent s @ ys \<and> length ys \<le> 2 \<and>
    list_all (sends aes seal (d_cfg (rd s)) (endMarker (rd s))) ys"
proof -
  let ?s = "s\<lparr>rd := (rd s)\<lparr>d_nextSeq := d_nextSeq (rd s) + 1\<rparr>\<rparr>"
  obtain x1 s1 where e: "sendEndOn aes seal sendOK (endMarker (rd s)) 0 ?s = (Inr x1, s1)"
    "sendEndOn aes seal sendOK (endMarker (rd s)) 1 s1 = (Inr x, s')"
    using assms by (auto simp: sendStreamEnd_def Let_def split: prod.splits sum.splits)
  obtain ys where ys: "rsent s1 = rsent s @ ys" "length ys \<le> 1" "same_run ?s 0 s1"
    "list_all (sends aes seal (d_cfg (rd s)) (endMarker (rd s))) ys"
    using sendEndOn_ok [OF e(1)] by auto
  obtain zs where zs: "rsent s' = rsent s1 @ zs" "length zs \<le> 1"
    "list_all (sends aes seal (d_cfg (rd s1)) (endMarker (rd s))) zs"
    using sendEndOn_ok [OF e(2)] by blast
  have "d_cfg (rd s1) = d_cfg (rd s)" using ys(3) by (simp add: same_run_def)
  with ys zs show ?thesis by (intro exI [of _ "ys @ zs"]) auto
qed

lemma split_read:
  assumes "(if d = [] then ([], ck) else chunker_Split q ck d) = (cs, ck')" "chunker_ok ck"
  shows "concat (map Payload cs) = d \<and> (\<forall>ch\<in>set cs. CType ch = ChunkData \<and> Payload ch \<noteq> []) \<and> chunker_ok ck'"
proof (cases "d = []")
  case False
  then have s: "chunker_Split q ck d = (cs, ck')" using assms(1) by simp
  from any.split_payloads [OF assms(2) s] any.split_sequences [OF assms(2) s] any.split_state [OF assms(2) s]
    any.split_sizes [OF assms(2) s]
  show ?thesis using seq_from_CType by fastforce
qed (use assms in simp)

lemma payload_le:
  assumes "concat (map Payload chs) = s" "ch \<in> set chs" shows "length (Payload ch) \<le> length s"
proof -
  from assms(2) obtain xs ys where "chs = xs @ ch # ys" by (meson split_list)
  then show ?thesis using assms(1) by auto
qed

lemma readChunks_correct:
  assumes "chunker_ok ck"
  shows "concat (readChunks q ck reads) = streamOf reads \<and>
    (\<forall>p\<in>set (readChunks q ck reads). p \<noteq> [] \<and> (\<exists>r\<in>set reads. length p \<le> length (fst r)))"
  using assms
proof (induction reads arbitrary: ck)
  case (Cons r reads)
  obtain d en where r: "r = (d, en)" by fastforce
  obtain cs ck' where sp: "(if d = [] then ([], ck) else chunker_Split q ck d) = (cs, ck')" by fastforce
  note S = split_read [OF sp Cons.prems]
  have "\<forall>p\<in>set (map Payload cs). p \<noteq> [] \<and> length p \<le> length d" using S payload_le [of cs d] by auto
  moreover have "readChunks q ck (r # reads) = map Payload cs @ (if en = None then readChunks q ck' reads else [])"
    using r sp by simp
  moreover have "streamOf (r # reads) = d @ (if en = None then streamOf reads else [])" using r by (cases en) auto
  ultimately show ?case using S Cons.IH [of ck'] r by auto
qed simp

lemma runLoop_ok:
  assumes "runLoop aes seal q sendOK draw ctx reads s = (Some (Inr x), s')" "chunker_ok (d_chunker (rd s))"
  shows "\<exists>chs ys ends. rsent s' = rsent s @ ys @ ends \<and> list_all2 (sends aes seal (d_cfg (rd s))) chs ys \<and>
    seq_from (d_streamID (rd s)) (d_nextSeq (rd s)) chs \<and> (\<forall>ch\<in>set chs. Total ch = 0) \<and>
    map Payload chs = readChunks q (d_chunker (rd s)) reads \<and> length ends \<le> 2 \<and>
    list_all (sends aes seal (d_cfg (rd s)) (endMarker ((rd s)\<lparr>d_nextSeq := d_nextSeq (rd s) + of_nat (length chs)\<rparr>))) ends"
  using assms
proof (induction reads arbitrary: ctx s)
  case Nil
  then show ?case by (simp split: if_splits)
next
  case (Cons r reads)
  obtain d en where r: "r = (d, en)" by fastforce
  obtain cs ck where sp: "(if d = [] then ([], d_chunker (rd s)) else chunker_Split q (d_chunker (rd s)) d) = (cs, ck)"
    by fastforce
  let ?s = "s\<lparr>rd := (rd s)\<lparr>d_chunker := ck\<rparr>\<rparr>" and ?i = "d_streamID (rd s)" and ?n = "d_nextSeq (rd s)"
  have cs: "\<forall>ch\<in>set cs. CType ch = ChunkData" "chunker_ok ck"
    using split_read [OF sp Cons.prems(2)] by blast+
  obtain x1 s1 where dc: "dispatchChunks aes seal sendOK draw cs ?s = (Inr x1, s1)"
    using Cons.prems(1) r sp by (auto split: prod.splits sum.splits if_splits)
  obtain ys where ys: "rsent s1 = rsent s @ ys" "same_run ?s (length cs) s1"
    "list_all2 (sends aes seal (d_cfg (rd s))) (renumber ?i ?n cs) ys"
    using dispatchChunks_ok [OF dc] by auto
  have s1: "d_cfg (rd s1) = d_cfg (rd s)" "d_streamID (rd s1) = ?i" "d_chunker (rd s1) = ck"
    "d_nextSeq (rd s1) = ?n + of_nat (length cs)"
    using ys(2) by (simp_all add: same_run_def)
  have num: "seq_from ?i ?n (renumber ?i ?n cs)" using cs(1) by (rule seq_from_renumber)
  have rc: "readChunks q (d_chunker (rd s)) (r # reads) = map Payload cs @ (if en = None then readChunks q ck reads else [])"
    using r sp by simp
  show ?case
  proof (cases en)
    case None
    have run: "runLoop aes seal q sendOK draw (map_option (\<lambda>n. n - 1) ctx) reads s1 = (Some (Inr x), s')"
      using Cons.prems(1) r None sp dc by (auto split: if_splits)
    from Cons.IH [OF run] cs(2) s1 obtain chs zs ends where
      IH: "rsent s' = rsent s1 @ zs @ ends" "list_all2 (sends aes seal (d_cfg (rd s))) chs zs"
      "seq_from ?i (?n + of_nat (length cs)) chs" "\<forall>ch\<in>set chs. Total ch = 0"
      "map Payload chs = readChunks q ck reads" "length ends \<le> 2"
      "list_all (sends aes seal (d_cfg (rd s))
         (endMarker ((rd s1)\<lparr>d_nextSeq := ?n + of_nat (length cs) + of_nat (length chs)\<rparr>))) ends"
      by auto
    have "endMarker ((rd s1)\<lparr>d_nextSeq := ?n + of_nat (length cs) + of_nat (length chs)\<rparr>) =
        endMarker ((rd s)\<lparr>d_nextSeq := ?n + of_nat (length cs + length chs)\<rparr>)"
      using s1(2) by (simp add: endMarker_def algebra_simps)
    then show ?thesis
      using IH ys num rc None
      by (intro exI [of _ "renumber ?i ?n cs @ chs"] exI [of _ "ys @ zs"] exI [of _ ends])
        (auto simp: seq_from_append list_all2_appendI dest: Total_renumber)
  next
    case (Some en')
    obtain ends where e: "rsent s' = rsent s1 @ ends" "length ends \<le> 2"
      "list_all (sends aes seal (d_cfg (rd s)) (endMarker (rd s1))) ends"
      using Cons.prems(1) r Some sp dc s1(1) sendStreamEnd_ok [of aes seal sendOK s1]
      by (auto split: if_splits conn_end.splits prod.splits)
    have "endMarker (rd s1) = endMarker ((rd s)\<lparr>d_nextSeq := ?n + of_nat (length cs)\<rparr>)"
      using s1(2,4) by (simp add: endMarker_def)
    then show ?thesis
      using e ys num rc Some
      by (intro exI [of _ "renumber ?i ?n cs"] exI [of _ ys] exI [of _ ends]) (auto dest: Total_renumber)
  qed
qed

lemma run_factory_ok: "chunker_ok (run_factory src f c)"
  by (cases f) (use newFixedChunker_ok(1) newBoundedChunker_ok(1) in simp_all)

lemma NewDispatcher_ok:
  assumes "NewDispatcher sha256 aes reg rnd c = ok d"
  shows "d_cfg d = c \<and> d_streamID d = 0 \<and> d_nextSeq d = 0 \<and> chunker_ok (d_chunker d) \<and>
    length (d_E2EKey c) = KeySize \<and> length (d_CircuitID c) = CircuitIDSize \<and>
    (\<exists>p q. Path1 c = Some p \<and> Path2 c = Some q \<and> \<not> HasOverlap p q)"
  using assms
  by (auto simp: NewDispatcher_def res_iffs Let_def NewChunkerWithConfig_def run_factory_ok
      split: option.splits if_splits sum.splits)

section \<open>A run completes\<close>

definition hops_ok :: "DispatcherConfig \<Rightarrow> bool" where
  \<comment> \<open>each path has a first hop with a key of the right size and an address that fits the header\<close>
  "hops_ok c \<longleftrightarrow> length (d_E2EKey c) = KeySize \<and> length (d_CircuitID c) = CircuitIDSize \<and>
     (\<forall>i\<in>{0, 1}. case (firstHop c i :: (disp_error, bytes \<times> bytes) res) of
        Inr (hop, key) \<Rightarrow> length hop \<le> 61 \<and> length key = KeySize | Inl _ \<Rightarrow> False)"

definition perChunk :: nat where
  \<comment> \<open>the most random bytes one chunk takes: padding, nonces and header filling\<close>
  "perChunk = 65609"

definition ready :: "running \<Rightarrow> nat \<Rightarrow> bool" where
  \<comment> \<open>there is enough randomness for \<open>n\<close> more chunks\<close>
  "ready s n \<longleftrightarrow> hops_ok (d_cfg (rd s)) \<and> (\<exists>p q. rpaths s = (Some p, Some q)) \<and> n * perChunk \<le> length (rrnd s)"

lemma EncodeChunk_runs:
  assumes "length e2eKey = KeySize" "length relayKey = KeySize" "length nextHop \<le> 61" "length circuitID = CircuitIDSize"
    and "Suc n * perChunk \<le> length rnd"
  shows "\<exists>wc rnd'. EncodeChunk aes seal rnd ch e2eKey relayKey nextHop circuitID = ok (wc, rnd') \<and> n * perChunk \<le> length rnd'"
proof -
  have "unat (PaddingLen ch) < 2 ^ LENGTH(16)" by (rule unsigned_less)
  then have "unat (PaddingLen ch) \<le> 65535" by simp
  then show ?thesis
    using assms by (simp add: EncodeChunk_def ForwardingHeader_Encode_def sizes readRandom_enough Let_def perChunk_def)
qed

lemma dispatchChunk_runs:
  assumes "ready s (Suc n)"
  shows "\<exists>s'. dispatchChunk aes seal (\<lambda>_ _ _. True) draw ch s = (ok (), s') \<and> ready s' n"
proof -
  let ?c = "d_cfg (rd s)" and ?n = "d_callCount (rd s)" and ?st = "d_strategy (rd s)"
  let ?ch = "ch\<lparr>StreamID := d_streamID (rd s), Sequence := d_nextSeq (rd s), Total := 0\<rparr>"
  obtain p0 p1 where p: "rpaths s = (Some p0, Some p1)" and h: "hops_ok ?c" using assms by (auto simp: ready_def)
  have "Paths (assignCircuit ?st (rpaths s)) = (Some p0, Some p1)" using p by (simp add: assignCircuit_def)
  from strategy_cases [OF this] obtain i where
    i: "i \<in> {0, 1}" "(strategy_AssignPath (draw ?n) ?st (assignCircuit ?st (rpaths s)) ?n :: (disp_error, int) res) = ok i"
    by blast
  obtain hop key where k: "(firstHop ?c i :: (disp_error, bytes \<times> bytes) res) = ok (hop, key)" "length hop \<le> 61" "length key = KeySize"
    using h i(1) unfolding hops_ok_def by (fastforce split: sum.splits)
  obtain wc rnd' where e: "EncodeChunk aes seal (rrnd s) ?ch (d_E2EKey ?c) key hop (d_CircuitID ?c) = ok (wc, rnd')"
    "n * perChunk \<le> length rnd'"
    using EncodeChunk_runs [of "d_E2EKey ?c" key hop "d_CircuitID ?c" n "rrnd s" aes seal ?ch] h k assms(1)
    unfolding hops_ok_def ready_def by blast
  have "\<exists>p q. recordOn i m (rpaths s) = (Some p, Some q)" for m using p by (simp add: recordOn_def)
  then show ?thesis using i(2) k(1) e h by (simp add: dispatchChunk_def Let_def ready_def)
qed

lemma dispatchChunks_runs:
  "ready s (length chs + n) \<Longrightarrow> \<exists>s'. dispatchChunks aes seal (\<lambda>_ _ _. True) draw chs s = (ok (), s') \<and> ready s' n"
proof (induction chs arbitrary: s)
  case (Cons ch chs)
  obtain s1 where "dispatchChunk aes seal (\<lambda>_ _ _. True) draw ch s = (ok (), s1)" "ready s1 (length chs + n)"
    using dispatchChunk_runs [of s "length chs + n" aes seal draw ch] Cons.prems by auto
  with Cons.IH [of s1] show ?case by simp
qed simp

lemma sendEndOn_runs:
  assumes "ready s (Suc n)" "i \<in> {0, 1}"
  shows "\<exists>s' y. sendEndOn aes seal (\<lambda>_ _ _. True) ch i s = (ok (), s') \<and> ready s' n \<and> rsent s' = rsent s @ [y]"
proof -
  let ?c = "d_cfg (rd s)"
  have h: "hops_ok ?c" using assms(1) by (simp add: ready_def)
  obtain hop key where k: "(firstHop ?c i :: (disp_error, bytes \<times> bytes) res) = ok (hop, key)" "length hop \<le> 61" "length key = KeySize"
    using h assms(2) unfolding hops_ok_def by (fastforce split: sum.splits)
  obtain wc rnd' where "EncodeChunk aes seal (rrnd s) ch (d_E2EKey ?c) key hop (d_CircuitID ?c) = ok (wc, rnd')"
    "n * perChunk \<le> length rnd'"
    using EncodeChunk_runs [of "d_E2EKey ?c" key hop "d_CircuitID ?c" n "rrnd s" aes seal ch] h k assms(1)
    unfolding hops_ok_def ready_def by blast
  then show ?thesis using k(1) assms(1) by (simp add: sendEndOn_def Let_def ready_def)
qed

lemma sendStreamEnd_runs:
  assumes "ready s 2"
  shows "\<exists>s'. sendStreamEnd aes seal (\<lambda>_ _ _. True) s = (ok (), s') \<and> length (rsent s') = length (rsent s) + 2"
proof -
  let ?s = "s\<lparr>rd := (rd s)\<lparr>d_nextSeq := d_nextSeq (rd s) + 1\<rparr>\<rparr>"
  have "ready ?s (Suc 1)" using assms by (simp add: ready_def)
  from sendEndOn_runs [OF this, of 0 aes seal "endMarker (rd s)"] obtain s1 y where
    1: "sendEndOn aes seal (\<lambda>_ _ _. True) (endMarker (rd s)) 0 ?s = (ok (), s1)" "ready s1 (Suc 0)" "rsent s1 = rsent s @ [y]"
    by auto
  from sendEndOn_runs [OF 1(2), of 1 aes seal "endMarker (rd s)"] obtain s2 z where
    "sendEndOn aes seal (\<lambda>_ _ _. True) (endMarker (rd s)) 1 s1 = (ok (), s2)" "rsent s2 = rsent s1 @ [z]" by auto
  with 1 show ?thesis by (simp add: sendStreamEnd_def Let_def)
qed

fun closes :: "(bytes \<times> conn_end option) list \<Rightarrow> bool" where
  \<comment> \<open>the connection ends with the end of the file\<close>
  "closes [] = False"
| "closes ((_, None) # reads) = closes reads"
| "closes ((_, Some en) # reads) \<longleftrightarrow> en = ConnEOF"

lemma runLoop_runs:
  assumes "closes reads" "ready s (length (readChunks q (d_chunker (rd s)) reads) + 2)"
  shows "\<exists>s'. runLoop aes seal q (\<lambda>_ _ _. True) draw None reads s = (Some (ok ()), s') \<and>
    length (rsent s') = length (rsent s) + length (readChunks q (d_chunker (rd s)) reads) + 2"
  using assms
proof (induction reads arbitrary: s)
  case (Cons r reads)
  obtain d en where r: "r = (d, en)" by fastforce
  obtain cs ck where sp: "(if d = [] then ([], d_chunker (rd s)) else chunker_Split q (d_chunker (rd s)) d) = (cs, ck)"
    by fastforce
  let ?s = "s\<lparr>rd := (rd s)\<lparr>d_chunker := ck\<rparr>\<rparr>" and ?rest = "if en = None then readChunks q ck reads else []"
  have rc: "readChunks q (d_chunker (rd s)) (r # reads) = map Payload cs @ ?rest" using r sp by simp
  then have "ready ?s (length cs + (length ?rest + 2))" using Cons.prems(2) by (simp add: ready_def algebra_simps)
  from dispatchChunks_runs [OF this] obtain s1 where
    s1: "dispatchChunks aes seal (\<lambda>_ _ _. True) draw cs ?s = (ok (), s1)" "ready s1 (length ?rest + 2)" by blast
  have step: "runLoop aes seal q (\<lambda>_ _ _. True) draw None (r # reads) s =
      (case en of
         Some ConnEOF \<Rightarrow> (let (x, s) = sendStreamEnd aes seal (\<lambda>_ _ _. True) s1 in (Some x, s))
       | Some ConnError \<Rightarrow> (Some (err ReadFailed), s1)
       | None \<Rightarrow> runLoop aes seal q (\<lambda>_ _ _. True) draw None reads s1)"
    using s1(1) unfolding r runLoop.simps fst_conv sp by (simp split: option.split)
  from dispatchChunks_ok [OF s1(1)] have len: "length (rsent s1) = length (rsent s) + length cs" "d_chunker (rd s1) = ck"
    by (auto simp: same_run_def dest: list_all2_lengthD)
  show ?case
  proof (cases en)
    case None
    with Cons.IH [of s1] Cons.prems(1) r s1(2) len obtain s2 where
      "runLoop aes seal q (\<lambda>_ _ _. True) draw None reads s1 = (Some (ok ()), s2)"
      "length (rsent s2) = length (rsent s1) + length ?rest + 2" by auto
    then show ?thesis using None len step rc by simp
  next
    case (Some en')
    with Cons.prems(1) r have "en' = ConnEOF" by simp
    moreover obtain s2 where "sendStreamEnd aes seal (\<lambda>_ _ _. True) s1 = (ok (), s2)" "length (rsent s2) = length (rsent s1) + 2"
      using sendStreamEnd_runs [of s1 aes seal] s1(2) Some by (auto simp: numeral_2_eq_2)
    ultimately show ?thesis using Some len step rc by simp
  qed
qed simp

lemma disp_Run_completes:
  assumes "NewDispatcher sha256 aes reg rnd c = ok d" "hops_ok c" "closes reads"
    and "(length (readChunks q (d_chunker d) reads) + 2) * perChunk \<le> length rndRun"
  shows "\<exists>s. disp_Run aes seal q (\<lambda>_ _ _. True) draw None now rndRun reads d = (Some (ok ()), s) \<and>
    length (rsent s) = length (readChunks q (d_chunker d) reads) + 2"
  using NewDispatcher_ok [OF assms(1)] assms(2-4)
    runLoop_runs [of reads "\<lparr>rd = d, rpaths = buildCircuitPaths now (d_cfg d), rsent = [], rrnd = rndRun\<rparr>" q]
  by (auto simp: disp_Run_def ready_def buildCircuitPaths_def)

end
