(* ===== verification/Reassembler.thy ===== *)
theory Reassembler
  imports Chunk
begin

text \<open>
  The exit-side reassembler (\<open>internal/proxy/exit_reassembler.go\<close>): per-stream buffers of
  out-of-order chunks, streaming delivery of the contiguous part, completion, resource limits and
  expiry. The Go maps are association lists with distinct keys; a stream's state is reached only
  through the map, so the pointer the methods share is written back at their end.
\<close>

section \<open>State\<close>

datatype reasm_error = ErrReassemblyChunksExceeded | ErrReassemblyBytesExceeded

record exitStreamState =
  chunks :: "(u32 \<times> bytes) list"
  nextExpected :: u32
  st_total :: u32
  st_totalSet :: bool
  completed :: bool
  st_bytes :: int
  accumulated :: bytes
  firstChunkAt :: int

record ExitReassembler =
  ra_cfg :: ChunkerConfig
  streams :: "(u32 \<times> exitStreamState) list"
  totalBytes :: int
  completedStreams :: "u32 set"

type_synonym add_result = "reasm_error + bytes \<times> bool"

definition NewExitReassembler :: "ChunkerConfig \<Rightarrow> ExitReassembler" where
  "NewExitReassembler c = \<lparr>ra_cfg = c, streams = [], totalBytes = 0, completedStreams = {}\<rparr>"

section \<open>The core\<close>

definition checkBounds :: "ChunkerConfig \<Rightarrow> int \<Rightarrow> exitStreamState \<Rightarrow> bytes \<Rightarrow> reasm_error option" where
  "checkBounds c tb st payload =
     (if MaxReassemblyChunks c > 0 \<and> int (length (chunks st)) \<ge> MaxReassemblyChunks c
      then Some ErrReassemblyChunksExceeded
      else if MaxReassemblyBytes c > 0 \<and> tb + int (length payload) > MaxReassemblyBytes c
      then Some ErrReassemblyBytesExceeded
      else None)"

definition storeChunk :: "u32 \<Rightarrow> bytes \<Rightarrow> exitStreamState \<Rightarrow> exitStreamState" where
  \<comment> \<open>\<open>st.chunks[seq] = payload; st.bytes += len(payload)\<close>\<close>
  "storeChunk n p st =
     st\<lparr>chunks := AList.update n p (chunks st), st_bytes := st_bytes st + int (length p)\<rparr>"

function deliverContiguous :: "exitStreamState \<Rightarrow> int \<Rightarrow> bytes \<times> exitStreamState \<times> int" where
  "deliverContiguous st tb =
     (case map_of (chunks st) (nextExpected st) of
        None \<Rightarrow> ([], st, tb)
      | Some payload \<Rightarrow>
          let n = int (length payload);
              (result, st, tb) = deliverContiguous
                (st\<lparr>st_bytes := st_bytes st - n, chunks := AList.delete (nextExpected st) (chunks st),
                    nextExpected := nextExpected st + 1\<rparr>) (tb - n)
          in (payload @ result, st, tb))"
  by pat_completeness auto
termination
  by (relation "measure (\<lambda>(st, tb). length (chunks st))") (auto simp: length_alist_delete_less)

declare deliverContiguous.simps [simp del]

definition flushRemaining :: "exitStreamState \<Rightarrow> int \<Rightarrow> bytes \<times> exitStreamState \<times> int" where
  "flushRemaining st tb =
     (if chunks st = [] then ([], st, tb)
      else let seqs = sort (map fst (chunks st));
               result = concat (map (\<lambda>n. the (map_of (chunks st) n)) seqs);
               tb = tb - st_bytes st;
               tb = (if tb < 0 then 0 else tb)
           in (result, st\<lparr>st_bytes := 0, chunks := []\<rparr>, tb))"

definition processStreamEnd ::
    "ChunkerConfig \<Rightarrow> int \<Rightarrow> exitStreamState \<Rightarrow> chunk \<Rightarrow> add_result \<times> exitStreamState \<times> int" where
  \<comment> \<open>the \<open>ChunkStreamEnd\<close> branch of \<open>processChunk\<close>\<close>
  "processStreamEnd c tb st ch =
     (let fresh = Payload ch \<noteq> [] \<and> map_of (chunks st) (Sequence ch) = None \<and>
                  \<not> Sequence ch < nextExpected st
      in case (if fresh then checkBounds c tb st (Payload ch) else None) of
           Some e \<Rightarrow> (Inl e, st, tb)
         | None \<Rightarrow>
             let (st, tb) = (if fresh then (storeChunk (Sequence ch) (Payload ch) st,
                                            tb + int (length (Payload ch)))
                             else (st, tb));
                 (delivered, st, tb) = flushRemaining (st\<lparr>completed := True\<rparr>) tb
             in (Inr (delivered, True), st, tb))"

definition processData ::
    "ChunkerConfig \<Rightarrow> int \<Rightarrow> exitStreamState \<Rightarrow> chunk \<Rightarrow> add_result \<times> exitStreamState \<times> int" where
  \<comment> \<open>the data branch of \<open>processChunk\<close>\<close>
  "processData c tb st ch =
     (if Total ch > 0 \<and> Sequence ch \<ge> Total ch then (Inr ([], False), st, tb)
      else if st_totalSet st \<and> Sequence ch \<ge> st_total st then (Inr ([], False), st, tb)
      else if map_of (chunks st) (Sequence ch) \<noteq> None then (Inr ([], False), st, tb)
      else case checkBounds c tb st (Payload ch) of
             Some e \<Rightarrow> (Inl e, st, tb)
           | None \<Rightarrow>
               let st = storeChunk (Sequence ch) (Payload ch) st;
                   tb = tb + int (length (Payload ch));
                   st = (if Total ch > 0 \<and> \<not> st_totalSet st
                         then st\<lparr>st_total := Total ch, st_totalSet := True\<rparr> else st);
                   (delivered, st, tb) = deliverContiguous st tb
               in if st_totalSet st \<and> nextExpected st \<ge> st_total st
                  then (Inr (delivered, True), st\<lparr>completed := True\<rparr>, tb)
                  else (Inr (delivered, False), st, tb))"

definition processChunk ::
    "ChunkerConfig \<Rightarrow> int \<Rightarrow> exitStreamState \<Rightarrow> chunk \<Rightarrow> add_result \<times> exitStreamState \<times> int" where
  "processChunk c tb st ch =
     (if completed st then (Inr ([], False), st, tb)
      else if CType ch = ChunkPadding then (Inr ([], False), st, tb)
      else if CType ch = ChunkStreamEnd then processStreamEnd c tb st ch
      else processData c tb st ch)"

section \<open>Operations\<close>

definition newStreamState :: "int \<Rightarrow> exitStreamState" where
  "newStreamState now =
     \<lparr>chunks = [], nextExpected = 0, st_total = 0, st_totalSet = False, completed = False,
      st_bytes = 0, accumulated = [], firstChunkAt = now\<rparr>"

definition getOrCreateStream :: "int \<Rightarrow> u32 \<Rightarrow> ExitReassembler \<Rightarrow> exitStreamState \<times> ExitReassembler" where
  "getOrCreateStream now i r =
     (case map_of (streams r) i of
        Some st \<Rightarrow> (st, r)
      | None \<Rightarrow>
          let st = newStreamState now
          in (st, r\<lparr>streams := AList.update i st (streams r)\<rparr>))"

definition cleanupStream :: "u32 \<Rightarrow> ExitReassembler \<Rightarrow> ExitReassembler" where
  "cleanupStream i r =
     (case map_of (streams r) i of
        None \<Rightarrow> r
      | Some st \<Rightarrow>
          let tb = totalBytes r - st_bytes st
          in r\<lparr>totalBytes := (if tb < 0 then 0 else tb), streams := AList.delete i (streams r)\<rparr>)"

definition writeBack :: "u32 \<Rightarrow> exitStreamState \<Rightarrow> int \<Rightarrow> ExitReassembler \<Rightarrow> ExitReassembler" where
  "writeBack i st tb r = r\<lparr>streams := AList.update i st (streams r), totalBytes := tb\<rparr>"

definition finishStream :: "u32 \<Rightarrow> ExitReassembler \<Rightarrow> ExitReassembler" where
  \<comment> \<open>\<open>r.completedStreams[id] = true; r.cleanupStream(id)\<close>\<close>
  "finishStream i r = cleanupStream i (r\<lparr>completedStreams := insert i (completedStreams r)\<rparr>)"

definition reasm_Add :: "int \<Rightarrow> chunk \<Rightarrow> ExitReassembler \<Rightarrow> add_result \<times> ExitReassembler" where
  "reasm_Add now ch r =
     (if StreamID ch \<in> completedStreams r then (Inr ([], False), r)
      else
        let (st, r) = getOrCreateStream now (StreamID ch) r
        in if completed st then (Inr ([], False), r)
           else case processChunk (ra_cfg r) (totalBytes r) st ch of
                  (Inl e, st, tb) \<Rightarrow> (Inl e, writeBack (StreamID ch) st tb r)
                | (Inr (delivered, done), st, tb) \<Rightarrow>
                    let st = (if delivered \<noteq> []
                              then st\<lparr>accumulated := accumulated st @ delivered\<rparr> else st);
                        r = writeBack (StreamID ch) st tb r
                    in if done then (Inr (accumulated st, True), finishStream (StreamID ch) r)
                       else (Inr ([], False), r))"

definition AddStreaming :: "int \<Rightarrow> chunk \<Rightarrow> ExitReassembler \<Rightarrow> add_result \<times> ExitReassembler" where
  "AddStreaming now ch r =
     (if StreamID ch \<in> completedStreams r then (Inr ([], False), r)
      else
        let (st, r) = getOrCreateStream now (StreamID ch) r
        in if completed st then (Inr ([], False), r)
           else case processChunk (ra_cfg r) (totalBytes r) st ch of
                  (Inl e, st, tb) \<Rightarrow> (Inl e, writeBack (StreamID ch) st tb r)
                | (Inr (delivered, done), st, tb) \<Rightarrow>
                    let r = writeBack (StreamID ch) st tb r
                    in (Inr (delivered, done), if done then finishStream (StreamID ch) r else r))"

definition NextExpected :: "u32 \<Rightarrow> ExitReassembler \<Rightarrow> u32 option" where
  "NextExpected i r = map_option nextExpected (map_of (streams r) i)"

definition HasGap :: "u32 \<Rightarrow> ExitReassembler \<Rightarrow> bool" where
  "HasGap i r = (case map_of (streams r) i of None \<Rightarrow> False | Some st \<Rightarrow> chunks st \<noteq> [])"

definition between :: "u32 \<Rightarrow> u32 \<Rightarrow> u32 list" where
  \<comment> \<open>\<open>for s := a; s < b; s++\<close>\<close>
  "between a b = map of_nat [unat a..<unat b]"

definition MissingSequences :: "u32 \<Rightarrow> ExitReassembler \<Rightarrow> u32 list" where
  "MissingSequences i r =
     (case map_of (streams r) i of
        None \<Rightarrow> []
      | Some st \<Rightarrow>
          let missing = concat (map (\<lambda>(n, _). if n \<ge> nextExpected st
                then filter (\<lambda>s. map_of (chunks st) s = None) (between (nextExpected st) n) else [])
                (chunks st))
          in remdups_adj (sort missing))"

definition IsCompleted :: "u32 \<Rightarrow> ExitReassembler \<Rightarrow> bool" where
  "IsCompleted i r = (case map_of (streams r) i of None \<Rightarrow> False | Some st \<Rightarrow> completed st)"

definition PurgeStream :: "u32 \<Rightarrow> ExitReassembler \<Rightarrow> ExitReassembler" where
  "PurgeStream i r = cleanupStream i r"

definition ExpireStream :: "u32 \<Rightarrow> int \<Rightarrow> ExitReassembler \<Rightarrow> bool \<times> ExitReassembler" where
  "ExpireStream i now r =
     (if StreamReassemblyTimeout (ra_cfg r) \<le> 0 then (False, r)
      else case map_of (streams r) i of
             None \<Rightarrow> (False, r)
           | Some st \<Rightarrow>
               if completed st then (False, r)
               else if now - firstChunkAt st > StreamReassemblyTimeout (ra_cfg r)
               then (True, cleanupStream i r) else (False, r))"

definition ExpireStreams :: "int \<Rightarrow> ExitReassembler \<Rightarrow> u32 list \<times> ExitReassembler" where
  "ExpireStreams now r =
     (if StreamReassemblyTimeout (ra_cfg r) \<le> 0 then ([], r)
      else let expired = map fst (filter (\<lambda>(i, st). \<not> completed st \<and>
                 now - firstChunkAt st > StreamReassemblyTimeout (ra_cfg r)) (streams r))
           in (expired, fold cleanupStream expired r))"

definition ActiveStreamCount :: "ExitReassembler \<Rightarrow> nat" where
  "ActiveStreamCount r = length (streams r)"

definition StreamAge :: "u32 \<Rightarrow> int \<Rightarrow> ExitReassembler \<Rightarrow> int option" where
  "StreamAge i now r = map_option (\<lambda>st. now - firstChunkAt st) (map_of (streams r) i)"

definition BufferedBytes :: "ExitReassembler \<Rightarrow> int" where
  "BufferedBytes r = totalBytes r"

section \<open>The accounting invariant\<close>

definition plen :: "bytes \<Rightarrow> int" where "plen p = int (length p)"

definition st_ok :: "exitStreamState \<Rightarrow> bool" where
  "st_ok st \<longleftrightarrow> distinct (map fst (chunks st)) \<and> st_bytes st = asum plen (chunks st)"

definition count_ok :: "ChunkerConfig \<Rightarrow> exitStreamState \<Rightarrow> bool" where
  "count_ok c st \<longleftrightarrow>
     (MaxReassemblyChunks c > 0 \<longrightarrow> int (length (chunks st)) \<le> MaxReassemblyChunks c)"

definition reasm_inv :: "ExitReassembler \<Rightarrow> bool" where
  "reasm_inv r \<longleftrightarrow>
     distinct (map fst (streams r)) \<and>
     (\<forall>(i, st)\<in>set (streams r). st_ok st \<and> count_ok (ra_cfg r) st \<and> \<not> completed st \<and>
        i \<notin> completedStreams r) \<and>
     totalBytes r = asum st_bytes (streams r) \<and>
     (MaxReassemblyBytes (ra_cfg r) > 0 \<longrightarrow> totalBytes r \<le> MaxReassemblyBytes (ra_cfg r))"

lemma st_bytes_nonneg: "st_ok st \<Longrightarrow> 0 \<le> st_bytes st"
  by (simp add: st_ok_def plen_def asum_nonneg)

lemma storeChunk_ok:
  "st_ok st \<Longrightarrow> map_of (chunks st) n = None \<Longrightarrow> st_ok (storeChunk n p st)"
  by (simp add: st_ok_def storeChunk_def distinct_update asum_update plen_def)

text \<open>What \<open>deliverContiguous\<close> leaves alone, and how it keeps the accounts.\<close>

definition same_stream :: "exitStreamState \<Rightarrow> exitStreamState \<Rightarrow> bool" where
  "same_stream st st' \<longleftrightarrow>
     st_total st' = st_total st \<and> st_totalSet st' = st_totalSet st \<and> completed st' = completed st \<and>
     accumulated st' = accumulated st \<and> firstChunkAt st' = firstChunkAt st"

lemma deliverContiguous_ok:
  assumes "st_ok st" "deliverContiguous st tb = (d, st', tb')"
  shows "st_ok st' \<and> tb' - tb = st_bytes st' - st_bytes st \<and> st_bytes st' \<le> st_bytes st \<and>
    same_stream st st' \<and> length (chunks st') \<le> length (chunks st)"
  using assms
proof (induction st tb arbitrary: d st' tb' rule: deliverContiguous.induct)
  case (1 st tb)
  show ?case
  proof (cases "map_of (chunks st) (nextExpected st)")
    case None
    then show ?thesis using 1(2,3) by (simp add: deliverContiguous.simps [of st tb] same_stream_def)
  next
    case (Some p)
    let ?st = "st\<lparr>st_bytes := st_bytes st - int (length p),
      chunks := AList.delete (nextExpected st) (chunks st), nextExpected := nextExpected st + 1\<rparr>"
    obtain d1 st1 tb1 where r: "deliverContiguous ?st (tb - int (length p)) = (d1, st1, tb1)"
      by (metis prod_cases3)
    have "st_ok ?st"
      using 1(2) Some by (simp add: st_ok_def distinct_delete asum_delete plen_def)
    from "1.IH" [OF Some refl this r] have "st_ok st1 \<and>
      tb1 - (tb - int (length p)) = st_bytes st1 - st_bytes ?st \<and> st_bytes st1 \<le> st_bytes ?st \<and>
      same_stream ?st st1 \<and> length (chunks st1) \<le> length (chunks ?st)" .
    moreover have "st' = st1" "tb' = tb1"
      using 1(3) Some r by (simp_all add: deliverContiguous.simps [of st tb] Let_def)
    ultimately show ?thesis
      using length_alist_delete_less [OF Some] by (simp add: same_stream_def)
  qed
qed

lemma checkBounds_None:
  "checkBounds c tb st p = None \<longleftrightarrow>
     (MaxReassemblyChunks c > 0 \<longrightarrow> int (length (chunks st)) < MaxReassemblyChunks c) \<and>
     (MaxReassemblyBytes c > 0 \<longrightarrow> tb + int (length p) \<le> MaxReassemblyBytes c)"
  by (auto simp: checkBounds_def)

lemma chunks_storeChunk: "map_of (chunks st) n = None \<Longrightarrow> length (chunks (storeChunk n p st)) = Suc (length (chunks st))"
  by (simp add: storeChunk_def length_alist_update map_of_eq_None_iff)

text \<open>The effect of one chunk on the accounts.\<close>

definition accounts :: "ChunkerConfig \<Rightarrow> exitStreamState \<Rightarrow> int \<Rightarrow> add_result \<times> exitStreamState \<times> int \<Rightarrow> bool" where
  "accounts c st tb x \<longleftrightarrow>
     (case x of (res, st', tb') \<Rightarrow>
        st_ok st' \<and> tb' - tb = st_bytes st' - st_bytes st \<and> count_ok c st' \<and>
        (MaxReassemblyBytes c > 0 \<and> tb \<le> MaxReassemblyBytes c \<longrightarrow> tb' \<le> MaxReassemblyBytes c) \<and>
        (completed st' \<longleftrightarrow> (\<exists>d. res = Inr (d, True))) \<and> accumulated st' = accumulated st)"

lemma accounts_same:
  "st_ok st \<Longrightarrow> count_ok c st \<Longrightarrow> \<not> completed st \<Longrightarrow> accounts c st tb (Inr (d, False), st, tb)"
  "st_ok st \<Longrightarrow> count_ok c st \<Longrightarrow> \<not> completed st \<Longrightarrow> accounts c st tb (Inl e, st, tb)"
  by (simp_all add: accounts_def)

lemma flushRemaining_ok:
  assumes "st_ok st" "st_bytes st \<le> tb"
  shows "\<exists>d. flushRemaining st tb = (d, st\<lparr>st_bytes := 0, chunks := []\<rparr>, tb - st_bytes st)"
proof (cases "chunks st = []")
  case True
  then have "st_bytes st = 0" using assms(1) by (simp add: st_ok_def)
  then have "st\<lparr>st_bytes := 0, chunks := []\<rparr> = st" using True by simp
  then show ?thesis using True \<open>st_bytes st = 0\<close> by (simp add: flushRemaining_def)
next
  case False
  then show ?thesis using assms(2) by (simp add: flushRemaining_def Let_def)
qed

lemma processStreamEnd_accounts:
  assumes "st_ok st" "count_ok c st" "\<not> completed st" "st_bytes st \<le> tb"
  shows "accounts c st tb (processStreamEnd c tb st ch)"
proof -
  define fresh where "fresh \<longleftrightarrow> Payload ch \<noteq> [] \<and> map_of (chunks st) (Sequence ch) = None \<and>
    \<not> Sequence ch < nextExpected st"
  show ?thesis
  proof (cases "if fresh then checkBounds c tb st (Payload ch) else None")
    case (Some e)
    then show ?thesis using assms
      by (simp add: processStreamEnd_def fresh_def [symmetric] accounts_def)
  next
    case None
    let ?st = "if fresh then storeChunk (Sequence ch) (Payload ch) st else st"
    let ?tb = "if fresh then tb + int (length (Payload ch)) else tb"
    have "st_ok ?st" using assms storeChunk_ok [OF assms(1), of "Sequence ch"] by (simp add: fresh_def)
    moreover have "st_bytes ?st \<le> ?tb" using assms(4) by (simp add: storeChunk_def)
    ultimately have ok: "st_ok (?st\<lparr>completed := True\<rparr>)" "st_bytes (?st\<lparr>completed := True\<rparr>) \<le> ?tb"
      by (simp_all add: st_ok_def)
    obtain d where fl: "flushRemaining (?st\<lparr>completed := True\<rparr>) ?tb =
        (d, ?st\<lparr>completed := True, st_bytes := 0, chunks := []\<rparr>, ?tb - st_bytes ?st)"
      using flushRemaining_ok [OF ok] by auto
    have "processStreamEnd c tb st ch =
        (Inr (d, True), ?st\<lparr>completed := True, st_bytes := 0, chunks := []\<rparr>, ?tb - st_bytes ?st)"
      using None fl by (cases fresh) (simp_all add: processStreamEnd_def fresh_def [symmetric] Let_def)
    moreover have "?tb - st_bytes ?st = tb - st_bytes st" "accumulated ?st = accumulated st"
      by (simp_all add: storeChunk_def)
    ultimately show ?thesis
      using assms st_bytes_nonneg [OF assms(1)] by (simp add: accounts_def st_ok_def count_ok_def)
  qed
qed


lemma processData_accounts:
  assumes "st_ok st" "count_ok c st" "\<not> completed st"
  shows "accounts c st tb (processData c tb st ch)"
proof -
  let ?p = "Payload ch" and ?n = "Sequence ch"
  show ?thesis
  proof (cases "map_of (chunks st) ?n = None \<and> checkBounds c tb st ?p = None")
    case False
    then show ?thesis using assms
      by (auto simp: processData_def accounts_same split: option.split)
  next
    case True
    define st1 where "st1 = (if Total ch > 0 \<and> \<not> st_totalSet (storeChunk ?n ?p st)
      then (storeChunk ?n ?p st)\<lparr>st_total := Total ch, st_totalSet := True\<rparr> else storeChunk ?n ?p st)"
    obtain d st2 tb2 where dl: "deliverContiguous st1 (tb + int (length ?p)) = (d, st2, tb2)"
      by (metis prod_cases3)
    have eq: "chunks st1 = chunks (storeChunk ?n ?p st)" "st_bytes st1 = st_bytes st + int (length ?p)"
      "completed st1 = completed st" "accumulated st1 = accumulated st"
      by (simp_all add: st1_def storeChunk_def)
    have "st_ok st1"
      using storeChunk_ok [OF assms(1), of ?n ?p] True by (simp add: st_ok_def st1_def)
    note ok = deliverContiguous_ok [OF this dl, unfolded same_stream_def eq]
    have len: "count_ok c st2"
      using ok True chunks_storeChunk [of st ?n ?p] by (auto simp: count_ok_def checkBounds_None)
    have bytes: "MaxReassemblyBytes c > 0 \<longrightarrow> tb2 \<le> MaxReassemblyBytes c"
      using ok True by (auto simp: checkBounds_None)
    show ?thesis
      using assms True ok len bytes dl
      by (auto simp: processData_def Let_def st1_def [symmetric] accounts_def st_ok_def count_ok_def)
  qed
qed

lemma processChunk_accounts:
  assumes "st_ok st" "count_ok c st" "\<not> completed st" "st_bytes st \<le> tb"
  shows "accounts c st tb (processChunk c tb st ch)"
  using assms
  by (simp add: processChunk_def accounts_same processStreamEnd_accounts processData_accounts)

lemma reasm_invD:
  assumes "reasm_inv r" "map_of (streams r) i = Some st"
  shows "st_ok st" "count_ok (ra_cfg r) st" "\<not> completed st" "i \<notin> completedStreams r"
    "0 \<le> st_bytes st" "st_bytes st \<le> totalBytes r"
proof -
  from assms show *: "st_ok st" "count_ok (ra_cfg r) st" "\<not> completed st" "i \<notin> completedStreams r"
    by (auto simp: reasm_inv_def dest: map_of_SomeD)
  show "0 \<le> st_bytes st" using *(1) by (rule st_bytes_nonneg)
  have "(k, v) \<in> set (streams r) \<Longrightarrow> 0 \<le> st_bytes v" for k v
    using assms(1) by (auto simp: reasm_inv_def st_bytes_nonneg)
  then show "st_bytes st \<le> totalBytes r"
    using assms asum_ge [of "streams r" st_bytes i st] by (simp add: reasm_inv_def)
qed

lemma reasm_inv_put:
  assumes "reasm_inv r" "i \<notin> completedStreams r"
    and "st_ok st'" "count_ok (ra_cfg r) st'" "\<not> completed st'"
    and "tb' - totalBytes r = st_bytes st' - (case map_of (streams r) i of None \<Rightarrow> 0 | Some st \<Rightarrow> st_bytes st)"
    and "MaxReassemblyBytes (ra_cfg r) > 0 \<longrightarrow> tb' \<le> MaxReassemblyBytes (ra_cfg r)"
  shows "reasm_inv (writeBack i st' tb' r)"
proof -
  have "set (AList.update i st' (streams r)) = insert (i, st') {p \<in> set (streams r). fst p \<noteq> i}"
    using assms(1) by (intro set_alist_update) (simp add: reasm_inv_def)
  with assms show ?thesis
    by (auto simp: reasm_inv_def writeBack_def distinct_update asum_update)
qed

lemma reasm_inv_drop:
  assumes "reasm_inv r" "map_of (streams r) i = Some st" "C \<subseteq> insert i (completedStreams r)"
  shows "reasm_inv (r\<lparr>totalBytes := totalBytes r - st_bytes st, streams := AList.delete i (streams r),
    completedStreams := C\<rparr>)"
  using assms reasm_invD(5) [OF assms(1,2)]
  by (auto simp: reasm_inv_def distinct_delete asum_delete set_alist_delete)

lemma cleanupStream_inv:
  assumes "reasm_inv r"
  shows "reasm_inv (cleanupStream i r)"
proof (cases "map_of (streams r) i")
  case (Some st)
  have "cleanupStream i r = r\<lparr>totalBytes := totalBytes r - st_bytes st,
      streams := AList.delete i (streams r), completedStreams := completedStreams r\<rparr>"
    using Some reasm_invD(6) [OF assms Some] by (simp add: cleanupStream_def)
  also have "reasm_inv \<dots>" by (rule reasm_inv_drop [OF assms Some]) blast
  finally show ?thesis .
qed (simp add: cleanupStream_def assms)

lemma getOrCreateStream_inv:
  assumes "reasm_inv r" "i \<notin> completedStreams r" "getOrCreateStream now i r = (st, r')"
  shows "reasm_inv r' \<and> map_of (streams r') i = Some st \<and> ra_cfg r' = ra_cfg r \<and>
    completedStreams r' = completedStreams r \<and> totalBytes r' = totalBytes r"
proof (cases "map_of (streams r) i")
  case (Some st)
  then show ?thesis using assms by (auto simp: getOrCreateStream_def)
next
  case None
  have "reasm_inv (writeBack i (newStreamState now) (totalBytes r) r)"
    by (rule reasm_inv_put [OF assms(1,2)])
      (use assms(1) None in \<open>auto simp: newStreamState_def st_ok_def count_ok_def reasm_inv_def\<close>)
  then show ?thesis using None assms(3)
    by (auto simp: getOrCreateStream_def writeBack_def update_conv' Let_def)
qed

lemma delete_update_same: "AList.delete k (AList.update k v al) = AList.delete k al"
  by (induction al) auto

lemma finishStream_writeBack:
  assumes "reasm_inv r" "map_of (streams r) i = Some st" "tb' - totalBytes r = st_bytes st' - st_bytes st"
  shows "finishStream i (writeBack i st' tb' r) =
    r\<lparr>totalBytes := totalBytes r - st_bytes st, streams := AList.delete i (streams r),
      completedStreams := insert i (completedStreams r)\<rparr>"
proof -
  have "AList.delete i (AList.update i st' (streams r)) = AList.delete i (streams r)"
    by (rule delete_update_same)
  moreover have "0 \<le> tb' - st_bytes st'" "tb' - st_bytes st' = totalBytes r - st_bytes st"
    using reasm_invD(6) [OF assms(1,2)] assms(3) by simp_all
  ultimately show ?thesis
    by (simp add: finishStream_def cleanupStream_def writeBack_def update_conv')
qed

text \<open>Both \<open>Add\<close> variants share the shape of their state change.\<close>

lemma add_state_inv:
  assumes "reasm_inv r" "map_of (streams r) i = Some st"
    and "processChunk (ra_cfg r) (totalBytes r) st ch = (res, st', tb')"
    and "st_bytes st'' = st_bytes st'" "chunks st'' = chunks st'" "completed st'' = completed st'"
  shows "(\<exists>d. res = Inr (d, True)) \<Longrightarrow> reasm_inv (finishStream i (writeBack i st'' tb' r))"
    and "(\<nexists>d. res = Inr (d, True)) \<Longrightarrow> reasm_inv (writeBack i st'' tb' r)"
proof -
  note D = reasm_invD [OF assms(1,2)]
  have acc: "accounts (ra_cfg r) st (totalBytes r) (res, st', tb')"
    using processChunk_accounts [OF D(1-3,6), of ch] assms(3) by simp
  have bytes: "tb' - totalBytes r = st_bytes st'' - st_bytes st" and ok: "st_ok st''" "count_ok (ra_cfg r) st''"
    and lim: "MaxReassemblyBytes (ra_cfg r) > 0 \<longrightarrow> tb' \<le> MaxReassemblyBytes (ra_cfg r)"
    and fin: "completed st'' \<longleftrightarrow> (\<exists>d. res = Inr (d, True))"
    using acc assms(1,4-6) by (auto simp: accounts_def st_ok_def count_ok_def reasm_inv_def)
  { assume "\<exists>d. res = Inr (d, True)"
    show "reasm_inv (finishStream i (writeBack i st'' tb' r))"
      unfolding finishStream_writeBack [OF assms(1,2) bytes]
      by (rule reasm_inv_drop [OF assms(1,2)]) simp }
  { assume "\<nexists>d. res = Inr (d, True)"
    then show "reasm_inv (writeBack i st'' tb' r)"
      using fin bytes ok lim D(4) assms(1,2) by (intro reasm_inv_put) simp_all }
qed

lemma AddStreaming_inv:
  assumes "reasm_inv r"
  shows "reasm_inv (snd (AddStreaming now ch r))"
proof (cases "StreamID ch \<in> completedStreams r")
  case False
  obtain st r' where g: "getOrCreateStream now (StreamID ch) r = (st, r')" by fastforce
  note G = getOrCreateStream_inv [OF assms False g]
  obtain res st' tb' where p: "processChunk (ra_cfg r') (totalBytes r') st ch = (res, st', tb')"
    by (metis prod_cases3)
  from G have inv: "reasm_inv r'" and m: "map_of (streams r') (StreamID ch) = Some st" by simp_all
  note S = add_state_inv [OF inv m p refl refl refl]
  show ?thesis
  proof (cases res)
    case (Inl e)
    then show ?thesis using False g p G S(2) by (simp add: AddStreaming_def split: prod.split)
  next
    case (Inr x)
    then show ?thesis using False g p inv S
      by (cases x) (auto simp: AddStreaming_def Let_def)
  qed
qed (simp add: AddStreaming_def assms)

lemma reasm_Add_inv:
  assumes "reasm_inv r"
  shows "reasm_inv (snd (reasm_Add now ch r))"
proof (cases "StreamID ch \<in> completedStreams r")
  case False
  obtain st r' where g: "getOrCreateStream now (StreamID ch) r = (st, r')" by fastforce
  note G = getOrCreateStream_inv [OF assms False g]
  obtain res st' tb' where p: "processChunk (ra_cfg r') (totalBytes r') st ch = (res, st', tb')"
    by (metis prod_cases3)
  from G have inv: "reasm_inv r'" and m: "map_of (streams r') (StreamID ch) = Some st" by simp_all
  show ?thesis
  proof (cases res)
    case (Inl e)
    then show ?thesis using False g p G add_state_inv(2) [OF inv m p refl refl refl]
      by (simp add: reasm_Add_def split: prod.split)
  next
    case (Inr x)
    obtain d b where x: "x = (d, b)" by fastforce
    let ?st = "if d \<noteq> [] then st'\<lparr>accumulated := accumulated st' @ d\<rparr> else st'"
    have "st_bytes ?st = st_bytes st'" "chunks ?st = chunks st'" "completed ?st = completed st'" by simp_all
    note S = add_state_inv [OF inv m p this]
    show ?thesis using False g p inv S Inr x by (auto simp: reasm_Add_def Let_def)
  qed
qed (simp add: reasm_Add_def assms)

lemma ExpireStreams_inv: "reasm_inv r \<Longrightarrow> reasm_inv (snd (ExpireStreams now r))"
proof -
  have "reasm_inv r \<Longrightarrow> reasm_inv (fold cleanupStream ids r)" for ids
    by (induction ids arbitrary: r) (simp_all add: cleanupStream_inv)
  then show "reasm_inv r \<Longrightarrow> reasm_inv (snd (ExpireStreams now r))"
    by (simp add: ExpireStreams_def Let_def)
qed

inductive reasm_step :: "ExitReassembler \<Rightarrow> ExitReassembler \<Rightarrow> bool" where
  add: "reasm_step r (snd (reasm_Add now ch r))"
| add_streaming: "reasm_step r (snd (AddStreaming now ch r))"
| purge: "reasm_step r (PurgeStream i r)"
| expire_one: "reasm_step r (snd (ExpireStream i now r))"
| expire_all: "reasm_step r (snd (ExpireStreams now r))"

lemma reasm_step_inv: "reasm_step r r' \<Longrightarrow> reasm_inv r \<Longrightarrow> reasm_inv r'"
  by (induction rule: reasm_step.induct)
    (auto simp: reasm_Add_inv AddStreaming_inv PurgeStream_def ExpireStream_def ExpireStreams_inv
      cleanupStream_inv split: option.split)

lemma reasm_steps_inv:
  assumes "reasm_step\<^sup>*\<^sup>* (NewExitReassembler c) r"
  shows "reasm_inv r"
  using assms
proof (induction rule: rtranclp_induct)
  case base
  then show ?case by (simp add: NewExitReassembler_def reasm_inv_def)
qed (rule reasm_step_inv)

section \<open>Reassembly of one stream\<close>

text \<open>
  \<open>run m k j d m'\<close>: the buffer \<open>m\<close> holds \<open>j\<close> chunks from \<open>k\<close> on, whose payloads make up \<open>d\<close>, and
  \<open>m'\<close> is what stays after they are taken out.
\<close>

definition run :: "(u32 \<rightharpoonup> bytes) \<Rightarrow> u32 \<Rightarrow> nat \<Rightarrow> bytes \<Rightarrow> (u32 \<rightharpoonup> bytes) \<Rightarrow> bool" where
  "run m k j d m' \<longleftrightarrow>
     (\<forall>i<j. m (k + of_nat i) \<noteq> None) \<and>
     d = concat (map (\<lambda>i. the (m (k + of_nat i))) [0..<j]) \<and>
     m' (k + of_nat j) = None \<and>
     (\<forall>w. m' w = (if \<exists>i<j. w = k + of_nat i then None else m w))"

lemma run_0: "m k = None \<Longrightarrow> run m k 0 [] m"
  by (simp add: run_def)

lemma run_Suc:
  assumes "m k = Some p" "run (m(k := None)) (k + 1) j d m'"
  shows "run m k (Suc j) (p @ d) m'"
proof -
  have shift: "k + of_nat (Suc i) = k + 1 + of_nat i" for i by simp
  have ne: "\<forall>i<j. k + of_nat (Suc i) \<noteq> k \<and> m (k + of_nat (Suc i)) \<noteq> None"
    using assms(2) unfolding run_def by (auto simp: algebra_simps split: if_splits)
  have ex: "(\<exists>i<Suc j. w = k + of_nat i) \<longleftrightarrow> w = k \<or> (\<exists>i<j. w = k + 1 + of_nat i)" for w
    unfolding less_Suc_eq_0_disj by (auto simp: algebra_simps)
  have "map (\<lambda>i. the (m (k + of_nat i))) [0..<Suc j]
      = the (m k) # map (\<lambda>i. the (m (k + of_nat (Suc i)))) [0..<j]"
    by (simp add: upt_conv_Cons map_Suc_upt [symmetric] comp_def del: upt_Suc)
  also have "\<dots> = p # map (\<lambda>i. the ((m(k := None)) (k + 1 + of_nat i))) [0..<j]"
    using assms(1) ne by (auto simp: algebra_simps)
  finally have pay: "map (\<lambda>i. the (m (k + of_nat i))) [0..<Suc j]
      = p # map (\<lambda>i. the ((m(k := None)) (k + 1 + of_nat i))) [0..<j]" .
  show ?thesis
    unfolding run_def pay
  proof (intro conjI allI impI)
    fix i assume "i < Suc j"
    then show "m (k + of_nat i) \<noteq> None" using assms(1) ne by (cases i) auto
  next
    show "m' (k + of_nat (Suc j)) = None" using assms(2) unfolding shift run_def by blast
  next
    fix w
    have "m' w = (if \<exists>i<j. w = k + 1 + of_nat i then None else (m(k := None)) w)"
      using assms(2) unfolding run_def by blast
    then show "m' w = (if \<exists>i<Suc j. w = k + of_nat i then None else m w)"
      unfolding ex by (metis fun_upd_apply)
  qed (use assms(2) in \<open>simp add: run_def\<close>)
qed

lemma deliverContiguous_run:
  assumes "deliverContiguous st tb = (d, st', tb')"
  shows "\<exists>j. run (map_of (chunks st)) (nextExpected st) j d (map_of (chunks st')) \<and>
    nextExpected st' = nextExpected st + of_nat j"
  using assms
proof (induction st tb arbitrary: d st' tb' rule: deliverContiguous.induct)
  case (1 st tb)
  show ?case
  proof (cases "map_of (chunks st) (nextExpected st)")
    case None
    then have "d = []" "st' = st" using 1(2) by (simp_all add: deliverContiguous.simps [of st tb])
    with None show ?thesis by (intro exI [of _ 0]) (simp add: run_0)
  next
    case (Some p)
    let ?st = "st\<lparr>st_bytes := st_bytes st - int (length p),
      chunks := AList.delete (nextExpected st) (chunks st), nextExpected := nextExpected st + 1\<rparr>"
    obtain d1 st1 tb1 where r: "deliverContiguous ?st (tb - int (length p)) = (d1, st1, tb1)"
      by (metis prod_cases3)
    have eq: "d = p @ d1" "st' = st1"
      using 1(2) Some r by (simp_all add: deliverContiguous.simps [of st tb] Let_def)
    obtain j where "run ((map_of (chunks st))(nextExpected st := None)) (nextExpected st + 1) j d1
        (map_of (chunks st1))" and "nextExpected st1 = nextExpected st + 1 + of_nat j"
      using "1.IH" [OF Some refl r] unfolding delete_conv' [symmetric] by auto
    then show ?thesis
      using run_Suc [of "map_of (chunks st)", OF Some] eq
      by (intro exI [of _ "Suc j"]) (simp add: algebra_simps)
  qed
qed

definition stored :: "bytes list \<Rightarrow> nat set \<Rightarrow> nat \<Rightarrow> exitStreamState \<Rightarrow> bool" where
  \<comment> \<open>the chunks with indices \<open>R\<close> of the payloads \<open>ps\<close> have arrived and the first \<open>k\<close> are delivered\<close>
  "stored ps R k st \<longleftrightarrow>
     st_ok st \<and> \<not> completed st \<and> R \<subseteq> {0..<length ps} \<and> {0..<k} \<subseteq> R \<and> k < length ps \<and>
     nextExpected st = of_nat k \<and>
     st_totalSet st = (R \<noteq> {}) \<and> (R \<noteq> {} \<longrightarrow> st_total st = of_nat (length ps)) \<and>
     (\<forall>w p. map_of (chunks st) w = Some p \<longrightarrow> (\<exists>j\<in>R. w = of_nat j \<and> p = ps ! j)) \<and>
     (\<forall>j\<in>R. k \<le> j \<longrightarrow> map_of (chunks st) (of_nat j) \<noteq> None)"

definition buffered :: "bytes list \<Rightarrow> nat set \<Rightarrow> nat \<Rightarrow> exitStreamState \<Rightarrow> bool" where
  \<comment> \<open>between two calls the next chunk to deliver is missing\<close>
  "buffered ps R k st \<longleftrightarrow> stored ps R k st \<and> k \<notin> R"

definition room :: "ChunkerConfig \<Rightarrow> int \<Rightarrow> bytes list \<Rightarrow> bool" where
  "room c others ps \<longleftrightarrow>
     (MaxReassemblyChunks c > 0 \<longrightarrow> int (length ps) \<le> MaxReassemblyChunks c) \<and>
     (MaxReassemblyBytes c > 0 \<longrightarrow> others + plen (concat ps) \<le> MaxReassemblyBytes c)"

lemma plen_concat: "plen (concat ps) = (\<Sum>j\<in>{0..<length ps}. plen (ps ! j))"
  by (simp add: plen_def length_concat sum_list_sum_nth)

lemma buffer_size:
  assumes "st_ok st" "length ps < 2 ^ 32" "J \<subseteq> {0..<length ps}"
    and keys: "fst ` set (chunks st) = (of_nat :: nat \<Rightarrow> u32) ` J"
    and pay: "\<And>j. j \<in> J \<Longrightarrow> the (map_of (chunks st) (of_nat j)) = ps ! j"
  shows "length (chunks st) = card J" "st_bytes st = (\<Sum>j\<in>J. plen (ps ! j))"
proof -
  have ok: "distinct (map fst (chunks st))" "st_bytes st = asum plen (chunks st)"
    using assms(1) by (simp_all add: st_ok_def)
  have inj: "inj_on (of_nat :: nat \<Rightarrow> u32) J"
    using assms(2) by (intro inj_on_subset [OF inj_of_nat_u32 assms(3)]) simp
  show "length (chunks st) = card J"
    using ok(1) keys card_image [OF inj] distinct_card by (metis length_map set_map)
  show "st_bytes st = (\<Sum>j\<in>J. plen (ps ! j))"
    using ok keys pay by (simp add: asum_keys sum.reindex [OF inj])
qed

lemma buffer_fits:
  assumes "st_ok st" "length ps < 2 ^ 32" "i < length ps" "J \<subseteq> {0..<length ps} - {i}"
    and "fst ` set (chunks st) = (of_nat :: nat \<Rightarrow> u32) ` J"
    and "\<And>j. j \<in> J \<Longrightarrow> the (map_of (chunks st) (of_nat j)) = ps ! j"
  shows "length (chunks st) < length ps \<and> st_bytes st + plen (ps ! i) \<le> plen (concat ps)"
proof -
  let ?n = "length ps"
  have "J \<subseteq> {0..<?n}" using assms(4) by blast
  from buffer_size [OF assms(1,2) this assms(5)] assms(6)
  have B: "length (chunks st) = card J" "st_bytes st = (\<Sum>j\<in>J. plen (ps ! j))" by auto
  have "card J \<le> card ({0..<?n} - {i})" using assms(4) by (intro card_mono) auto
  also have "\<dots> < ?n" using assms(3) by simp
  finally have len: "length (chunks st) < ?n" using B(1) by simp
  have "st_bytes st \<le> (\<Sum>j\<in>{0..<?n} - {i}. plen (ps ! j))"
    unfolding B(2) using assms(4) by (intro sum_mono2) (auto simp: plen_def)
  also have "\<dots> = plen (concat ps) - plen (ps ! i)"
    using assms(3) by (simp add: plen_concat sum_diff1)
  finally show ?thesis using len by simp
qed

lemma buffered_keys:
  assumes "buffered ps R k st" "length ps < 2 ^ 32" "i < length ps" "map_of (chunks st) (of_nat i) = None"
  shows "length (chunks st) < length ps \<and> st_bytes st + plen (ps ! i) \<le> plen (concat ps)"
proof -
  let ?n = "length ps"
  define J where "J = {j. j < ?n \<and> map_of (chunks st) (of_nat j) \<noteq> None}"
  have ok: "st_ok st" using assms(1) by (simp add: buffered_def stored_def)
  then have dist: "distinct (map fst (chunks st))" by (simp add: st_ok_def)
  have inj: "inj_on (of_nat :: nat \<Rightarrow> u32) {0..<?n}" using assms(2) by (intro inj_of_nat_u32) simp
  have J: "J \<subseteq> {0..<?n} - {i}" using assms(4) by (auto simp: J_def)
  have injJ: "inj_on (of_nat :: nat \<Rightarrow> u32) J" by (rule inj_on_subset [OF inj]) (use J in blast)
  have val: "\<exists>j\<in>J. w = of_nat j \<and> p = ps ! j" if w: "map_of (chunks st) w = Some p" for w p
  proof -
    from assms(1) w obtain j where j: "j \<in> R" "w = of_nat j" "p = ps ! j" "R \<subseteq> {0..<?n}"
      unfolding buffered_def stored_def by blast
    then have "j \<in> J" using w by (auto simp: J_def)
    with j show ?thesis by blast
  qed
  have keys: "fst ` set (chunks st) = (of_nat :: nat \<Rightarrow> u32) ` J"
  proof
    show "fst ` set (chunks st) \<subseteq> of_nat ` J"
      using val unfolding map_of_eq_Some_iff [OF dist] by force
    show "of_nat ` J \<subseteq> fst ` set (chunks st)"
      by (auto simp: J_def dest!: map_of_SomeD intro: rev_image_eqI)
  qed
  have pay: "the (map_of (chunks st) (of_nat j)) = ps ! j" if "j \<in> J" for j
  proof -
    from that obtain p where p: "map_of (chunks st) (of_nat j) = Some p" by (auto simp: J_def)
    then obtain j' where "j' \<in> J" "(of_nat j :: u32) = of_nat j'" "p = ps ! j'" using val by blast
    with that p show ?thesis using inj_onD [OF injJ] by force
  qed
  show ?thesis by (rule buffer_fits [OF ok assms(2,3) J keys pay])
qed

lemma buffered_checkBounds:
  assumes "buffered ps R k st" "length ps < 2 ^ 32" "i < length ps" "map_of (chunks st) (of_nat i) = None"
    and "room c others ps" "tb = others + st_bytes st"
  shows "checkBounds c tb st (ps ! i) = None"
  using buffered_keys [OF assms(1-4)] assms(5,6) by (auto simp: checkBounds_None room_def plen_def)

lemma take_drop_map:
  "k + j \<le> length xs \<Longrightarrow> take j (drop k xs) = map (\<lambda>i. xs ! (k + i)) [0..<j]"
  by (rule nth_equalityI) auto

lemma stored_value:
  assumes "stored ps R k st" "length ps < 2 ^ 32" "i \<le> length ps" "map_of (chunks st) (of_nat i) = Some p"
  shows "i \<in> R \<and> p = ps ! i"
proof -
  obtain j where j: "j \<in> R" "(of_nat i :: u32) = of_nat j" "p = ps ! j" "R \<subseteq> {0..<length ps}"
    using assms(1,4) unfolding stored_def by blast
  then have "i = j" using assms(2,3) of_nat_u32_iff(1) [of i j] by auto
  with j show ?thesis by simp
qed

lemma stored_run:
  assumes st: "stored ps R k st" and n: "length ps < 2 ^ 32"
    and r: "run (map_of (chunks st)) (of_nat k) j d m'"
  shows "k + j \<le> length ps \<and> {0..<k + j} \<subseteq> R \<and> d = concat (take j (drop k ps))"
proof -
  let ?n = "length ps"
  have k: "k < ?n" "{0..<k} \<subseteq> R" and R: "R \<subseteq> {0..<?n}" using st by (simp_all add: stored_def)
  have some: "\<exists>p. map_of (chunks st) (of_nat (k + i)) = Some p" if "i < j" for i
    using r that by (auto simp: run_def)
  have le: "k + j \<le> ?n"
  proof (rule ccontr)
    assume "\<not> k + j \<le> ?n"
    with k(1) have "?n - k < j" "k + (?n - k) = ?n" by auto
    with some [of "?n - k"] obtain p where "map_of (chunks st) (of_nat ?n) = Some p" by auto
    from stored_value [OF st n order_refl this] R show False by auto
  qed
  have val: "k + i \<in> R \<and> map_of (chunks st) (of_nat (k + i)) = Some (ps ! (k + i))" if "i < j" for i
  proof -
    from some [OF that] obtain p where p: "map_of (chunks st) (of_nat (k + i)) = Some p" ..
    have "k + i \<le> ?n" using le that by simp
    from stored_value [OF st n this p] p show ?thesis by simp
  qed
  have "{0..<k + j} \<subseteq> R"
  proof
    fix x assume x: "x \<in> {0..<k + j}"
    show "x \<in> R"
    proof (cases "x < k")
      case False
      then show ?thesis using val [of "x - k"] x by auto
    qed (use k(2) in auto)
  qed
  moreover have "d = concat (map (\<lambda>i. ps ! (k + i)) [0..<j])"
    using r val unfolding run_def by (auto intro!: arg_cong [of _ _ concat])
  ultimately show ?thesis using le by (simp add: take_drop_map)
qed

lemma stored_delivered:
  assumes st: "stored ps R k st" and n: "length ps < 2 ^ 32"
    and d: "deliverContiguous st tb = (d, st', tb')"
  obtains j where "k + j \<le> length ps" "{0..<k + j} \<subseteq> R" "d = concat (take j (drop k ps))"
    "nextExpected st' = of_nat (k + j)" "k + j < length ps \<longrightarrow> buffered ps R (k + j) st'"
proof -
  from st have k: "nextExpected st = of_nat k" and ok: "st_ok st" and Rn: "R \<subseteq> {0..<length ps}"
    by (simp_all add: stored_def)
  from deliverContiguous_run [OF d] k obtain j where
    r: "run (map_of (chunks st)) (of_nat k) j d (map_of (chunks st'))" and
    nx: "nextExpected st' = of_nat (k + j)" by auto
  note sr = stored_run [OF st n r]
  have keep: "map_of (chunks st') (of_nat x) = map_of (chunks st) (of_nat x)"
    if "k + j \<le> x" "x < length ps" for x
  proof -
    have "\<not> (\<exists>i<j. (of_nat x :: u32) = of_nat k + of_nat i)"
    proof clarify
      fix i assume i: "i < j" "(of_nat x :: u32) = of_nat k + of_nat i"
      then have "(of_nat x :: u32) = of_nat (k + i)" by simp
      with that i(1) n show False by (subst (asm) of_nat_u32_iff(1)) auto
    qed
    with r show ?thesis unfolding run_def by metis
  qed
  have sub: "map_of (chunks st) w = Some p" if "map_of (chunks st') w = Some p" for w p
    using r that unfolding run_def by (metis option.distinct(1))
  note same = deliverContiguous_ok [OF ok d]
  have "buffered ps R (k + j) st'" if lt: "k + j < length ps"
  proof -
    have "map_of (chunks st') (of_nat (k + j)) = None" using r unfolding run_def of_nat_add by blast
    with keep [of "k + j"] lt st have "k + j \<notin> R" unfolding stored_def by fastforce
    moreover have "map_of (chunks st') (of_nat x) \<noteq> None" if "x \<in> R" "k + j \<le> x" for x
      using keep [of x] that Rn st unfolding stored_def by fastforce
    moreover have "\<exists>x\<in>R. w = of_nat x \<and> p = ps ! x" if "map_of (chunks st') w = Some p" for w p
      using sub [OF that] st unfolding stored_def by blast
    ultimately show ?thesis
      using st sr lt nx same by (simp add: buffered_def stored_def same_stream_def)
  qed
  with sr nx show thesis by (intro that [of j]) simp_all
qed

text \<open>One chunk of the stream arrives: it is ignored if buffered already, else stored.\<close>

definition chunk_of :: "bytes list \<Rightarrow> nat \<Rightarrow> chunk \<Rightarrow> bool" where
  "chunk_of ps i ch \<longleftrightarrow> i < length ps \<and> Sequence ch = of_nat i \<and> Payload ch = ps ! i \<and>
     Total ch = of_nat (length ps) \<and> CType ch = ChunkData"

definition withTotal :: "u32 \<Rightarrow> exitStreamState \<Rightarrow> exitStreamState" where
  "withTotal n st = (if n > 0 \<and> \<not> st_totalSet st then st\<lparr>st_total := n, st_totalSet := True\<rparr> else st)"

lemma processChunk_store:
  assumes "chunk_of ps i ch" "length ps < 2 ^ 32" "\<not> completed st"
    and "st_totalSet st \<longrightarrow> st_total st = of_nat (length ps)"
    and "map_of (chunks st) (of_nat i) = None" "checkBounds c tb st (ps ! i) = None"
    and "deliverContiguous (withTotal (of_nat (length ps)) (storeChunk (of_nat i) (ps ! i) st))
           (tb + int (length (ps ! i))) = (d, st', tb')"
  shows "processChunk c tb st ch =
    (let b = st_totalSet st' \<and> nextExpected st' \<ge> st_total st'
     in (Inr (d, b), if b then st'\<lparr>completed := True\<rparr> else st', tb'))"
proof -
  have "\<not> (of_nat (length ps) :: u32) \<le> of_nat i"
    using assms(1,2) of_nat_u32_iff(3) [of "length ps" i] by (simp add: chunk_of_def)
  moreover from this have "\<not> (st_totalSet st \<and> st_total st \<le> of_nat i)" using assms(4) by auto
  moreover have "Sequence ch = of_nat i" "Payload ch = ps ! i" "Total ch = of_nat (length ps)"
    "CType ch = ChunkData"
    using assms(1) by (simp_all add: chunk_of_def)
  ultimately have "processChunk c tb st ch =
      (case deliverContiguous (withTotal (of_nat (length ps)) (storeChunk (of_nat i) (ps ! i) st))
              (tb + int (length (ps ! i))) of
         (delivered, st, tb) \<Rightarrow>
           if st_totalSet st \<and> nextExpected st \<ge> st_total st
           then (Inr (delivered, True), st\<lparr>completed := True\<rparr>, tb) else (Inr (delivered, False), st, tb))"
    using assms(3,5,6)
    by (simp only: processChunk_def processData_def) (simp add: chunk_types withTotal_def Let_def)
  then show ?thesis using assms(7) by (simp add: Let_def)
qed

lemma stored_store:
  assumes "buffered ps R k st" "length ps < 2 ^ 32" "i < length ps" "map_of (chunks st) (of_nat i) = None"
  shows "stored ps (insert i R) k (withTotal (of_nat (length ps)) (storeChunk (of_nat i) (ps ! i) st))"
proof -
  let ?st = "withTotal (of_nat (length ps)) (storeChunk (of_nat i) (ps ! i) st)"
  have pos: "(of_nat (length ps) :: u32) > 0"
    using assms(2,3) of_nat_u32_iff(2) [of 0 "length ps"] by auto
  have st: "st_ok (storeChunk (of_nat i) (ps ! i) st)"
    using assms(1,4) by (intro storeChunk_ok) (simp_all add: buffered_def stored_def)
  have m: "map_of (chunks ?st) = (map_of (chunks st))(of_nat i \<mapsto> ps ! i)"
    by (simp add: withTotal_def storeChunk_def update_conv')
  have tot: "st_totalSet ?st" "st_total ?st = of_nat (length ps)"
    using assms(1) pos by (auto simp: withTotal_def storeChunk_def buffered_def stored_def)
  have "st_ok ?st" "completed ?st = completed st" "nextExpected ?st = nextExpected st"
    using st by (simp_all add: st_ok_def withTotal_def storeChunk_def)
  with m tot assms(1,3) show ?thesis
    by (auto simp: buffered_def stored_def)
qed

lemma buffered_step:
  assumes B: "buffered ps R k st" and n: "length ps < 2 ^ 32" and ch: "chunk_of ps i ch"
    and room: "room c others ps" "tb = others + st_bytes st"
  obtains k' st' where
    "processChunk c tb st ch
       = (Inr (concat (take (k' - k) (drop k ps)), k' = length ps), st', others + st_bytes st')"
    "k \<le> k'" "k' \<le> length ps" "{0..<k'} \<subseteq> insert i R"
    "k' < length ps \<longrightarrow> buffered ps (insert i R) k' st'"
proof (cases "map_of (chunks st) (of_nat i) = None")
  case None: True
  let ?st = "withTotal (of_nat (length ps)) (storeChunk (of_nat i) (ps ! i) st)"
  have i: "i < length ps" using ch by (simp add: chunk_of_def)
  note S = stored_store [OF B n i None]
  obtain d st1 tb1 where dl: "deliverContiguous ?st (tb + int (length (ps ! i))) = (d, st1, tb1)"
    by (metis prod_cases3)
  obtain j where j: "k + j \<le> length ps" "{0..<k + j} \<subseteq> insert i R" "d = concat (take j (drop k ps))"
    "nextExpected st1 = of_nat (k + j)" "k + j < length ps \<longrightarrow> buffered ps (insert i R) (k + j) st1"
    using stored_delivered [OF S n dl] by metis
  have ok: "st_ok ?st" "st_totalSet ?st" "st_total ?st = of_nat (length ps)"
    using S by (simp_all add: stored_def)
  have "st_bytes ?st = st_bytes st + int (length (ps ! i))" by (simp add: withTotal_def storeChunk_def)
  with deliverContiguous_ok [OF ok(1) dl] ok room(2)
  have tot: "st_totalSet st1" "st_total st1 = of_nat (length ps)" "tb1 = others + st_bytes st1"
    by (simp_all add: same_stream_def)
  have fin: "nextExpected st1 \<ge> st_total st1 \<longleftrightarrow> k + j = length ps"
    using j(1,4) tot(2) n of_nat_u32_iff(3) [of "length ps" "k + j"] by auto
  have "processChunk c tb st ch = (Inr (d, k + j = length ps),
      if k + j = length ps then st1\<lparr>completed := True\<rparr> else st1, tb1)"
    using processChunk_store [OF ch n _ _ None _ dl] B buffered_checkBounds [OF B n i None room] tot fin
    by (simp add: buffered_def stored_def)
  with j tot(3) show thesis
    by (intro that [of "k + j" "if k + j = length ps then st1\<lparr>completed := True\<rparr> else st1"]) auto
next
  case False
  have k: "k < length ps" "st_totalSet st \<longrightarrow> st_total st = of_nat (length ps)" "\<not> completed st"
    "{0..<k} \<subseteq> R" using B by (auto simp: buffered_def stored_def)
  obtain p where "map_of (chunks st) (of_nat i) = Some p" using False by auto
  then have "i \<in> R"
    using stored_value [of ps R k st i p] B n ch by (simp add: buffered_def chunk_of_def)
  moreover have "processChunk c tb st ch = (Inr ([], False), st, tb)"
    using False ch k(3) by (auto simp: processChunk_def processData_def chunk_of_def chunk_types)
  ultimately show thesis using k B room(2)
    by (intro that [of k st]) (auto simp: insert_absorb)
qed

section \<open>Reassembly from chunks in any order\<close>

primrec feed :: "(int \<times> chunk) list \<Rightarrow> ExitReassembler \<Rightarrow> add_result list \<times> ExitReassembler" where
  \<comment> \<open>chunks arriving one after the other, each at its time\<close>
  "feed [] r = ([], r)"
| "feed (a # as) r =
     (let (x, r) = AddStreaming (fst a) (snd a) r; (xs, r) = feed as r in (x # xs, r))"

definition delivered_of :: "add_result list \<Rightarrow> bytes" where
  "delivered_of xs = concat (map (\<lambda>x. case x of Inr (d, _) \<Rightarrow> d | Inl _ \<Rightarrow> []) xs)"

definition progress :: "u32 \<Rightarrow> bytes list \<Rightarrow> int \<Rightarrow> nat set \<Rightarrow> nat \<Rightarrow> ExitReassembler \<Rightarrow> bool" where
  \<comment> \<open>the reassembler has seen the chunks \<open>R\<close> of stream \<open>i\<close> and delivered the first \<open>k\<close>\<close>
  "progress i ps others R k r \<longleftrightarrow>
     R \<subseteq> {0..<length ps} \<and> {0..<k} \<subseteq> R \<and> k \<le> length ps \<and> room (ra_cfg r) others ps \<and>
     (if k = length ps then i \<in> completedStreams r
      else i \<notin> completedStreams r \<and> k \<notin> R \<and>
        (case map_of (streams r) i of
           None \<Rightarrow> R = {} \<and> totalBytes r = others
         | Some st \<Rightarrow> buffered ps R k st \<and> totalBytes r = others + st_bytes st))"

lemma ra_cfg_simps [simp]:
  "ra_cfg (writeBack i st tb r) = ra_cfg r" "ra_cfg (cleanupStream i r) = ra_cfg r"
  "ra_cfg (finishStream i r) = ra_cfg r"
  by (simp_all add: writeBack_def cleanupStream_def finishStream_def Let_def split: option.split)

lemma completedStreams_simps [simp]:
  "completedStreams (writeBack i st tb r) = completedStreams r"
  "completedStreams (cleanupStream i r) = completedStreams r"
  "completedStreams (finishStream i r) = insert i (completedStreams r)"
  by (simp_all add: writeBack_def cleanupStream_def finishStream_def Let_def split: option.split)

lemma buffered_new:
  "0 < length ps \<Longrightarrow> buffered ps {} 0 (newStreamState now)"
  by (simp add: buffered_def stored_def newStreamState_def st_ok_def)

lemma progress_stream:
  assumes "progress i ps others R k r" "k < length ps" "getOrCreateStream now i r = (st, r')"
  shows "buffered ps R k st \<and> totalBytes r' = others + st_bytes st \<and> ra_cfg r' = ra_cfg r \<and>
    completedStreams r' = completedStreams r"
proof (cases "map_of (streams r) i")
  case (Some st)
  then show ?thesis using assms by (auto simp: progress_def getOrCreateStream_def)
next
  case None
  then have "R = {}" "k = 0" using assms(1,2) by (auto simp: progress_def)
  moreover have "st_bytes (newStreamState now) = 0" by (simp add: newStreamState_def)
  ultimately show ?thesis using None assms
    by (auto simp: progress_def getOrCreateStream_def Let_def buffered_new)
qed

lemma AddStreaming_progress:
  assumes P: "progress i ps others R k r" and n: "length ps < 2 ^ 32"
    and ch: "chunk_of ps j ch" "StreamID ch = i"
  obtains k' r' where
    "AddStreaming now ch r = (Inr (concat (take (k' - k) (drop k ps)), k < length ps \<and> k' = length ps), r')"
    "k \<le> k'" "progress i ps others (insert j R) k' r'"
proof (cases "k = length ps")
  case True
  then have "AddStreaming now ch r = (Inr ([], False), r)"
    using P ch(2) by (simp add: progress_def AddStreaming_def)
  moreover have "progress i ps others (insert j R) k r"
    using P True ch(1) by (auto simp: progress_def chunk_of_def)
  ultimately show thesis using that [of k r] True by simp
next
  case False
  then have lt: "k < length ps" using P by (simp add: progress_def)
  obtain st r1 where g: "getOrCreateStream now i r = (st, r1)" by fastforce
  note G = progress_stream [OF P lt g]
  have room: "room (ra_cfg r1) others ps" and fresh: "i \<notin> completedStreams r"
    using P G False by (simp_all add: progress_def)
  obtain k' st' where s: "processChunk (ra_cfg r1) (totalBytes r1) st ch
      = (Inr (concat (take (k' - k) (drop k ps)), k' = length ps), st', others + st_bytes st')"
    and k': "k \<le> k'" "k' \<le> length ps" "{0..<k'} \<subseteq> insert j R"
      "k' < length ps \<longrightarrow> buffered ps (insert j R) k' st'"
    using G buffered_step [OF _ n ch(1) room] by metis
  let ?r = "writeBack i st' (others + st_bytes st') r1"
  let ?r' = "if k' = length ps then finishStream i ?r else ?r"
  have "\<not> completed st" using G by (simp add: buffered_def stored_def)
  then have "AddStreaming now ch r = (Inr (concat (take (k' - k) (drop k ps)), k' = length ps), ?r')"
    using fresh g s ch(2) by (simp add: AddStreaming_def)
  moreover have "progress i ps others (insert j R) k' ?r'"
    using P ch(1) k' G room fresh
    by (auto simp: progress_def chunk_of_def buffered_def writeBack_def update_conv')
  ultimately show thesis using that [of k' ?r'] k'(1) lt by simp
qed

lemma feed_progress:
  assumes "progress i ps others R k r" "length ps < 2 ^ 32"
    and "\<forall>j<length ps. chunk_of ps j (chs ! j) \<and> StreamID (chs ! j) = i"
    and "snd ` set js \<subseteq> {0..<length ps}"
    and "feed (map (\<lambda>(t, j). (t, chs ! j)) js) r = (xs, r')"
  shows "\<exists>k'. k \<le> k' \<and> progress i ps others (R \<union> snd ` set js) k' r' \<and>
    delivered_of xs = concat (take (k' - k) (drop k ps)) \<and>
    list_all (\<lambda>x. \<exists>d b. x = Inr (d, b)) xs \<and>
    length (filter (\<lambda>x. \<exists>d. x = Inr (d, True)) xs) = (if k < length ps \<and> k' = length ps then 1 else 0)"
  using assms(1,4,5)
proof (induction js arbitrary: R k r xs)
  case Nil
  then show ?case by (auto simp: delivered_of_def intro!: exI [of _ k])
next
  case (Cons a js)
  obtain t j where a: "a = (t, j)" by fastforce
  have j: "chunk_of ps j (chs ! j)" "StreamID (chs ! j) = i" using assms(3) Cons.prems(2) a by auto
  obtain k1 r1 where s: "AddStreaming t (chs ! j) r =
      (Inr (concat (take (k1 - k) (drop k ps)), k < length ps \<and> k1 = length ps), r1)"
    and k1: "k \<le> k1" and P1: "progress i ps others (insert j R) k1 r1"
    using AddStreaming_progress [OF Cons.prems(1) assms(2) j, of t] by metis
  obtain ys r2 where f: "feed (map (\<lambda>(t, j). (t, chs ! j)) js) r1 = (ys, r2)" by fastforce
  have js: "snd ` set js \<subseteq> {0..<length ps}" using Cons.prems(2) by auto
  have xs: "xs = Inr (concat (take (k1 - k) (drop k ps)), k < length ps \<and> k1 = length ps) # ys" "r' = r2"
    using Cons.prems(3) a s f by simp_all
  from Cons.IH [OF P1 js, of ys] f xs(2) obtain k' where
    IH: "k1 \<le> k'" "progress i ps others (insert j R \<union> snd ` set js) k' r2"
      "delivered_of ys = concat (take (k' - k1) (drop k1 ps))" "list_all (\<lambda>x. \<exists>d b. x = Inr (d, b)) ys"
      "length (filter (\<lambda>x. \<exists>d. x = Inr (d, True)) ys) = (if k1 < length ps \<and> k' = length ps then 1 else 0)"
    by auto
  have le: "k' \<le> length ps" using IH(2) by (simp add: progress_def)
  have "take (k' - k) (drop k ps) = take (k1 - k) (drop k ps) @ take (k' - k1) (drop k1 ps)"
    using take_add [of "k1 - k" "k' - k1" "drop k ps"] k1 IH(1) by simp
  then have "delivered_of xs = concat (take (k' - k) (drop k ps))"
    using IH(3) by (simp add: xs delivered_of_def)
  then show ?case
    using IH k1 le xs a by (intro exI [of _ k']) (auto simp: insert_commute)
qed

lemma segmentation_chunks:
  assumes "segmentation i d chs" "j < length chs"
  shows "chunk_of (map Payload chs) j (chs ! j) \<and> StreamID (chs ! j) = i"
  using assms seq_from_nth [of i 0 chs j] by (simp add: segmentation_def chunk_of_def)

lemma reassembles:
  assumes seg: "segmentation i d chs" "chs \<noteq> []" "length chs < 2 ^ 32"
    and r: "i \<notin> completedStreams r" "map_of (streams r) i = None"
      "room (ra_cfg r) (totalBytes r) (map Payload chs)"
    and js: "snd ` set js \<subseteq> {0..<length chs}" "feed (map (\<lambda>(t, j). (t, chs ! j)) js) r = (xs, r')"
  shows "\<exists>k\<le>length chs. {0..<k} \<subseteq> snd ` set js \<and> (k = length chs \<or> k \<notin> snd ` set js) \<and>
    delivered_of xs = concat (map Payload (take k chs)) \<and> list_all (\<lambda>x. \<exists>d b. x = Inr (d, b)) xs \<and>
    length (filter (\<lambda>x. \<exists>d. x = Inr (d, True)) xs) = (if k = length chs then 1 else 0) \<and>
    (i \<in> completedStreams r' \<longleftrightarrow> k = length chs)"
proof -
  let ?ps = "map Payload chs"
  have P: "progress i ?ps (totalBytes r) {} 0 r"
    using seg(2) r by (simp add: progress_def)
  have chs: "\<forall>j<length ?ps. chunk_of ?ps j (chs ! j) \<and> StreamID (chs ! j) = i"
    using segmentation_chunks [OF seg(1)] by simp
  from feed_progress [OF P _ chs _ js(2)] seg(3) js(1)
  obtain k where k: "progress i ?ps (totalBytes r) (snd ` set js) k r'"
    "delivered_of xs = concat (take k ?ps)" "list_all (\<lambda>x. \<exists>d b. x = Inr (d, b)) xs"
    "length (filter (\<lambda>x. \<exists>d. x = Inr (d, True)) xs) = (if 0 < length ?ps \<and> k = length ?ps then 1 else 0)"
    by auto
  then show ?thesis
    using seg(2) by (intro exI [of _ k]) (auto simp: progress_def take_map split: if_splits)
qed

section \<open>Properties\<close>

text \<open>
  C8. Streaming reassembly is correct for every arrival order. Let the chunks of a segmented
  stream arrive in any order, any number of times and at any times, at a reassembler that does
  not know the stream and has room for it. No call fails; what has been delivered is at every
  moment exactly the payload of the leading chunks that have all arrived; the stream is reported
  done exactly once, when all of them have.
\<close>

theorem reassembly_any_order:
  assumes "segmentation i d chs" "chs \<noteq> []" "length chs < 2 ^ 32"
    and "i \<notin> completedStreams r" "map_of (streams r) i = None"
      "room (ra_cfg r) (totalBytes r) (map Payload chs)"
    and "snd ` set js \<subseteq> {0..<length chs}" "feed (map (\<lambda>(t, j). (t, chs ! j)) js) r = (xs, r')"
  shows "\<exists>k\<le>length chs. {0..<k} \<subseteq> snd ` set js \<and> (k = length chs \<or> k \<notin> snd ` set js) \<and>
    delivered_of xs = concat (map Payload (take k chs)) \<and> list_all (\<lambda>x. \<exists>d b. x = Inr (d, b)) xs \<and>
    length (filter (\<lambda>x. \<exists>d. x = Inr (d, True)) xs) = (if k = length chs then 1 else 0) \<and>
    (i \<in> completedStreams r' \<longleftrightarrow> k = length chs)"
  using assms by (rule reassembles)

definition twoChunks :: "chunk list" where
  "twoChunks =
     [\<lparr>StreamID = 7, Sequence = 0, Total = 2, CType = ChunkData, Payload = [1, 2], PaddingLen = 0\<rparr>,
      \<lparr>StreamID = 7, Sequence = 1, Total = 2, CType = ChunkData, Payload = [3], PaddingLen = 0\<rparr>]"

lemma twoChunks_segmentation: "segmentation 7 [1, 2, 3] twoChunks"
  by (simp add: segmentation_def twoChunks_def)

theorem reassembly_any_order_witness:
  "delivered_of (fst (feed (map (\<lambda>(t, j). (t, twoChunks ! j)) [(0, 1), (5, 1), (9, 0)])
     (NewExitReassembler DefaultChunkerConfig))) = [1, 2, 3]"
proof -
  let ?r = "NewExitReassembler DefaultChunkerConfig" and ?js = "[(0, 1), (5, 1), (9, 0)] :: (int \<times> nat) list"
  have len: "length twoChunks = 2" "twoChunks \<noteq> []" by (simp_all add: twoChunks_def)
  have room: "room (ra_cfg ?r) (totalBytes ?r) (map Payload twoChunks)"
    by (simp add: room_def NewExitReassembler_def DefaultChunkerConfig_def twoChunks_def plen_def
        DefaultMaxReassemblyChunks_def DefaultMaxReassemblyBytes_def)
  obtain xs r' where f: "feed (map (\<lambda>(t, j). (t, twoChunks ! j)) ?js) ?r = (xs, r')" by fastforce
  from reassembly_any_order [OF twoChunks_segmentation len(2) _ _ _ room _ f] len
  obtain k where "k \<le> 2" "k = 2 \<or> k \<notin> {0, 1 :: nat}"
    "delivered_of xs = concat (map Payload (take k twoChunks))"
    by (auto simp: NewExitReassembler_def)
  moreover from this have "k = 2" by auto
  ultimately show ?thesis using f by (simp add: twoChunks_def)
qed

text \<open>
  C18. From the entry to the exit: split a stream with the chunker of any strategy, deliver its
  chunks in any order with repetitions, and the exit hands over exactly the original data.
\<close>

theorem split_then_reassemble:
  assumes "chunkers_init = ok reg" "NewChunkerWithConfig src reg name c = ok ck"
    and "0 < length d" "length d < 2 ^ 32"
    and "chs = fst (chunker_Split q (chunker_SetStreamID i ck) d)"
    and "room c' 0 (map Payload chs)"
    and "snd ` set js = {0..<length chs}"
  shows "delivered_of (fst (feed (map (\<lambda>(t, j). (t, chs ! j)) js) (NewExitReassembler c'))) = d \<and>
         i \<in> completedStreams (snd (feed (map (\<lambda>(t, j). (t, chs ! j)) js) (NewExitReassembler c')))"
proof -
  have ck: "ck = (if name = boundedName then Bounded (newBoundedChunker src c)
      else Fixed (newFixedChunker src c))"
    using assms(1,2)
    by (auto simp: chunkers_init_def RegisterChunker_def register_def boundedName_def fixed16kName_def
        NewChunkerWithConfig_def registry_Get_def registry_MustGet_def split: if_splits)
  have seg: "segmentation i d chs"
    unfolding assms(5) ck using fixed_segmentation bounded_segmentation by (simp add: split_beta Let_def)
  then have d: "concat (map Payload chs) = d" "\<forall>ch\<in>set chs. 0 < length (Payload ch)"
    by (auto simp: segmentation_def)
  from d(2) have "length chs \<le> length (concat (map Payload chs))"
    by (induction chs) (auto simp: Suc_le_eq add_strict_increasing)
  with d(1) assms(3,4) have len: "length chs < 2 ^ 32" "chs \<noteq> []" by auto
  let ?r = "NewExitReassembler c'"
  obtain xs r' where f: "feed (map (\<lambda>(t, j). (t, chs ! j)) js) ?r = (xs, r')" by fastforce
  from reassembles [OF seg len(2,1) _ _ _ _ f] assms(6,7)
  obtain k where "k \<le> length chs" "k = length chs \<or> k \<notin> {0..<length chs}"
    "delivered_of xs = concat (map Payload (take k chs))" "i \<in> completedStreams r' \<longleftrightarrow> k = length chs"
    by (auto simp: NewExitReassembler_def)
  with d(1) f show ?thesis by auto
qed

definition tinyConfig :: ChunkerConfig where
  "tinyConfig = DefaultChunkerConfig\<lparr>MaxChunkSize := 2, DisablePadding := True\<rparr>"

definition tinyChunks :: "chunk list" where
  "tinyChunks = fst (chunker_Split (\<lambda>_ _. 0)
     (chunker_SetStreamID 9 (Fixed (newFixedChunker (RandReader []) tinyConfig))) [1, 2, 3])"

theorem split_then_reassemble_witness:
  "delivered_of (fst (feed (map (\<lambda>(t, j). (t, tinyChunks ! j)) [(0, 1), (0, 0)])
     (NewExitReassembler tinyConfig))) = [1, 2, 3]"
proof -
  have reg: "chunkers_init = ok [(boundedName, NewBounded), (fixed16kName, NewFixed)]"
    by code_simp
  have ck: "NewChunkerWithConfig (RandReader []) [(boundedName, NewBounded), (fixed16kName, NewFixed)]
      fixed16kName tinyConfig = ok (Fixed (newFixedChunker (RandReader []) tinyConfig))"
    by (simp add: NewChunkerWithConfig_def registry_Get_def fixed16kName_def boundedName_def)
  have room: "room tinyConfig 0 (map Payload tinyChunks)" "length tinyChunks = 2"
    by code_simp+
  have js: "snd ` set [(0 :: int, 1), (0, 0)] = {0..<length tinyChunks}"
    by (auto simp: room(2))
  show ?thesis
    using split_then_reassemble [OF reg ck _ _ tinyChunks_def room(1) js] by simp
qed

lemma ra_cfg_step: "reasm_step r r' \<Longrightarrow> ra_cfg r' = ra_cfg r"
proof (induction rule: reasm_step.induct)
  case (add r now ch)
  obtain st r1 where g: "getOrCreateStream now (StreamID ch) r = (st, r1)" by fastforce
  then have "ra_cfg r1 = ra_cfg r" by (auto simp: getOrCreateStream_def Let_def split: option.splits)
  with g show ?case by (auto simp: reasm_Add_def Let_def split: prod.split sum.split)
next
  case (add_streaming r now ch)
  obtain st r1 where g: "getOrCreateStream now (StreamID ch) r = (st, r1)" by fastforce
  then have "ra_cfg r1 = ra_cfg r" by (auto simp: getOrCreateStream_def Let_def split: option.splits)
  with g show ?case by (auto simp: AddStreaming_def Let_def split: prod.split sum.split)
next
  case (expire_all r now)
  have "ra_cfg (fold cleanupStream ids r) = ra_cfg r" for ids
    by (induction ids arbitrary: r) simp_all
  then show ?case by (simp add: ExpireStreams_def Let_def)
qed (simp_all add: PurgeStream_def ExpireStream_def split: option.split)

lemma ra_cfg_steps: "reasm_step\<^sup>*\<^sup>* r r' \<Longrightarrow> ra_cfg r' = ra_cfg r"
  by (induction rule: rtranclp_induct) (auto dest: ra_cfg_step)

text \<open>
  C19. The resource accounts are exact and the limits hold: whatever chunks arrive and however
  streams are purged or expire, \<open>BufferedBytes\<close> is the number of payload bytes really held, it
  never exceeds \<open>MaxReassemblyBytes\<close>, and no stream holds more than \<open>MaxReassemblyChunks\<close> chunks.
\<close>

theorem reassembly_accounting:
  assumes "reasm_step\<^sup>*\<^sup>* (NewExitReassembler c) r"
  shows "BufferedBytes r = asum (\<lambda>st. asum plen (chunks st)) (streams r) \<and>
    (0 < MaxReassemblyBytes c \<longrightarrow> BufferedBytes r \<le> MaxReassemblyBytes c) \<and>
    (\<forall>(i, st)\<in>set (streams r). 0 < MaxReassemblyChunks c \<longrightarrow>
       int (length (chunks st)) \<le> MaxReassemblyChunks c)"
proof -
  have inv: "reasm_inv r" using assms by (rule reasm_steps_inv)
  have c: "ra_cfg r = c" using ra_cfg_steps [OF assms] by (simp add: NewExitReassembler_def)
  have "asum st_bytes al = asum (\<lambda>st. asum plen (chunks st)) al" if "\<forall>(i, st)\<in>set al. st_ok st"
    for al :: "(u32 \<times> exitStreamState) list"
    using that by (induction al) (auto simp: st_ok_def)
  with inv have "totalBytes r = asum (\<lambda>st. asum plen (chunks st)) (streams r)"
    by (auto simp: reasm_inv_def)
  with inv show ?thesis by (auto simp: c reasm_inv_def BufferedBytes_def count_ok_def)
qed

theorem reassembly_accounting_witness:
  "BufferedBytes (snd (AddStreaming 0 (tinyChunks ! 1) (NewExitReassembler tinyConfig)))
     = asum (\<lambda>st. asum plen (chunks st))
         (streams (snd (AddStreaming 0 (tinyChunks ! 1) (NewExitReassembler tinyConfig))))"
  using reassembly_accounting [OF r_into_rtranclp [of reasm_step, OF reasm_step.add_streaming]] by blast

lemma between_set: "set (between a b) = {s. a \<le> s \<and> s < b}"
proof
  have "of_nat j < b \<and> a \<le> of_nat j" if "unat a \<le> j" "j < unat b" for j
  proof -
    have "unat (of_nat j :: u32) = j" using that unsigned_less [of b, where 'a = nat] by (intro unat_of_nat_small) simp
    with that show ?thesis by (simp add: word_less_nat_alt word_le_nat_alt)
  qed
  then show "set (between a b) \<subseteq> {s. a \<le> s \<and> s < b}" by (auto simp: between_def)
  show "{s. a \<le> s \<and> s < b} \<subseteq> set (between a b)"
  proof clarify
    fix s assume "a \<le> s" "s < b"
    then have "unat s \<in> set [unat a..<unat b]" by (simp add: word_less_nat_alt word_le_nat_alt)
    then show "s \<in> set (between a b)" unfolding between_def by force
  qed
qed

lemma distinct_remdups_adj_sorted: "sorted xs \<Longrightarrow> distinct (remdups_adj xs) \<and> sorted (remdups_adj xs)"
  by (induction xs rule: remdups_adj.induct) (auto simp: less_le)

text \<open>
  The retransmission request is exactly right: \<open>MissingSequences\<close> lists, in increasing order
  and once each, the sequence numbers from the next expected one up to the highest buffered one
  that are not buffered.
\<close>

lemma missing_sequences_exact:
  assumes "map_of (streams r) i = Some st"
  shows "set (MissingSequences i r) =
      {s. nextExpected st \<le> s \<and> map_of (chunks st) s = None \<and> (\<exists>n\<in>fst ` set (chunks st). s < n)} \<and>
    sorted (MissingSequences i r) \<and> distinct (MissingSequences i r)"
proof -
  let ?f = "\<lambda>(n, _ :: bytes). if n \<ge> nextExpected st
    then filter (\<lambda>s. map_of (chunks st) s = None) (between (nextExpected st) n) else []"
  have eq: "MissingSequences i r = remdups_adj (sort (concat (map ?f (chunks st))))"
    using assms by (simp add: MissingSequences_def)
  have f: "set (?f p) = {s. nextExpected st \<le> s \<and> s < fst p \<and> map_of (chunks st) s = None}" for p
    by (cases p) (auto simp: between_set)
  have "set (MissingSequences i r) = (\<Union>p\<in>set (chunks st). set (?f p))" by (simp add: eq)
  also have "\<dots> = {s. nextExpected st \<le> s \<and> map_of (chunks st) s = None \<and>
      (\<exists>n\<in>fst ` set (chunks st). s < n)}"
    unfolding f by blast
  finally show ?thesis
    using distinct_remdups_adj_sorted [OF sorted_sort] unfolding eq by blast
qed

lemma streams_cleanupStream [simp]: "streams (cleanupStream i r) = AList.delete i (streams r)"
  by (auto simp: cleanupStream_def Let_def asum_delete_absent map_of_eq_None_iff split: option.split)

lemma streams_cleanup_all:
  "streams (fold cleanupStream ids r) = filter (\<lambda>p. fst p \<notin> set ids) (streams r)"
proof (induction ids arbitrary: r)
  case (Cons i ids)
  have "AList.delete i al = filter (\<lambda>p. fst p \<noteq> i) al" for al :: "(u32 \<times> exitStreamState) list"
    by (induction al) auto
  with Cons show ?case by (simp add: conj_commute)
qed simp

text \<open>
  Expiry frees abandoned streams and nothing else: \<open>ExpireStreams\<close> returns exactly the streams
  whose first chunk is older than the timeout, removes those and keeps every other one as it is,
  and the byte count afterwards is that of the streams kept.
\<close>

lemma expire_streams_exact:
  assumes "reasm_step\<^sup>*\<^sup>* (NewExitReassembler c) r" "0 < StreamReassemblyTimeout c"
  shows "let old = (\<lambda>(i, st). now - firstChunkAt st > StreamReassemblyTimeout c);
             (ids, r') = ExpireStreams now r
         in ids = map fst (filter old (streams r)) \<and>
            streams r' = filter (\<lambda>p. \<not> old p) (streams r) \<and>
            BufferedBytes r' = asum st_bytes (filter (\<lambda>p. \<not> old p) (streams r))"
proof -
  let ?old = "\<lambda>(i, st). now - firstChunkAt st > StreamReassemblyTimeout c"
  let ?ids = "map fst (filter ?old (streams r))"
  have inv: "reasm_inv r" using assms(1) by (rule reasm_steps_inv)
  have c: "ra_cfg r = c" using ra_cfg_steps [OF assms(1)] by (simp add: NewExitReassembler_def)
  have "filter (\<lambda>(i, st). \<not> completed st \<and> now - firstChunkAt st > StreamReassemblyTimeout c) (streams r)
      = filter ?old (streams r)"
    by (rule filter_cong) (use inv in \<open>auto simp: reasm_inv_def\<close>)
  then have ex: "ExpireStreams now r = (?ids, fold cleanupStream ?ids r)"
    using assms(2) by (simp add: ExpireStreams_def c Let_def)
  have d: "distinct (map fst (streams r))" using inv by (simp add: reasm_inv_def)
  have "filter (\<lambda>p. fst p \<notin> set ?ids) (streams r) = filter (\<lambda>p. \<not> ?old p) (streams r)"
  proof (rule filter_cong)
    fix p assume p: "p \<in> set (streams r)"
    then have "fst p \<in> set ?ids \<longleftrightarrow> ?old p"
      using d by (auto simp: distinct_map inj_on_def)
    then show "(fst p \<notin> set ?ids) = (\<not> ?old p)" by simp
  qed simp
  then have s: "streams (fold cleanupStream ?ids r) = filter (\<lambda>p. \<not> ?old p) (streams r)"
    by (simp add: streams_cleanup_all)
  have "reasm_inv (fold cleanupStream ?ids r)"
    using ExpireStreams_inv [OF inv, of now] by (simp add: ex)
  then have "BufferedBytes (fold cleanupStream ?ids r) = asum st_bytes (filter (\<lambda>p. \<not> ?old p) (streams r))"
    by (simp add: reasm_inv_def BufferedBytes_def s)
  with s ex show ?thesis by (simp add: Let_def)
qed

text \<open>
  Duplicates are not always ignored: a chunk that arrives again after it has been delivered
  is buffered anew, and the end-of-stream marker then delivers its payload a second time.
\<close>

lemma duplicate_delivered_twice:
  "let ch = \<lparr>StreamID = 3, Sequence = 0, Total = 0, CType = ChunkData, Payload = [65], PaddingLen = 0\<rparr>;
       fin = \<lparr>StreamID = 3, Sequence = 1, Total = 0, CType = ChunkStreamEnd, Payload = [], PaddingLen = 0\<rparr>
   in delivered_of (fst (feed [(0, ch), (1, ch), (2, fin)] (NewExitReassembler DefaultChunkerConfig)))
      = [65, 65]"
  by code_simp

section \<open>The registered reassemblers\<close>

datatype reassemblerFactory = NewFixedReassembler | NewBoundedReassembler | ExitFactory

definition RegisterReassembler ::
    "string \<Rightarrow> reassemblerFactory \<Rightarrow> reassemblerFactory registry \<Rightarrow> (unit, reassemblerFactory registry) res" where
  "RegisterReassembler name f reg = register name f reg"

definition newFixedReassembler :: "ChunkerConfig \<Rightarrow> ExitReassembler" where
  "newFixedReassembler c = NewExitReassembler c"

definition newBoundedReassembler :: "ChunkerConfig \<Rightarrow> ExitReassembler" where
  "newBoundedReassembler c = NewExitReassembler c"

fun run_reassembler_factory :: "reassemblerFactory \<Rightarrow> ChunkerConfig \<Rightarrow> ExitReassembler" where
  "run_reassembler_factory NewFixedReassembler c = newFixedReassembler c"
| "run_reassembler_factory NewBoundedReassembler c = newBoundedReassembler c"
| "run_reassembler_factory ExitFactory c = NewExitReassembler c"

definition reassemblers_init :: "(unit, reassemblerFactory registry) res" where
  "reassemblers_init =
     and_then (RegisterReassembler boundedName NewBoundedReassembler []) (\<lambda>reg.
     and_then (RegisterReassembler fixed16kName NewFixedReassembler reg)
       (RegisterReassembler ''exit-streaming'' ExitFactory))"

definition NewReassemblerWithConfig ::
    "reassemblerFactory registry \<Rightarrow> string \<Rightarrow> ChunkerConfig \<Rightarrow> (unit, ExitReassembler) res" where
  "NewReassemblerWithConfig reg name c =
     and_then (case registry_Get reg name of
                 Some f \<Rightarrow> ok f
               | None \<Rightarrow> registry_MustGet reg fixed16kName)
       (\<lambda>f. ok (run_reassembler_factory f c))"

text \<open>Whatever strategy name the exit is configured with, it gets the same reassembler.\<close>

lemma reassembler_for_every_strategy:
  "and_then reassemblers_init (\<lambda>reg. NewReassemblerWithConfig reg name c) = ok (NewExitReassembler c)"
  by (simp add: reassemblers_init_def RegisterReassembler_def register_def boundedName_def
      fixed16kName_def NewReassemblerWithConfig_def registry_Get_def registry_MustGet_def
      newFixedReassembler_def newBoundedReassembler_def)

end
