(* ===== verification/Exit_Node.thy ===== *)
theory Exit_Node
  imports Reassembler Dispatcher Security_Events
begin

text \<open>
  The exit node (\<open>internal/proxy/exit.go\<close>): circuit setup, arrival of chunks with window check, gap
  detection, reassembly and delivery to the target, negative acknowledgements, teardown and
  cleanup, and the return direction. Circuits are heap objects as in the circuit manager. The
  dialer, the crypto primitives and the outcome of a write to the target (\<open>None\<close>: complete, \<open>Some n\<close>:
  failed after \<open>n\<close> bytes) are parameters.
\<close>

section \<open>State\<close>

record ExitConfig =
  x_CircuitCfg :: CircuitConfig
  AllowedPorts :: "int list"
  AllowAllPorts :: bool
  x_ChunkerStrategy :: string
  x_ChunkerCfg :: ChunkerConfig
  x_DebugFixedChunks :: bool

definition DefaultExitConfig :: ExitConfig where
  "DefaultExitConfig = \<lparr>x_CircuitCfg = DefaultCircuitConfig, AllowedPorts = [80, 443], AllowAllPorts = False,
     x_ChunkerStrategy = boundedName, x_ChunkerCfg = DefaultChunkerConfig, x_DebugFixedChunks = False\<rparr>"

record pathTracker =
  pt_paths :: "int list"
  pt_delays :: "(int \<times> int) list"

definition newPathTracker :: pathTracker where
  "newPathTracker = \<lparr>pt_paths = [], pt_delays = []\<rparr>"

definition RecordPath :: "int \<Rightarrow> pathTracker \<Rightarrow> pathTracker" where
  "RecordPath i pt = pt\<lparr>pt_paths := List.insert i (pt_paths pt)\<rparr>"

definition pt_RecordRTT :: "int \<Rightarrow> int \<Rightarrow> pathTracker \<Rightarrow> pathTracker" where
  "pt_RecordRTT i rtt pt = pt\<lparr>pt_delays := AList.update i rtt (pt_delays pt)\<rparr>"

definition FastestPath :: "pathTracker \<Rightarrow> int" where
  "FastestPath pt =
     (let (bestPath, bestRTT) = fold (\<lambda>(i, rtt) (bp, br). if br < 0 \<or> rtt < br then (i, rtt) else (bp, br))
                                  (pt_delays pt) (-1, -1)
      in if bestPath \<ge> 0 then bestPath
         else case pt_paths pt of i # _ \<Rightarrow> i | [] \<Rightarrow> 0)"

definition ActivePaths :: "pathTracker \<Rightarrow> nat" where
  "ActivePaths pt = length (pt_paths pt)"

record exitCircuit =
  xc_ID :: string
  circuitIDBytes :: bytes
  e2eKey :: bytes
  tc_written :: bytes  \<comment> \<open>what the target connection has accepted\<close>
  tc_closed :: bool
  xc_targetAddr :: bytes
  xc_reasm :: ExitReassembler
  tracker :: pathTracker
  ackBase :: u32
  gapDetected :: bool
  gapFirstSeen :: int
  gapSeqs :: "u32 list"
  nackRetryCount :: "(u32 \<times> int) list"
  streamTimers :: "(u32 \<times> int) list"
  xc_lastActivity :: int
  xc_state :: CircuitState
  lastNACKSent :: "int option"
  xc_createdAt :: int

record ExitNode =
  x_cfg :: ExitConfig
  x_objs :: "exitCircuit list"
  x_circuits :: "(string \<times> nat) list"
  x_sink :: "SecurityEventSink option"
  x_closed :: bool

definition NewExitNode :: "ExitConfig \<Rightarrow> ExitNode" where
  "NewExitNode c =
     (let c = (if cc_IdleTimeout (x_CircuitCfg c) \<le> 0 then c\<lparr>x_CircuitCfg := DefaultCircuitConfig\<rparr> else c);
          c = (if x_ChunkerStrategy c = [] then c\<lparr>x_ChunkerStrategy := boundedName\<rparr> else c);
          c = (if MaxChunkSize (x_ChunkerCfg c) = 0 then c\<lparr>x_ChunkerCfg := DefaultChunkerConfig\<rparr> else c);
          c = (if x_DebugFixedChunks c then c\<lparr>x_ChunkerStrategy := fixed16kName\<rparr> else c)
      in \<lparr>x_cfg = c, x_objs = [], x_circuits = [], x_sink = None, x_closed = False\<rparr>)"

definition exit_SetSecurityEventSink :: "SecurityEventSink option \<Rightarrow> ExitNode \<Rightarrow> ExitNode" where
  "exit_SetSecurityEventSink sink e = e\<lparr>x_sink := sink\<rparr>"

definition exit_secReport :: "SecurityEventType \<Rightarrow> string \<Rightarrow> bytes \<Rightarrow> ExitNode \<Rightarrow> ExitNode" where
  "exit_secReport t cid addr e =
     e\<lparr>x_sink := sink_Report \<lparr>se_Type = t, se_CircuitID = cid, se_TargetAddr = addr\<rparr> (x_sink e)\<rparr>"

definition x_upd :: "nat \<Rightarrow> (exitCircuit \<Rightarrow> exitCircuit) \<Rightarrow> ExitNode \<Rightarrow> ExitNode" where
  "x_upd p f e = e\<lparr>x_objs := (x_objs e)[p := f (x_objs e ! p)]\<rparr>"

section \<open>Identifiers and ports\<close>

definition hexDigit :: "nat \<Rightarrow> char" where
  "hexDigit n = ''0123456789abcdef'' ! n"

definition hexOf :: "bytes \<Rightarrow> string" where
  \<comment> \<open>the verb \<open>%x\<close> of \<open>fmt.Sprintf\<close>\<close>
  "hexOf bs = concat (map (\<lambda>b. [hexDigit (unat b div 16), hexDigit (unat b mod 16)]) bs)"

definition hexCharToByte :: "char \<Rightarrow> int" where
  "hexCharToByte c =
     (let n = of_char c :: int
      in if of_char CHR ''0'' \<le> n \<and> n \<le> of_char CHR ''9'' then n - of_char CHR ''0''
         else if of_char CHR ''a'' \<le> n \<and> n \<le> of_char CHR ''f'' then n - of_char CHR ''a'' + 10
         else if of_char CHR ''A'' \<le> n \<and> n \<le> of_char CHR ''F'' then n - of_char CHR ''A'' + 10
         else -1)"

fun hexPairs :: "string \<Rightarrow> bytes option" where
  \<comment> \<open>the loop of \<open>parseCircuitIDHex\<close> over pairs of digits\<close>
  "hexPairs (a # b # cs) =
     (let high = hexCharToByte a; low = hexCharToByte b
      in if high < 0 \<or> low < 0 then None
         else map_option ((#) (of_int (high * 16 + low))) (hexPairs cs))"
| "hexPairs _ = Some []"

definition parseCircuitIDHex :: "string \<Rightarrow> bytes option" where
  "parseCircuitIDHex hexID = (if length hexID \<noteq> CircuitIDSize * 2 then None else hexPairs hexID)"

definition lastIndex :: "byte \<Rightarrow> bytes \<Rightarrow> nat option" where
  "lastIndex b bs = (if b \<in> set bs then Some (length bs - 1 - length (takeWhile (\<lambda>c. c \<noteq> b) (rev bs))) else None)"

definition firstIndex :: "byte \<Rightarrow> bytes \<Rightarrow> nat option" where
  "firstIndex b bs = (if b \<in> set bs then Some (length (takeWhile (\<lambda>c. c \<noteq> b) bs)) else None)"

definition SplitHostPort :: "bytes \<Rightarrow> (bytes \<times> bytes) option" where
  \<comment> \<open>\<open>net.SplitHostPort\<close>: colon 58, brackets 91 and 93\<close>
  "SplitHostPort hp =
     (case lastIndex 58 hp of
        None \<Rightarrow> None
      | Some i \<Rightarrow>
          let split = (if hp ! 0 = 91
                       then (case firstIndex 93 hp of
                               None \<Rightarrow> None
                             | Some e \<Rightarrow> if e + 1 = length hp then None
                                         else if e + 1 = i then Some (take (e - 1) (drop 1 hp), 1, e + 1)
                                         else None)
                       else if 58 \<in> set (take i hp) then None else Some (take i hp, 0, 0))
          in case split of
               None \<Rightarrow> None
             | Some (host, j, k) \<Rightarrow>
                 if 91 \<in> set (drop j hp) then None
                 else if 93 \<in> set (drop k hp) then None
                 else Some (host, drop (i + 1) hp))"

primrec portNumber :: "bytes \<Rightarrow> 64 word \<Rightarrow> 64 word option" where
  \<comment> \<open>\<open>port = port*10 + int(c-'0')\<close> on a 64-bit \<open>int\<close>\<close>
  "portNumber [] port = Some port"
| "portNumber (c # cs) port = (if 48 \<le> c \<and> c \<le> 57 then portNumber cs (port * 10 + ucast (c - 48)) else None)"

datatype port_error = InvalidAddress | InvalidPort | PortRange int | PortDenied int

definition validatePort :: "ExitConfig \<Rightarrow> bytes \<Rightarrow> (port_error, unit) res" where
  "validatePort c addr =
     (if AllowAllPorts c then ok ()
      else case SplitHostPort addr of
             None \<Rightarrow> err InvalidAddress
           | Some (_, portStr) \<Rightarrow>
               (case portNumber portStr 0 of
                  None \<Rightarrow> err InvalidPort
                | Some port \<Rightarrow>
                    if sint port \<le> 0 \<or> sint port > 65535 then err (PortRange (sint port))
                    else if AllowedPorts c = [] then ok ()
                    else if sint port \<in> set (AllowedPorts c) then ok ()
                    else err (PortDenied (sint port))))"

section \<open>Setting up a circuit\<close>

datatype exit_node_error =
    ExitClosed | SetupCircuitID | SetupPubKey | SetupTarget | CircuitExists | SetupCrypto proto_error
  | ExitCircuitNotFound | DecodeFailed proto_error | NotActive CircuitState | WindowExceeded u32
  | Reassembly reasm_error | TargetWrite | ErrNACKRetriesExhausted | ReturnEncode proto_error | ReturnSend
  | TargetRead | ReturnCancelled

definition newExitCircuit :: "int \<Rightarrow> ExitConfig \<Rightarrow> CircuitSetup \<Rightarrow> bytes \<Rightarrow> exitCircuit" where
  "newExitCircuit now c su key =
     \<lparr>xc_ID = hexOf (cs_CircuitID su), circuitIDBytes = cs_CircuitID su, e2eKey = key, tc_written = [],
      tc_closed = False, xc_targetAddr = cs_TargetAddr su, xc_reasm = NewExitReassembler (x_ChunkerCfg c),
      tracker = newPathTracker, ackBase = 0, gapDetected = False, gapFirstSeen = 0, gapSeqs = [],
      nackRetryCount = [], streamTimers = [], xc_lastActivity = now, xc_state = CircuitActive,
      lastNACKSent = None, xc_createdAt = now\<rparr>"

definition rejectAck :: "CircuitSetup \<Rightarrow> bytes \<Rightarrow> CircuitAck" where
  "rejectAck su reason = \<lparr>ca_CircuitID = cs_CircuitID su, ca_ECDHPubKey = [], ca_Accepted = False, ca_Reason = reason\<rparr>"

definition HandleCircuitSetup ::
    "(bytes \<Rightarrow> bytes \<Rightarrow> bytes option) \<Rightarrow> bytes \<Rightarrow> (bytes \<Rightarrow> bytes) \<Rightarrow> (bytes \<Rightarrow> bool) \<Rightarrow> (port_error \<Rightarrow> bytes) \<Rightarrow> bytes \<Rightarrow>
     int \<Rightarrow> bytes \<Rightarrow> CircuitSetup \<Rightarrow> ExitNode \<Rightarrow> (exit_node_error, CircuitAck) res \<times> ExitNode" where
  \<comment> \<open>\<open>dial\<close>: whether the target answers; \<open>portText\<close> and \<open>dialText\<close>: the texts of the refusals\<close>
  "HandleCircuitSetup x25519 base sha256 dial portText dialText now rnd su e =
     (if x_closed e then (err ExitClosed, e)
      else if length (cs_CircuitID su) \<noteq> CircuitIDSize then (err SetupCircuitID, e)
      else if length (cs_ECDHPubKey su) \<noteq> 32 then (err SetupPubKey, e)
      else if cs_TargetAddr su = [] then (err SetupTarget, e)
      else let cid = hexOf (cs_CircuitID su)
           in if map_of (x_circuits e) cid \<noteq> None then (err CircuitExists, e)
              else case validatePort (x_cfg e) (cs_TargetAddr su) of
                Inl Panic \<Rightarrow> (Inl Panic, e)
              | Inl (Err pe) \<Rightarrow> (ok (rejectAck su (portText pe)), exit_secReport SecEventExitPortDenied cid (cs_TargetAddr su) e)
              | Inr _ \<Rightarrow>
                  (case and_then (GenerateECDHKeyPair x25519 base rnd) (\<lambda>(keys, rnd).
                          and_then (DeriveSharedKey x25519 sha256 (Private keys) (cs_ECDHPubKey su)) (\<lambda>key. ok (keys, key))) of
                     Inl Panic \<Rightarrow> (Inl Panic, e)
                   | Inl (Err pe) \<Rightarrow> (err (SetupCrypto pe), e)
                   | Inr (keys, key) \<Rightarrow>
                       if \<not> dial (cs_TargetAddr su)
                       then (ok (rejectAck su dialText), exit_secReport SecEventExitCircuitSetupFail cid (cs_TargetAddr su) e)
                       else (ok \<lparr>ca_CircuitID = cs_CircuitID su, ca_ECDHPubKey = Public keys, ca_Accepted = True, ca_Reason = []\<rparr>,
                             e\<lparr>x_objs := x_objs e @ [newExitCircuit now (x_cfg e) su key],
                               x_circuits := AList.update cid (length (x_objs e)) (x_circuits e)\<rparr>)))"

section \<open>Chunks arriving\<close>

definition maxWindowOf :: "ExitConfig \<Rightarrow> int" where
  "maxWindowOf c = (if MaxReassemblyWindow (x_CircuitCfg c) \<le> 0 then 256 else MaxReassemblyWindow (x_CircuitCfg c))"

definition noteArrival :: "int \<Rightarrow> int \<Rightarrow> u32 \<Rightarrow> exitCircuit \<Rightarrow> exitCircuit" where
  \<comment> \<open>path tracking, activity and the per-stream timer\<close>
  "noteArrival now pathIdx sid c =
     c\<lparr>tracker := RecordPath pathIdx (tracker c), xc_lastActivity := now,
       streamTimers := (if map_of (streamTimers c) sid = None then AList.update sid now (streamTimers c) else streamTimers c)\<rparr>"

definition markGap :: "int \<Rightarrow> u32 \<Rightarrow> exitCircuit \<Rightarrow> exitCircuit" where
  "markGap now seq c =
     (if seq \<in> set (gapSeqs c) then c
      else let c = c\<lparr>gapSeqs := gapSeqs c @ [seq]\<rparr>
           in if gapDetected c then c else c\<lparr>gapDetected := True, gapFirstSeen := now\<rparr>)"

definition detectGaps :: "int \<Rightarrow> u32 \<Rightarrow> exitCircuit \<Rightarrow> exitCircuit" where
  "detectGaps now seq c = (if seq > ackBase c then fold (markGap now) (between (ackBase c) seq) c else c)"

definition advance :: "chunk \<Rightarrow> bool \<Rightarrow> exitCircuit \<Rightarrow> exitCircuit" where
  \<comment> \<open>\<open>ackBase\<close>, the stream timer and the gap list after a delivery\<close>
  "advance ch finished c =
     (let c = (case NextExpected (StreamID ch) (xc_reasm c) of
                 Some nextExp \<Rightarrow> (if nextExp > ackBase c then c\<lparr>ackBase := nextExp\<rparr> else c)
               | None \<Rightarrow> (if finished then c\<lparr>ackBase := Sequence ch + 1\<rparr> else c));
          c = (if finished then c\<lparr>streamTimers := AList.delete (StreamID ch) (streamTimers c)\<rparr> else c);
          c = c\<lparr>gapSeqs := filter (\<lambda>s. \<not> s < ackBase c) (gapSeqs c)\<rparr>
      in if gapSeqs c = [] then c\<lparr>gapDetected := False\<rparr> else c)"

definition retries :: "exitCircuit \<Rightarrow> u32 \<Rightarrow> int" where
  "retries c s = (case map_of (nackRetryCount c) s of None \<Rightarrow> 0 | Some n \<Rightarrow> n)"

definition maybeGenerateNACK ::
    "int \<Rightarrow> ExitConfig \<Rightarrow> u32 \<Rightarrow> exitCircuit \<Rightarrow> (exit_node_error, NACKMsg option) res \<times> exitCircuit" where
  "maybeGenerateNACK now cf sid c =
     (if \<not> gapDetected c \<or> gapSeqs c = [] then (ok None, c)
      else let nackTimeout = (if NACKTimeout (x_CircuitCfg cf) \<le> 0 then 5 * 10 ^ 9 else NACKTimeout (x_CircuitCfg cf));
               maxRetries = (if MaxNACKRetries (x_CircuitCfg cf) \<le> 0 then 3 else MaxNACKRetries (x_CircuitCfg cf))
           in if now - gapFirstSeen c < nackTimeout then (ok None, c)
              else if (case lastNACKSent c of None \<Rightarrow> False | Some t \<Rightarrow> now - t < nackTimeout) then (ok None, c)
              else let missing = filter (\<lambda>s. \<not> retries c s \<ge> maxRetries) (gapSeqs c);
                       exhausted = filter (\<lambda>s. retries c s \<ge> maxRetries) (gapSeqs c)
                   in if missing = [] \<and> exhausted \<noteq> [] then (err ErrNACKRetriesExhausted, c)
                      else let missing = sort missing;
                               c = c\<lparr>nackRetryCount := fold (\<lambda>s m. AList.update s ((case map_of m s of None \<Rightarrow> 0 | Some n \<Rightarrow> n) + 1) m)
                                       missing (nackRetryCount c)\<rparr>
                           in case parseCircuitIDHex (xc_ID c) of
                                None \<Rightarrow> (ok None, c)
                              | Some cid \<Rightarrow>
                                  (ok (Some \<lparr>nk_CircuitID = cid, nk_StreamID = sid, nk_MissingSeqs = missing\<rparr>),
                                   c\<lparr>lastNACKSent := Some now\<rparr>))"

definition acceptChunk ::
    "int \<Rightarrow> nat option \<Rightarrow> ExitConfig \<Rightarrow> chunk \<Rightarrow> exitCircuit \<Rightarrow> (exit_node_error, NACKMsg option) res \<times> exitCircuit" where
  \<comment> \<open>\<open>HandleWireChunk\<close> from the window check on, on an active circuit\<close>
  "acceptChunk now wr cf ch c =
     (let c = detectGaps now (Sequence ch) c;
          (added, ra) = AddStreaming now ch (xc_reasm c);
          c = c\<lparr>xc_reasm := ra\<rparr>
      in case added of
           Inl e \<Rightarrow> (err (Reassembly e), c)
         | Inr (delivered, finished) \<Rightarrow>
             let n = (case wr of None \<Rightarrow> length delivered | Some n \<Rightarrow> min n (length delivered));
                 c = c\<lparr>tc_written := tc_written c @ take n delivered\<rparr>
             in if delivered \<noteq> [] \<and> wr \<noteq> None then (err TargetWrite, c)
                else maybeGenerateNACK now cf (StreamID ch) (advance ch finished c))"

definition HandleWireChunk ::
    "(bytes \<Rightarrow> bytes \<Rightarrow> bytes \<Rightarrow> bytes \<Rightarrow> bytes option) \<Rightarrow> int \<Rightarrow> nat option \<Rightarrow> string \<Rightarrow> WireChunk \<Rightarrow> int \<Rightarrow> ExitNode \<Rightarrow>
     (exit_node_error, NACKMsg option) res \<times> ExitNode" where
  "HandleWireChunk aopen now wr cid wc pathIdx e =
     (if x_closed e then (err ExitClosed, e)
      else case map_of (x_circuits e) cid of
             None \<Rightarrow> (err ExitCircuitNotFound, exit_secReport SecEventExitCircuitNotFound cid [] e)
           | Some p \<Rightarrow>
               let c = x_objs e ! p
               in case DecodeChunk aopen wc (e2eKey c) (circuitIDBytes c) of
                    Inl Panic \<Rightarrow> (Inl Panic, e)
                  | Inl (Err pe) \<Rightarrow> (err (DecodeFailed pe), exit_secReport SecEventExitDecodeFail cid [] e)
                  | Inr ch \<Rightarrow>
                      if xc_state c \<noteq> CircuitActive then (err (NotActive (xc_state c)), e)
                      else let c = noteArrival now pathIdx (StreamID ch) c
                           in if Sequence ch \<ge> ackBase c + of_int (maxWindowOf (x_cfg e))
                              then (err (WindowExceeded (Sequence ch)),
                                    exit_secReport SecEventExitWindowExceeded cid [] (x_upd p (\<lambda>_. c) e))
                              else let (r, c) = acceptChunk now wr (x_cfg e) ch c;
                                       e = x_upd p (\<lambda>_. c) e
                                   in (r, if r = err ErrNACKRetriesExhausted
                                          then exit_secReport SecEventExitNACKRetriesExhausted cid [] e else e))"

section \<open>Teardown and cleanup\<close>

definition exit_HandleTeardown :: "TeardownMsg \<Rightarrow> ExitNode \<Rightarrow> (exit_node_error, unit) res \<times> ExitNode" where
  \<comment> \<open>the key is overwritten with zeros and dropped\<close>
  "exit_HandleTeardown td e =
     (case map_of (x_circuits e) (hexOf (td_CircuitID td)) of
        None \<Rightarrow> (err ExitCircuitNotFound, e)
      | Some p \<Rightarrow>
          (ok (), x_upd p (\<lambda>c. c\<lparr>tc_closed := True, e2eKey := [], xc_state := CircuitClosed\<rparr>)
             (e\<lparr>x_circuits := AList.delete (hexOf (td_CircuitID td)) (x_circuits e)\<rparr>)))"

definition HandleKeepalive :: "int \<Rightarrow> string \<Rightarrow> int \<Rightarrow> int \<Rightarrow> ExitNode \<Rightarrow> (exit_node_error, unit) res \<times> ExitNode" where
  \<comment> \<open>\<open>timestamp\<close> is the nanosecond count of the message\<close>
  "HandleKeepalive now cid timestamp pathIdx e =
     (case map_of (x_circuits e) cid of
        None \<Rightarrow> (err ExitCircuitNotFound, e)
      | Some p \<Rightarrow>
          (ok (), x_upd p (\<lambda>c. c\<lparr>tracker := pt_RecordRTT pathIdx (now - timestamp) (tracker c), xc_lastActivity := now\<rparr>) e))"

definition exit_CircuitCount :: "ExitNode \<Rightarrow> nat" where
  "exit_CircuitCount e = length (x_circuits e)"

definition GetCircuitInfo :: "string \<Rightarrow> ExitNode \<Rightarrow> (exit_node_error, bytes \<times> CircuitState \<times> nat) res" where
  "GetCircuitInfo cid e =
     (case map_of (x_circuits e) cid of
        None \<Rightarrow> err ExitCircuitNotFound
      | Some p \<Rightarrow> ok (xc_targetAddr (x_objs e ! p), xc_state (x_objs e ! p), ActivePaths (tracker (x_objs e ! p))))"

definition dropCircuit :: "exitCircuit \<Rightarrow> exitCircuit" where
  \<comment> \<open>what \<open>Close\<close> and \<open>CleanupOrphans\<close> do to a circuit\<close>
  "dropCircuit c = c\<lparr>xc_state := CircuitClosed, tc_closed := True\<rparr>"

definition exit_Close :: "ExitNode \<Rightarrow> ExitNode" where
  "exit_Close e = fold (\<lambda>(cid, p). x_upd p dropCircuit) (x_circuits e) (e\<lparr>x_closed := True, x_circuits := []\<rparr>)"

definition purgeStuck :: "int \<Rightarrow> int \<Rightarrow> exitCircuit \<Rightarrow> exitCircuit" where
  \<comment> \<open>the loop over the stream timers\<close>
  "purgeStuck now streamTimeout c =
     fold (\<lambda>(sid, first) c.
        if now - first > streamTimeout
        then c\<lparr>xc_reasm := (if IsCompleted sid (xc_reasm c) then xc_reasm c else PurgeStream sid (xc_reasm c)),
               streamTimers := AList.delete sid (streamTimers c)\<rparr>
        else c) (streamTimers c) c"

definition CleanupOrphans :: "int \<Rightarrow> ExitNode \<Rightarrow> nat \<times> ExitNode" where
  "CleanupOrphans now e =
     (let orphanTimeout = (if OrphanTimeout (x_CircuitCfg (x_cfg e)) \<le> 0 then 30 * 10 ^ 9
                           else OrphanTimeout (x_CircuitCfg (x_cfg e)));
          streamTimeout = (if cc_StreamReassemblyTimeout (x_CircuitCfg (x_cfg e)) \<le> 0 then 60 * 10 ^ 9
                           else cc_StreamReassemblyTimeout (x_CircuitCfg (x_cfg e)))
      in fold (\<lambda>(cid, p) (removed, e).
           if now - xc_lastActivity (x_objs e ! p) > orphanTimeout
           then (removed + 1, x_upd p dropCircuit (e\<lparr>x_circuits := AList.delete cid (x_circuits e)\<rparr>))
           else (removed, x_upd p (purgeStuck now streamTimeout) e)) (x_circuits e) (0, e))"

definition cleanupInterval :: "ExitConfig \<Rightarrow> int" where
  \<comment> \<open>the ticker of \<open>StartOrphanCleanup\<close>\<close>
  "cleanupInterval c =
     (let orphanTimeout = (if OrphanTimeout (x_CircuitCfg c) \<le> 0 then 30 * 10 ^ 9 else OrphanTimeout (x_CircuitCfg c));
          streamTimeout = (if cc_StreamReassemblyTimeout (x_CircuitCfg c) \<le> 0 then 60 * 10 ^ 9
                           else cc_StreamReassemblyTimeout (x_CircuitCfg c));
          interval = go_quot (if streamTimeout < orphanTimeout then streamTimeout else orphanTimeout) 2
      in if interval < 5 * 10 ^ 9 then 5 * 10 ^ 9 else interval)"

definition ClosestFastestPath :: "string \<Rightarrow> ExitNode \<Rightarrow> int" where
  "ClosestFastestPath cid e =
     (case map_of (x_circuits e) cid of None \<Rightarrow> 0 | Some p \<Rightarrow> FastestPath (tracker (x_objs e ! p)))"

section \<open>The return direction\<close>

primrec returnChunks ::
    "(bytes \<Rightarrow> bytes \<Rightarrow> bytes) \<Rightarrow> (bytes \<Rightarrow> bytes \<Rightarrow> bytes \<Rightarrow> bytes \<Rightarrow> bytes) \<Rightarrow> sender \<Rightarrow> bytes \<Rightarrow> bytes \<Rightarrow> bytes \<Rightarrow> exitCircuit \<Rightarrow>
     chunk list \<Rightarrow> u32 \<Rightarrow> (int \<times> WireChunk) list \<Rightarrow> bytes \<Rightarrow>
     (exit_node_error, unit) res \<times> u32 \<times> (int \<times> WireChunk) list \<times> bytes" where
  \<comment> \<open>the loop over the chunks of one read, with the next sequence number and what was sent\<close>
  "returnChunks aes seal sendOK key relayKey nextHop c [] seq sent rnd = (ok (), seq, sent, rnd)"
| "returnChunks aes seal sendOK key relayKey nextHop c (ch # chs) seq sent rnd =
     (let ch = ch\<lparr>StreamID := 1, Sequence := seq, Total := 0\<rparr>; pathIdx = FastestPath (tracker c)
      in case EncodeChunk aes seal rnd ch key relayKey nextHop (circuitIDBytes c) of
           Inl Panic \<Rightarrow> (Inl Panic, seq + 1, sent, rnd)
         | Inl (Err pe) \<Rightarrow> (err (ReturnEncode pe), seq + 1, sent, rnd)
         | Inr (wc, rnd) \<Rightarrow>
             if \<not> sendOK sent pathIdx wc then (err ReturnSend, seq + 1, sent, rnd)
             else returnChunks aes seal sendOK key relayKey nextHop c chs (seq + 1) (sent @ [(pathIdx, wc)]) rnd)"

primrec returnLoop ::
    "(bytes \<Rightarrow> bytes \<Rightarrow> bytes) \<Rightarrow> (bytes \<Rightarrow> bytes \<Rightarrow> bytes \<Rightarrow> bytes \<Rightarrow> bytes) \<Rightarrow> (int \<Rightarrow> u64 \<Rightarrow> int) \<Rightarrow> sender \<Rightarrow>
     bytes \<Rightarrow> bytes \<Rightarrow> bytes \<Rightarrow> exitCircuit \<Rightarrow> nat option \<Rightarrow> (bytes \<times> conn_end option) list \<Rightarrow>
     Chunker \<Rightarrow> u32 \<Rightarrow> (int \<times> WireChunk) list \<Rightarrow> bytes \<Rightarrow> (exit_node_error, unit) res option \<times> (int \<times> WireChunk) list" where
  "returnLoop aes seal q sendOK key relayKey nextHop c ctx [] ck seq sent rnd =
     (if ctx = Some 0 then Some (err ReturnCancelled) else None, sent)"
| "returnLoop aes seal q sendOK key relayKey nextHop c ctx (r # reads) ck seq sent rnd =
     (if ctx = Some 0 then (Some (err ReturnCancelled), sent)
      else let (chs, ck) = (if fst r = [] then ([], ck) else chunker_Split q ck (fst r))
           in case returnChunks aes seal sendOK key relayKey nextHop c chs seq sent rnd of
                (Inl e, seq, sent, rnd) \<Rightarrow> (Some (Inl e), sent)
              | (Inr _, seq, sent, rnd) \<Rightarrow>
                  (case snd r of
                     None \<Rightarrow> returnLoop aes seal q sendOK key relayKey nextHop c (map_option (\<lambda>n. n - 1) ctx) reads ck seq sent rnd
                   | Some ConnError \<Rightarrow> (Some (err TargetRead), sent)
                   | Some ConnEOF \<Rightarrow>
                       let endChunk = \<lparr>StreamID = 1, Sequence = seq, Total = 0, CType = ChunkStreamEnd, Payload = [], PaddingLen = 0\<rparr>
                       in case EncodeChunk aes seal rnd endChunk key relayKey nextHop (circuitIDBytes c) of
                            Inl Panic \<Rightarrow> (Some (Inl Panic), sent)
                          | Inl (Err pe) \<Rightarrow> (Some (err (ReturnEncode pe)), sent)
                          | Inr (wc, rnd) \<Rightarrow>
                              let pathIdx = FastestPath (tracker c)
                              in (Some (ok ()), if sendOK sent pathIdx wc then sent @ [(pathIdx, wc)] else sent)))"

definition ForwardTargetToEntry ::
    "(bytes \<Rightarrow> bytes) \<Rightarrow> (bytes \<Rightarrow> bytes \<Rightarrow> bytes) \<Rightarrow> (bytes \<Rightarrow> bytes \<Rightarrow> bytes \<Rightarrow> bytes \<Rightarrow> bytes) \<Rightarrow> (int \<Rightarrow> u64 \<Rightarrow> int) \<Rightarrow> sender \<Rightarrow>
     chunkerFactory registry \<Rightarrow> bytes \<Rightarrow> bytes \<Rightarrow> bytes \<Rightarrow> nat option \<Rightarrow> bytes \<Rightarrow> bytes \<Rightarrow>
     (bytes \<times> conn_end option) list \<Rightarrow> string \<Rightarrow> ExitNode \<Rightarrow>
     (exit_node_error, unit) res option \<times> (int \<times> WireChunk) list" where
  \<comment> \<open>while the path tracker does not change; \<open>rndPad\<close> feeds the padding source\<close>
  "ForwardTargetToEntry sha256 aes seal q sendOK reg key relayKey nextHop ctx rndPad rnd reads cid e =
     (case map_of (x_circuits e) cid of
        None \<Rightarrow> (Some (err ExitCircuitNotFound), [])
      | Some p \<Rightarrow>
          let strategy = (if x_DebugFixedChunks (x_cfg e) then fixed16kName else x_ChunkerStrategy (x_cfg e))
          in case NewChunkerWithConfig (NewPaddingSource sha256 aes rndPad (x_ChunkerCfg (x_cfg e))) reg strategy
                    (x_ChunkerCfg (x_cfg e)) of
               Inl _ \<Rightarrow> (Some (Inl Panic), [])
             | Inr ck \<Rightarrow> returnLoop aes seal q sendOK key relayKey nextHop (x_objs e ! p) ctx reads ck 0 [] rnd)"

end
