(* ===== verification/Entry_Node.thy ===== *)
theory Entry_Node
  imports Dispatcher Security_Events Exit_Node
begin

text \<open>
  The entry node (\<open>internal/proxy/entry_node.go\<close>): choice of paths at start, the key exchange with the
  exit, and the bookkeeping of sessions. The control connection to the exit is the function
  \<open>exchange\<close> from the bytes written to the bytes read back, \<open>None\<close> when dialling or writing fails.
\<close>

section \<open>State\<close>

record EntryNodeConfig =
  en_CircuitCfg :: CircuitConfig
  en_ChunkerStrategy :: string
  en_ChunkerCfg :: ChunkerConfig
  en_DebugFixedChunks :: bool
  en_Path1 :: "Path option"
  en_Path2 :: "Path option"
  PathSelectionMode :: string
  en_Selector :: "PathSelector option"
  CandidateRelays :: "CandidateRelay list"
  en_ExitAddr :: string
  en_Assignment :: "ChunkAssignmentStrategy option"

definition DefaultEntryNodeConfig :: EntryNodeConfig where
  "DefaultEntryNodeConfig =
     \<lparr>en_CircuitCfg = DefaultCircuitConfig, en_ChunkerStrategy = boundedName, en_ChunkerCfg = DefaultChunkerConfig,
      en_DebugFixedChunks = False, en_Path1 = None, en_Path2 = None, PathSelectionMode = ''manual'',
      en_Selector = None, CandidateRelays = [], en_ExitAddr = [], en_Assignment = None\<rparr>"

record session =
  s_circuitID :: bytes
  s_e2eKey :: bytes
  s_dispatcher :: Dispatcher
  pathConns :: "string option \<times> string option"  \<comment> \<open>the addresses the open path connections lead to\<close>

record EntryNode =
  en_cfg :: EntryNodeConfig
  en_closed :: bool
  sessions :: "(string \<times> session) list"
  path1 :: "Path option"
  path2 :: "Path option"
  circuitMgr :: "CircuitManager option"
  en_sink :: "SecurityEventSink option"

datatype entry_error =
    EntryClosed | NeedSelector | NeedCandidates nat | AutoSelect select_error | NeedPaths | BadPaths overlap_error
  | EntryCrypto proto_error | ExitUnreachable | SetupNotSent | AckRead io_error | ExitRejected bytes | EntryDispatcher disp_error
  | NilPath | PathDialFailed string

definition map_err :: "('e \<Rightarrow> 'f) \<Rightarrow> ('e, 'a) res \<Rightarrow> ('f, 'a) res" where
  "map_err f m = (case m of Inl Panic \<Rightarrow> Inl Panic | Inl (Err e) \<Rightarrow> Inl (Err (f e)) | Inr x \<Rightarrow> Inr x)"

lemma map_err_simps [simp]: "map_err f (ok x) = ok x" "map_err f (err e) = err (f e)" "map_err f (Inl Panic) = Inl Panic"
  by (simp_all add: map_err_def)

lemma map_err_eq_Inr [res_iffs]: "map_err f m = Inr x \<longleftrightarrow> m = Inr x"
  by (auto simp: map_err_def split: sum.split fail.split)

definition NewEntryNode :: "EntryNodeConfig \<Rightarrow> CircuitManager option \<Rightarrow> SecurityEventSink option \<Rightarrow> EntryNode" where
  "NewEntryNode c mgr sink =
     (let c = (if en_ChunkerStrategy c = [] then c\<lparr>en_ChunkerStrategy := boundedName\<rparr> else c);
          c = (if PathSelectionMode c = [] then c\<lparr>PathSelectionMode := ''manual''\<rparr> else c);
          c = (if MaxChunkSize (en_ChunkerCfg c) = 0 then c\<lparr>en_ChunkerCfg := DefaultChunkerConfig\<rparr> else c)
      in \<lparr>en_cfg = c, en_closed = False, sessions = [], path1 = None, path2 = None,
          circuitMgr = map_option OnCircuitEvent mgr, en_sink = sink\<rparr>)"

definition entry_SetSecurityEventSink :: "SecurityEventSink option \<Rightarrow> EntryNode \<Rightarrow> EntryNode" where
  "entry_SetSecurityEventSink sink e = e\<lparr>en_sink := sink\<rparr>"

section \<open>Starting\<close>

definition entry_Start :: "int \<Rightarrow> bytes \<Rightarrow> EntryNode \<Rightarrow> (entry_error, unit) res \<times> EntryNode" where
  "entry_Start now rnd e =
     (let c = en_cfg e
      in if en_closed e then (err EntryClosed, e)
         else if PathSelectionMode c = ''auto''
         then (case en_Selector c of
                 None \<Rightarrow> (err NeedSelector, e)
               | Some ps \<Rightarrow>
                   if length (CandidateRelays c) < 2 then (err (NeedCandidates (length (CandidateRelays c))), e)
                   else let (r, ps) = ps_SelectPaths now rnd (CandidateRelays c) ps;
                            e = e\<lparr>en_cfg := c\<lparr>en_Selector := Some ps\<rparr>\<rparr>
                        in case r of
                             Inl Panic \<Rightarrow> (Inl Panic, e)
                           | Inl (Err x) \<Rightarrow> (err (AutoSelect x), e)
                           | Inr (p1, p2) \<Rightarrow> (ok (), e\<lparr>path1 := Some p1, path2 := Some p2\<rparr>))
         else (case (en_Path1 c, en_Path2 c) of
                 (Some p1, Some p2) \<Rightarrow>
                   (case ValidatePathPair p1 p2 of
                      Inl Panic \<Rightarrow> (Inl Panic, e)
                    | Inl (Err x) \<Rightarrow> (err (BadPaths x), e)
                    | Inr _ \<Rightarrow> (ok (), e\<lparr>path1 := Some p1, path2 := Some p2\<rparr>))
               | _ \<Rightarrow> (err NeedPaths, e)))"

section \<open>Circuit setup\<close>

definition readAck :: "bytes \<Rightarrow> (entry_error, CircuitAck) res" where
  \<comment> \<open>the fixed part, then as many bytes as the reason length says\<close>
  "readAck r =
     and_then (readFull AckRead r (CircuitIDSize + 32 + 1 + 2)) (\<lambda>(ackFixed, r).
     and_then (byte_at ackFixed (CircuitIDSize + 32 + 1)) (\<lambda>hi.
     and_then (byte_at ackFixed (CircuitIDSize + 32 + 2)) (\<lambda>lo.
     let reasonLen = unat hi * 256 + unat lo
     in and_then (if reasonLen > 0
                  then and_then (readFull AckRead r reasonLen) (\<lambda>(reasonBuf, r). ok (ackFixed @ reasonBuf))
                  else ok ackFixed) (\<lambda>dat.
        map_err EntryCrypto (DecodeCircuitAck dat)))))"

definition exchangeKeys ::
    "(bytes \<Rightarrow> bytes \<Rightarrow> bytes option) \<Rightarrow> (bytes \<Rightarrow> bytes) \<Rightarrow> (bytes \<Rightarrow> bytes option) option \<Rightarrow> ECDHKeyPair \<Rightarrow> bytes \<Rightarrow> bytes \<Rightarrow>
     (entry_error, bytes) res" where
  \<comment> \<open>the part both setup functions share, from dialling the exit to the shared key. \<open>exchange\<close> is the
      exit as seen over the network: \<open>None\<close> when it cannot be dialled, else the bytes that come back
      for the request, if it can be written\<close>
  "exchangeKeys x25519 sha256 exchange entryKeys circuitID targetAddr =
     (case exchange of
        None \<Rightarrow> err ExitUnreachable
      | Some answer \<Rightarrow>
          and_then (map_err EntryCrypto (CircuitSetup_Encode
            \<lparr>cs_CircuitID = circuitID, cs_ECDHPubKey = Public entryKeys, cs_TargetAddr = targetAddr\<rparr>)) (\<lambda>setupData.
          case answer setupData of
            None \<Rightarrow> err SetupNotSent
          | Some reply \<Rightarrow>
              and_then (readAck reply) (\<lambda>ack.
              guard (\<not> ca_Accepted ack) (ExitRejected (ca_Reason ack))
              (map_err EntryCrypto (DeriveSharedKey x25519 sha256 (Private entryKeys) (ca_ECDHPubKey ack))))))"

definition dispatcherConfig :: "EntryNode \<Rightarrow> ChunkAssignmentStrategy option \<Rightarrow> bytes \<Rightarrow> bytes \<Rightarrow> DispatcherConfig" where
  "dispatcherConfig e assignment key circuitID =
     \<lparr>ChunkerStrategy = en_ChunkerStrategy (en_cfg e), ChunkerCfg = en_ChunkerCfg (en_cfg e),
      CircuitCfg = en_CircuitCfg (en_cfg e), Path1 = path1 e, Path2 = path2 e, d_E2EKey = key, d_CircuitID = circuitID,
      ExitAddr = en_ExitAddr (en_cfg e), DebugFixedChunks = en_DebugFixedChunks (en_cfg e), d_Assignment = assignment\<rparr>"

definition openSession ::
    "(bytes \<Rightarrow> bytes) \<Rightarrow> (bytes \<Rightarrow> bytes \<Rightarrow> bytes) \<Rightarrow> chunkerFactory registry \<Rightarrow> bytes \<Rightarrow> ChunkAssignmentStrategy option \<Rightarrow>
     bytes \<Rightarrow> bytes \<Rightarrow> EntryNode \<Rightarrow> (entry_error, session) res" where
  "openSession sha256 aes reg rnd assignment key circuitID e =
     and_then (map_err EntryDispatcher (NewDispatcher sha256 aes reg rnd (dispatcherConfig e assignment key circuitID))) (\<lambda>d.
     ok \<lparr>s_circuitID = circuitID, s_e2eKey = key, s_dispatcher = d, pathConns = (None, None)\<rparr>)"

definition managerCircuit ::
    "int \<Rightarrow> bytes \<Rightarrow> bytes \<Rightarrow> string \<Rightarrow> EntryNode \<Rightarrow> (bytes option \<times> EntryNode) option" where
  \<comment> \<open>the identifier the manager assigns, if it tracks the circuit; \<open>None\<close> when its path search does not return\<close>
  "managerCircuit now rndKeys rnd targetAddr e =
     (case circuitMgr e of
        None \<Rightarrow> Some (None, e)
      | Some cm \<Rightarrow>
          map_option (\<lambda>(r, cm). (case r of Inr cid \<Rightarrow> Some cid | Inl _ \<Rightarrow> None, e\<lparr>circuitMgr := Some cm\<rparr>))
            (CreateCircuit now rndKeys rnd targetAddr ''entry'' ''exit'' (CandidateRelays (en_cfg e)) cm))"

definition setupCircuit ::
    "(bytes \<Rightarrow> bytes \<Rightarrow> bytes option) \<Rightarrow> bytes \<Rightarrow> (bytes \<Rightarrow> bytes) \<Rightarrow> (bytes \<Rightarrow> bytes \<Rightarrow> bytes) \<Rightarrow> chunkerFactory registry \<Rightarrow>
     (bytes \<Rightarrow> bytes option) option \<Rightarrow> int \<Rightarrow> bytes \<times> bytes \<Rightarrow> bytes \<Rightarrow> string \<Rightarrow> EntryNode \<Rightarrow>
     ((entry_error, session) res \<times> EntryNode) option" where
  \<comment> \<open>\<open>rndM\<close> is what the manager draws, \<open>rnd\<close> what this function draws\<close>
  "setupCircuit x25519 base sha256 aes reg exchange now rndM rnd targetAddr e =
     (case GenerateECDHKeyPair x25519 base rnd of
        Inl Panic \<Rightarrow> Some (Inl Panic, e)
      | Inl (Err x) \<Rightarrow> Some (err (EntryCrypto x), e)
      | Inr (entryKeys, rnd) \<Rightarrow>
          map_option (\<lambda>(cid, e).
            (and_then (if cid = None \<or> cid = Some (replicate CircuitIDSize 0)
                       then map_err EntryCrypto (GenerateCircuitID rnd) else ok (the cid, rnd)) (\<lambda>(circuitID, rnd).
             and_then (exchangeKeys x25519 sha256 exchange entryKeys circuitID (ascii targetAddr)) (\<lambda>key.
             openSession sha256 aes reg rnd None key circuitID e)), e))
          (managerCircuit now (fst rndM) (snd rndM) targetAddr e))"

definition setupCircuitViaManager ::
    "(bytes \<Rightarrow> bytes \<Rightarrow> bytes option) \<Rightarrow> bytes \<Rightarrow> (bytes \<Rightarrow> bytes) \<Rightarrow> (bytes \<Rightarrow> bytes \<Rightarrow> bytes) \<Rightarrow> chunkerFactory registry \<Rightarrow>
     (bytes \<Rightarrow> bytes option) option \<Rightarrow> bytes \<Rightarrow> string \<Rightarrow> EntryNode \<Rightarrow> (entry_error, session) res \<times> EntryNode" where
  \<comment> \<open>the manager configuration the code assembles is not used, and no method of the manager is called\<close>
  "setupCircuitViaManager x25519 base sha256 aes reg exchange rnd targetAddr e =
     (and_then (map_err EntryCrypto (GenerateECDHKeyPair x25519 base rnd)) (\<lambda>(entryKeys, rnd).
      and_then (map_err EntryCrypto (GenerateCircuitID rnd)) (\<lambda>(circuitID, rnd).
      and_then (exchangeKeys x25519 sha256 exchange entryKeys circuitID (ascii targetAddr)) (\<lambda>key.
      openSession sha256 aes reg rnd (en_Assignment (en_cfg e)) key circuitID e))), e)"

section \<open>Sessions\<close>

definition dialPath :: "(string \<Rightarrow> bool) \<Rightarrow> int \<Rightarrow> EntryNode \<Rightarrow> (entry_error, string) res" where
  \<comment> \<open>the address the connection leads to\<close>
  "dialPath dial pathIdx e =
     (case if pathIdx = 0 then path1 e else path2 e of
        None \<Rightarrow> err NilPath
      | Some p \<Rightarrow>
          let addr = (case Relays p of r # _ \<Rightarrow> r | [] \<Rightarrow> en_ExitAddr (en_cfg e))
          in if dial addr then ok addr else err (PathDialFailed addr))"

definition registerSession :: "session \<Rightarrow> EntryNode \<Rightarrow> bool \<times> EntryNode" where
  \<comment> \<open>false when the node was closed meanwhile\<close>
  "registerSession s e =
     (if en_closed e then (False, e)
      else (True, e\<lparr>sessions := AList.update (hexOf (s_circuitID s)) s (sessions e)\<rparr>))"

definition dialBoth :: "(string \<Rightarrow> bool) \<Rightarrow> session \<Rightarrow> EntryNode \<Rightarrow> (entry_error, session) res" where
  \<comment> \<open>both path connections are required\<close>
  "dialBoth dial s e =
     and_then (dialPath dial 0 e) (\<lambda>a. and_then (dialPath dial 1 e) (\<lambda>b. ok (s\<lparr>pathConns := (Some a, Some b)\<rparr>)))"

definition teardownReason :: bytes where
  "teardownReason = ascii ''entry node connection close''"

definition entry_teardown :: "session \<Rightarrow> EntryNode \<Rightarrow> session \<times> EntryNode" where
  \<comment> \<open>\<open>teardownCircuit\<close>: connections and dispatcher are closed, the manager's teardown is started\<close>
  "entry_teardown s e =
     (s\<lparr>pathConns := (None, None), s_dispatcher := disp_Close (s_dispatcher s)\<rparr>,
      e\<lparr>circuitMgr := map_option (\<lambda>cm. if length (s_circuitID s) = CircuitIDSize
          then cm\<lparr>tasks := tasks cm @ [TeardownTask (s_circuitID s) teardownReason]\<rparr> else cm) (circuitMgr e)\<rparr>)"

definition finishConnection :: "session \<Rightarrow> EntryNode \<Rightarrow> session \<times> EntryNode" where
  \<comment> \<open>the deferred cleanup of \<open>HandleConnection\<close>\<close>
  "finishConnection s e = entry_teardown s (e\<lparr>sessions := AList.delete (hexOf (s_circuitID s)) (sessions e)\<rparr>)"

datatype conn_outcome =
    ConnPanic | SetupFailed | NodeClosed | PathsFailed entry_error | Dispatched "(disp_error, unit) res option"

definition openCircuit ::
    "(bytes \<Rightarrow> bytes \<Rightarrow> bytes option) \<Rightarrow> bytes \<Rightarrow> (bytes \<Rightarrow> bytes) \<Rightarrow> (bytes \<Rightarrow> bytes \<Rightarrow> bytes) \<Rightarrow> chunkerFactory registry \<Rightarrow>
     (bytes \<Rightarrow> bytes option) option \<Rightarrow> int \<Rightarrow> bytes \<times> bytes \<Rightarrow> bytes \<Rightarrow> string \<Rightarrow> EntryNode \<Rightarrow>
     ((entry_error, session) res \<times> EntryNode) option" where
  \<comment> \<open>the choice between the two setup functions\<close>
  "openCircuit x25519 base sha256 aes reg exchange now rndM rnd targetAddr e =
     (if circuitMgr e \<noteq> None
      then Some (setupCircuitViaManager x25519 base sha256 aes reg exchange rnd targetAddr e)
      else setupCircuit x25519 base sha256 aes reg exchange now rndM rnd targetAddr e)"

definition HandleConnection ::
    "(bytes \<Rightarrow> bytes \<Rightarrow> bytes option) \<Rightarrow> bytes \<Rightarrow> (bytes \<Rightarrow> bytes) \<Rightarrow> (bytes \<Rightarrow> bytes \<Rightarrow> bytes) \<Rightarrow>
     (bytes \<Rightarrow> bytes \<Rightarrow> bytes \<Rightarrow> bytes \<Rightarrow> bytes) \<Rightarrow> (int \<Rightarrow> u64 \<Rightarrow> int) \<Rightarrow> chunkerFactory registry \<Rightarrow>
     (bytes \<Rightarrow> bytes option) option \<Rightarrow> (string \<Rightarrow> bool) \<Rightarrow> sender \<Rightarrow> (int \<Rightarrow> rat) \<Rightarrow> nat option \<Rightarrow> int \<Rightarrow>
     bytes \<times> bytes \<Rightarrow> bytes \<Rightarrow> bytes \<Rightarrow> (bytes \<times> conn_end option) list \<Rightarrow> string \<Rightarrow> EntryNode \<Rightarrow>
     (conn_outcome \<times> (int \<times> WireChunk) list \<times> EntryNode) option" where
  \<comment> \<open>one connection, with no other call in between: how it ended, what was sent on the paths, the node
      after the deferred cleanup. \<open>rnd\<close> is drawn by the setup, \<open>rndRun\<close> by the dispatcher's nonces\<close>
  "HandleConnection x25519 base sha256 aes seal q reg exchange dial sendOK draw ctx now rndM rnd rndRun reads targetAddr e =
     map_option (\<lambda>(r, e).
       case r of
         Inl Panic \<Rightarrow> (ConnPanic, [], e)
       | Inl (Err _) \<Rightarrow>
           (SetupFailed, [], e\<lparr>en_sink := sink_Report \<lparr>se_Type = SecEventExitCircuitSetupFail, se_CircuitID = [],
              se_TargetAddr = ascii targetAddr\<rparr> (en_sink e)\<rparr>)
       | Inr s \<Rightarrow>
           let (registered, e) = registerSession s e
           in if \<not> registered then (NodeClosed, [], e)
              else case dialBoth dial s e of
                     Inl Panic \<Rightarrow> (ConnPanic, [], snd (finishConnection s e))
                   | Inl (Err x) \<Rightarrow> (PathsFailed x, [], snd (finishConnection s e))
                   | Inr s \<Rightarrow>
                       let (x, run) = disp_Run aes seal q sendOK draw ctx now rndRun reads (s_dispatcher s)
                       in (Dispatched x, rsent run,
                           snd (finishConnection (s\<lparr>s_dispatcher := rd run\<rparr>) e)))
     (openCircuit x25519 base sha256 aes reg exchange now rndM rnd targetAddr e)"

definition entry_Close :: "int \<Rightarrow> EntryNode \<Rightarrow> EntryNode" where
  "entry_Close now e =
     (if en_closed e then e
      else let ss = sessions e;
               e = e\<lparr>en_closed := True, sessions := []\<rparr>;
               e = fold (\<lambda>(_, s) e. snd (entry_teardown s e)) ss e
           in e\<lparr>circuitMgr := map_option (Shutdown now) (circuitMgr e)\<rparr>)"

definition SessionCount :: "EntryNode \<Rightarrow> nat" where
  "SessionCount e = length (sessions e)"

record EntryNodeStatus =
  Running :: bool
  es_SessionCount :: nat
  Path1Relays :: "string list"
  Path2Relays :: "string list"
  es_ExitAddr :: string

definition Status :: "EntryNode \<Rightarrow> EntryNodeStatus" where
  "Status e = \<lparr>Running = (\<not> en_closed e), es_SessionCount = length (sessions e),
     Path1Relays = (case path1 e of None \<Rightarrow> [] | Some p \<Rightarrow> Relays p),
     Path2Relays = (case path2 e of None \<Rightarrow> [] | Some p \<Rightarrow> Relays p), es_ExitAddr = en_ExitAddr (en_cfg e)\<rparr>"

end
