(* ===== verification/Streaming.thy ===== *)
theory Streaming
  imports Reassembler
begin

text \<open>
  Reassembly of a stream whose length is not announced, as the dispatcher sends it: every chunk
  carries total 0, and the stream ends with a marker. The chunks may arrive in any order, each once.
\<close>

definition open_stream :: "bytes list \<Rightarrow> nat set \<Rightarrow> nat \<Rightarrow> exitStreamState \<Rightarrow> bool" where
  \<comment> \<open>the chunks \<open>R\<close> of the payloads \<open>ps\<close> have arrived, the first \<open>k\<close> are delivered, the rest is buffered\<close>
  "open_stream ps R k st \<longleftrightarrow>
     st_ok st \<and> \<not> completed st \<and> \<not> st_totalSet st \<and> R \<subseteq> {0..<length ps} \<and> {0..<k} \<subseteq> R \<and> k \<le> length ps \<and>
     nextExpected st = of_nat k \<and>
     (\<forall>w. map_of (chunks st) w = (if unat w \<in> R \<and> k \<le> unat w then Some (ps ! unat w) else None))"

lemma unat_small: "i < length ps \<Longrightarrow> length ps < 2 ^ 32 \<Longrightarrow> unat (of_nat i :: u32) = i"
  by (intro unat_of_nat_small(2)) simp

lemma of_nat_of_unat: "(of_nat (unat w) :: u32) = w"
  by (rule word_unat_eq_iff [THEN iffD2]) (simp add: unsigned_of_nat take_bit_nat_eq_self)

lemma open_stream_fits:
  assumes "open_stream ps R k st" "length ps < 2 ^ 32" "R \<subseteq> {..<k + w}"
    and "i < length ps" "i \<notin> R" "i < k + w" "\<forall>p\<in>set ps. plen p \<le> m"
  shows "length (chunks st) < w \<and> st_bytes st + plen (ps ! i) \<le> int w * m"
proof -
  define J where "J = {j \<in> R. k \<le> j}"
  have R: "R \<subseteq> {0..<length ps}" "{0..<k} \<subseteq> R" "st_ok st" using assms(1) by (simp_all add: open_stream_def)
  have J: "J \<subseteq> {0..<length ps}" and fin: "finite J" using R(1) by (auto simp: J_def intro: finite_subset)
  have ik: "k \<le> i" using R(2) assms(5) by (meson atLeastLessThan_iff le0 not_le subsetD)
  have m: "map_of (chunks st) w = (if unat w \<in> J then Some (ps ! unat w) else None)" for w
    using assms(1) by (simp add: open_stream_def J_def)
  have u: "unat (of_nat j :: u32) = j" if "j \<in> J" for j
    using that J assms(2) by (intro unat_small [where ps = ps]) auto
  have "fst ` set (chunks st) = dom (map_of (chunks st))" by (simp add: dom_map_of_conv_image_fst)
  also have "\<dots> = (of_nat :: nat \<Rightarrow> u32) ` J"
  proof (intro equalityI subsetI)
    fix w assume "w \<in> dom (map_of (chunks st))"
    then have "unat w \<in> J" by (auto simp: m split: if_splits)
    then show "w \<in> of_nat ` J" by (metis imageI of_nat_of_unat)
  next
    fix w :: u32 assume "w \<in> of_nat ` J"
    then show "w \<in> dom (map_of (chunks st))" by (auto simp: m u)
  qed
  finally have keys: "fst ` set (chunks st) = (of_nat :: nat \<Rightarrow> u32) ` J" .
  have "the (map_of (chunks st) (of_nat j)) = ps ! j" if "j \<in> J" for j using that by (simp add: m u)
  note B = buffer_size [OF R(3) assms(2) J keys this]
  have "card (insert i J) \<le> card {k..<k + w}" using assms(3,6) ik by (intro card_mono) (auto simp: J_def)
  then have len: "card J < w" using assms(5) fin by (simp add: J_def)
  have "(\<Sum>j\<in>insert i J. plen (ps ! j)) \<le> int (card (insert i J)) * m"
    using assms(4,7) J by (intro sum_bounded_above) auto
  also have "\<dots> \<le> int w * m"
  proof (intro mult_right_mono)
    show "int (card (insert i J)) \<le> int w" using len assms(5) fin by (simp add: J_def)
    have "plen (ps ! i) \<le> m" using assms(4,7) by simp
    then show "0 \<le> m" by (simp add: plen_def)
  qed
  finally show ?thesis using B len assms(5) fin by (simp add: J_def)
qed

lemma open_stream_store:
  assumes "open_stream ps R k st" "length ps < 2 ^ 32" "i < length ps" "i \<notin> R"
  shows "open_stream ps (insert i R) k (storeChunk (of_nat i) (ps ! i) st)"
proof -
  have u: "unat (of_nat i :: u32) = i" using assms by (intro unat_small)
  have "{0..<k} \<subseteq> R" using assms(1) by (simp add: open_stream_def)
  then have k: "k \<le> i" using assms(4) by (meson atLeastLessThan_iff le0 not_le subsetD)
  have "map_of (chunks st) (of_nat i) = None" using assms u by (simp add: open_stream_def)
  then have "st_ok (storeChunk (of_nat i) (ps ! i) st)"
    using assms(1) by (intro storeChunk_ok) (simp_all add: open_stream_def)
  moreover have "map_of (chunks (storeChunk (of_nat i) (ps ! i) st)) w =
      (if unat w \<in> insert i R \<and> k \<le> unat w then Some (ps ! unat w) else None)" for w
  proof (cases "unat w = i")
    case True
    then have "w = of_nat i" by (metis of_nat_of_unat)
    then show ?thesis using u k by (simp add: storeChunk_def update_conv')
  next
    case False
    then have "w \<noteq> of_nat i" using u by auto
    then show ?thesis using False assms(1) by (simp add: storeChunk_def update_conv' open_stream_def)
  qed
  ultimately show ?thesis
    using assms(1,3) by (auto simp: open_stream_def storeChunk_def)
qed


lemma open_stream_delivered:
  assumes st: "open_stream ps R k st" and n: "length ps < 2 ^ 32"
    and d: "deliverContiguous st tb = (d, st', tb')"
  obtains k' where "k \<le> k'" "k' \<notin> R" "open_stream ps R k' st'" "d = concat (take (k' - k) (drop k ps))"
    "tb' - st_bytes st' = tb - st_bytes st"
proof -
  let ?n = "length ps"
  from st have k: "nextExpected st = of_nat k" "k \<le> ?n" and ok: "st_ok st" and R: "R \<subseteq> {0..<?n}" "{0..<k} \<subseteq> R"
    and m: "\<And>w. map_of (chunks st) w = (if unat w \<in> R \<and> k \<le> unat w then Some (ps ! unat w) else None)"
    by (simp_all add: open_stream_def)
  have u: "unat (of_nat i :: u32) = i" if "i \<le> ?n" for i
    using that n by (intro unat_of_nat_small(2)) simp
  from deliverContiguous_run [OF d] k(1) obtain j where
    r: "run (map_of (chunks st)) (of_nat k) j d (map_of (chunks st'))" and
    nx: "nextExpected st' = of_nat (k + j)" by auto
  have some: "map_of (chunks st) (of_nat (k + i)) \<noteq> None" if "i < j" for i
    using r that by (simp add: run_def)
  have le: "k + j \<le> ?n"
  proof (rule ccontr)
    assume "\<not> k + j \<le> ?n"
    with k(2) have "?n - k < j" "k + (?n - k) = ?n" by auto
    with some [of "?n - k"] have "?n \<in> R" using u [of ?n] by (auto simp: m split: if_splits)
    with R(1) show False by auto
  qed
  have val: "k + i \<in> R" "map_of (chunks st) (of_nat (k + i)) = Some (ps ! (k + i))" if "i < j" for i
    using some [OF that] u [of "k + i"] le that by (auto simp: m split: if_splits)
  have "{0..<k + j} \<subseteq> R"
  proof
    fix x assume x: "x \<in> {0..<k + j}"
    show "x \<in> R" by (cases "x < k") (use R(2) val(1) [of "x - k"] x in auto)
  qed
  moreover have "d = concat (map (\<lambda>i. ps ! (k + i)) [0..<j])"
    using r val(2) unfolding run_def by (auto intro!: arg_cong [of _ _ concat])
  moreover have "(\<exists>i<j. w = of_nat k + of_nat i) \<longleftrightarrow> k \<le> unat w \<and> unat w < k + j" for w :: u32
  proof
    assume "\<exists>i<j. w = of_nat k + of_nat i"
    then obtain i where "i < j" "w = of_nat (k + i)" by auto
    then show "k \<le> unat w \<and> unat w < k + j" using u [of "k + i"] le by simp
  next
    assume w: "k \<le> unat w \<and> unat w < k + j"
    then have "w = of_nat (k + (unat w - k))" by (simp add: of_nat_of_unat)
    then show "\<exists>i<j. w = of_nat k + of_nat i" using w by (intro exI [of _ "unat w - k"]) auto
  qed
  then have m': "map_of (chunks st') w = (if unat w \<in> R \<and> k + j \<le> unat w then Some (ps ! unat w) else None)" for w
    using r unfolding run_def by (auto simp: m)
  moreover have "map_of (chunks st') (of_nat (k + j)) = None" using r unfolding run_def of_nat_add by blast
  then have "k + j \<notin> R" using u [OF le] by (simp add: m' split: if_splits)
  moreover note deliverContiguous_ok [OF ok d]
  ultimately show thesis using that [of "k + j"] st le nx
    by (auto simp: open_stream_def same_stream_def take_drop_map)
qed

definition data_chunk :: "bytes list \<Rightarrow> nat \<Rightarrow> chunk \<Rightarrow> bool" where
  "data_chunk ps i ch \<longleftrightarrow> i < length ps \<and> Sequence ch = of_nat i \<and> Payload ch = ps ! i \<and> Total ch = 0 \<and> CType ch = ChunkData"

definition window_room :: "ChunkerConfig \<Rightarrow> int \<Rightarrow> nat \<Rightarrow> bytes list \<Rightarrow> bool" where
  \<comment> \<open>a window of \<open>w\<close> chunks of the stream fits beside the \<open>others\<close> bytes\<close>
  "window_room c others w ps \<longleftrightarrow>
     (MaxReassemblyChunks c > 0 \<longrightarrow> int w \<le> MaxReassemblyChunks c) \<and>
     (MaxReassemblyBytes c > 0 \<longrightarrow> (\<exists>m. (\<forall>p\<in>set ps. plen p \<le> m) \<and> others + int w * m \<le> MaxReassemblyBytes c))"

lemma open_stream_checkBounds:
  assumes "open_stream ps R k st" "length ps < 2 ^ 32" "R \<subseteq> {..<k + w}" "i < length ps" "i \<notin> R" "i < k + w"
    and "window_room c others w ps" "tb = others + st_bytes st"
  shows "checkBounds c tb st (ps ! i) = None"
proof -
  define mx where "mx = Max (plen ` set ps)"
  have "\<forall>p\<in>set ps. plen p \<le> mx" by (simp add: mx_def)
  from open_stream_fits [OF assms(1-6) this] have "length (chunks st) < w" by blast
  moreover have "tb + plen (ps ! i) \<le> MaxReassemblyBytes c" if pos: "MaxReassemblyBytes c > 0"
  proof -
    from assms(7) pos obtain m where "\<forall>p\<in>set ps. plen p \<le> m" "others + int w * m \<le> MaxReassemblyBytes c"
      by (auto simp: window_room_def)
    with open_stream_fits [OF assms(1-6), of m] assms(8) show ?thesis by simp
  qed
  ultimately show ?thesis using assms(7) by (auto simp: checkBounds_None window_room_def plen_def)
qed

lemma open_stream_step:
  assumes S: "open_stream ps R k st" and n: "length ps < 2 ^ 32" and ch: "data_chunk ps i ch" and i: "i \<notin> R"
    and win: "R \<subseteq> {..<k + w}" "i < k + w" and room: "window_room c others w ps" "tb = others + st_bytes st"
  obtains k' st' where
    "processChunk c tb st ch = (Inr (concat (take (k' - k) (drop k ps)), False), st', others + st_bytes st')"
    "k \<le> k'" "k' \<notin> insert i R" "open_stream ps (insert i R) k' st'"
proof -
  have lt: "i < length ps" using ch by (simp add: data_chunk_def)
  let ?st = "storeChunk (of_nat i) (ps ! i) st"
  note S' = open_stream_store [OF S n lt i]
  obtain d st' tb' where dl: "deliverContiguous ?st (tb + int (length (ps ! i))) = (d, st', tb')"
    by (metis prod_cases3)
  obtain k' where k': "k \<le> k'" "k' \<notin> insert i R" "open_stream ps (insert i R) k' st'"
    "d = concat (take (k' - k) (drop k ps))" "tb' - st_bytes st' = tb + int (length (ps ! i)) - st_bytes ?st"
    using open_stream_delivered [OF S' n dl] by metis
  have "map_of (chunks st) (of_nat i) = None"
    using S i unat_small [OF lt n] by (simp add: open_stream_def)
  then have "processChunk c tb st ch = (Inr (d, False), st', tb')"
    using S S' k'(3) ch dl open_stream_checkBounds [OF S n win(1) lt i win(2) room] unfolding open_stream_def data_chunk_def
    by (simp add: processChunk_def processData_def chunk_types Let_def)
  moreover have "tb' = others + st_bytes st'" using k'(5) room(2) by (simp add: storeChunk_def)
  ultimately show thesis using that [of k' st'] k' by simp
qed

text \<open>An end marker delivers what is buffered, in order, whatever is missing in between.\<close>

definition rest_of :: "bytes list \<Rightarrow> nat set \<Rightarrow> nat \<Rightarrow> bytes" where
  "rest_of ps R k = concat (map ((!) ps) (filter (\<lambda>j. j \<in> R) [k..<length ps]))"

lemma sorted_of_nat: "sorted xs \<Longrightarrow> \<forall>x\<in>set xs. x < 2 ^ 32 \<Longrightarrow> sorted (map (of_nat :: nat \<Rightarrow> u32) xs)"
  by (induction xs) (auto simp: of_nat_u32_iff(3))

lemma open_stream_flush:
  assumes S: "open_stream ps R k st" and n: "length ps < 2 ^ 32"
  shows "concat (map (\<lambda>w. the (map_of (chunks st) w)) (sort (map fst (chunks st)))) = rest_of ps R k"
proof -
  let ?js = "filter (\<lambda>j. j \<in> R) [k..<length ps]"
  have m: "map_of (chunks st) w = (if unat w \<in> R \<and> k \<le> unat w then Some (ps ! unat w) else None)" for w
    using S by (simp add: open_stream_def)
  have R: "R \<subseteq> {0..<length ps}" and ok: "distinct (map fst (chunks st))"
    using S by (simp_all add: open_stream_def st_ok_def)
  have u: "unat (of_nat j :: u32) = j" if "j \<in> set ?js" for j
    using that n by (intro unat_small [where ps = ps]) auto
  have keys: "set (map fst (chunks st)) = (of_nat :: nat \<Rightarrow> u32) ` set ?js"
  proof -
    have "w \<in> dom (map_of (chunks st)) \<longleftrightarrow> unat w \<in> set ?js" for w
      using R by (auto simp: m split: if_splits)
    moreover have "unat w \<in> set ?js \<longleftrightarrow> w \<in> (of_nat :: nat \<Rightarrow> u32) ` set ?js" for w :: u32
      using u of_nat_of_unat [of w] by (metis (no_types, lifting) image_iff)
    ultimately show ?thesis by (auto simp: dom_map_of_conv_image_fst)
  qed
  have inj: "inj_on (of_nat :: nat \<Rightarrow> u32) (set ?js)"
    using n by (intro inj_on_subset [OF inj_of_nat_u32 [of "length ps"]]) auto
  have "sort (map fst (chunks st)) = map of_nat ?js"
  proof (rule sorted_distinct_set_unique)
    show "sorted (map (of_nat :: nat \<Rightarrow> u32) ?js)" using n by (intro sorted_of_nat) (auto intro: sorted_wrt_filter)
    show "distinct (map (of_nat :: nat \<Rightarrow> u32) ?js)" using inj by (simp add: distinct_map)
  qed (use ok keys in simp_all)
  moreover have "the (map_of (chunks st) (of_nat j)) = ps ! j" if "j \<in> set ?js" for j
    using that u [OF that] by (simp add: m)
  ultimately show ?thesis by (auto simp: rest_of_def comp_def intro!: arg_cong [of _ _ concat])
qed

section \<open>The reassembler\<close>

definition streaming :: "u32 \<Rightarrow> bytes list \<Rightarrow> int \<Rightarrow> nat \<Rightarrow> nat set \<Rightarrow> nat \<Rightarrow> ExitReassembler \<Rightarrow> bool" where
  \<comment> \<open>stream \<open>i\<close> is open: the chunks \<open>R\<close> have arrived, the first \<open>k\<close> are delivered and \<open>k\<close> is missing;
      nothing beyond a window of \<open>w\<close> has arrived; the other streams hold \<open>others\<close> bytes\<close>
  "streaming i ps others w R k r \<longleftrightarrow>
     i \<notin> completedStreams r \<and> window_room (ra_cfg r) others w ps \<and> k \<notin> R \<and> R \<subseteq> {..<k + w} \<and>
     (case map_of (streams r) i of
        None \<Rightarrow> R = {} \<and> k = 0 \<and> totalBytes r = others
      | Some st \<Rightarrow> open_stream ps R k st \<and> totalBytes r = others + st_bytes st)"

lemma open_stream_new: "open_stream ps {} 0 (newStreamState now)"
  by (simp add: open_stream_def newStreamState_def st_ok_def)

lemma streaming_get:
  assumes "streaming i ps others w R k r" "getOrCreateStream now i r = (st, r')"
  shows "open_stream ps R k st \<and> totalBytes r' = others + st_bytes st \<and> ra_cfg r' = ra_cfg r \<and>
    completedStreams r' = completedStreams r"
proof (cases "map_of (streams r) i")
  case (Some st)
  then show ?thesis using assms by (auto simp: streaming_def getOrCreateStream_def)
next
  case None
  moreover have "st_bytes (newStreamState now) = 0" by (simp add: newStreamState_def)
  ultimately show ?thesis using assms open_stream_new
    by (auto simp: streaming_def getOrCreateStream_def Let_def)
qed

lemma AddStreaming_data:
  assumes P: "streaming i ps others w R k r" and n: "length ps < 2 ^ 32"
    and ch: "data_chunk ps j ch" "StreamID ch = i" and j: "j \<notin> R" "j < k + w"
  obtains k' r' where
    "AddStreaming now ch r = (Inr (concat (take (k' - k) (drop k ps)), False), r')"
    "k \<le> k'" "streaming i ps others w (insert j R) k' r'" "NextExpected i r' = Some (of_nat k')"
proof -
  obtain st r1 where g: "getOrCreateStream now i r = (st, r1)" by fastforce
  note G = streaming_get [OF P g]
  have room: "window_room (ra_cfg r1) others w ps" and fresh: "i \<notin> completedStreams r" and win: "R \<subseteq> {..<k + w}"
    using P G by (simp_all add: streaming_def)
  obtain k' st' where s: "processChunk (ra_cfg r1) (totalBytes r1) st ch
      = (Inr (concat (take (k' - k) (drop k ps)), False), st', others + st_bytes st')"
    and k': "k \<le> k'" "k' \<notin> insert j R" "open_stream ps (insert j R) k' st'"
    using G open_stream_step [OF _ n ch(1) j(1) win j(2) room] by metis
  let ?r = "writeBack i st' (others + st_bytes st') r1"
  have "\<not> completed st" using G by (simp add: open_stream_def)
  then have "AddStreaming now ch r = (Inr (concat (take (k' - k) (drop k ps)), False), ?r)"
    using fresh g s ch(2) by (simp add: AddStreaming_def)
  moreover have "streaming i ps others w (insert j R) k' ?r"
    using k' G room fresh win j(2) by (auto simp: streaming_def writeBack_def update_conv')
  moreover have "NextExpected i ?r = Some (of_nat k')"
    using k'(3) by (simp add: NextExpected_def writeBack_def update_conv' open_stream_def)
  ultimately show thesis using that [of k' ?r] k'(1) by simp
qed

lemma AddStreaming_end:
  assumes P: "streaming i ps others w R k r" and n: "length ps < 2 ^ 32"
    and ch: "CType ch = ChunkStreamEnd" "Payload ch = []" "StreamID ch = i"
  obtains r' where "AddStreaming now ch r = (Inr (rest_of ps R k, True), r')"
    "i \<in> completedStreams r'" "NextExpected i r' = None"
proof -
  obtain st r1 where g: "getOrCreateStream now i r = (st, r1)" by fastforce
  note G = streaming_get [OF P g]
  obtain x st' tb' where f: "flushRemaining (st\<lparr>completed := True\<rparr>) (totalBytes r1) = (x, st', tb')"
    by (metis prod_cases3)
  have x: "x = rest_of ps R k"
    using f open_stream_flush [of ps R k st] G n by (auto simp: flushRemaining_def Let_def split: if_splits)
  have "\<not> completed st" "i \<notin> completedStreams r" using P G by (simp_all add: open_stream_def streaming_def)
  then have "AddStreaming now ch r = (Inr (x, True), finishStream i (writeBack i st' tb' r1))"
    using g f ch by (simp add: AddStreaming_def processChunk_def processStreamEnd_def chunk_types)
  moreover have "NextExpected i (finishStream i (writeBack i st' tb' r1)) = None"
    by (simp add: NextExpected_def finishStream_def cleanupStream_def writeBack_def update_conv' delete_conv' Let_def)
  ultimately show thesis using that x by simp
qed

lemma AddStreaming_late: "StreamID ch \<in> completedStreams r \<Longrightarrow> AddStreaming now ch r = (Inr ([], False), r)"
  by (simp add: AddStreaming_def)

end
