(* ===== verification/Exit_Delivery.thy ===== *)
theory Exit_Delivery
  imports Exit_Node Streaming
begin

text \<open>
  What a sequence of chunks does to a circuit of the exit node: which bytes reach the target, and
  which chunks are refused or lost.
\<close>

section \<open>One chunk\<close>

definition core :: "exitCircuit \<Rightarrow> bytes \<times> bytes \<times> bytes \<times> bool \<times> ExitReassembler \<times> CircuitState \<times> u32" where
  "core c = (circuitIDBytes c, e2eKey c, tc_written c, tc_closed c, xc_reasm c, xc_state c, ackBase c)"

lemma core_noteArrival [simp]: "core (noteArrival now p i c) = core c"
  by (simp add: core_def noteArrival_def)

lemma core_detectGaps [simp]: "core (detectGaps now n c) = core c"
proof -
  have mark: "core (markGap now s c) = core c" for s c by (simp add: core_def markGap_def Let_def)
  have "core (fold (markGap now) ss c) = core c" for ss c by (induction ss arbitrary: c) (simp_all add: mark)
  then show ?thesis by (simp add: detectGaps_def)
qed

lemma core_maybeGenerateNACK [simp]: "core (snd (maybeGenerateNACK now cf i c)) = core c"
  by (simp add: core_def maybeGenerateNACK_def Let_def split: option.split)

lemma maybeGenerateNACK_result:
  "(\<exists>m. fst (maybeGenerateNACK now cf i c) = ok m) \<or> fst (maybeGenerateNACK now cf i c) = err ErrNACKRetriesExhausted"
  by (auto simp: maybeGenerateNACK_def Let_def split: option.split)

definition newBase :: "chunk \<Rightarrow> bool \<Rightarrow> ExitReassembler \<Rightarrow> u32 \<Rightarrow> u32" where
  "newBase ch finished ra base =
     (case NextExpected (StreamID ch) ra of
        Some nx \<Rightarrow> (if nx > base then nx else base)
      | None \<Rightarrow> (if finished then Sequence ch + 1 else base))"

lemma core_advance:
  "core (advance ch finished c) = core (c\<lparr>ackBase := newBase ch finished (xc_reasm c) (ackBase c)\<rparr>)"
  by (simp add: core_def advance_def newBase_def Let_def split: option.split)

lemma acceptChunk_core:
  assumes "AddStreaming now ch (xc_reasm c) = (Inr (d, finished), ra)"
  shows "core (snd (acceptChunk now None cf ch c)) =
      core (c\<lparr>xc_reasm := ra, tc_written := tc_written c @ d, ackBase := newBase ch finished ra (ackBase c)\<rparr>)"
    and "(\<exists>m. fst (acceptChunk now None cf ch c) = ok m) \<or>
      fst (acceptChunk now None cf ch c) = err ErrNACKRetriesExhausted"
proof -
  let ?c = "detectGaps now (Sequence ch) c"
  have "xc_reasm ?c = xc_reasm c"
    using core_detectGaps [of now "Sequence ch" c] by (simp add: core_def)
  then have "acceptChunk now None cf ch c = maybeGenerateNACK now cf (StreamID ch)
      (advance ch finished (?c\<lparr>xc_reasm := ra, tc_written := tc_written ?c @ d\<rparr>))"
    using assms by (simp add: acceptChunk_def Let_def)
  then show "core (snd (acceptChunk now None cf ch c)) =
      core (c\<lparr>xc_reasm := ra, tc_written := tc_written c @ d, ackBase := newBase ch finished ra (ackBase c)\<rparr>)"
    and "(\<exists>m. fst (acceptChunk now None cf ch c) = ok m) \<or>
      fst (acceptChunk now None cf ch c) = err ErrNACKRetriesExhausted"
    using core_detectGaps [of now "Sequence ch" c] maybeGenerateNACK_result
    by (simp_all add: core_advance del: core_detectGaps) (simp add: core_def)
qed

definition serves :: "string \<Rightarrow> nat \<Rightarrow> ExitNode \<Rightarrow> bool" where
  "serves cid p e \<longleftrightarrow> \<not> x_closed e \<and> map_of (x_circuits e) cid = Some p \<and> p < length (x_objs e)"

lemma exit_secReport_simps [simp]:
  "x_closed (exit_secReport t cid a e) = x_closed e" "x_circuits (exit_secReport t cid a e) = x_circuits e"
  "x_objs (exit_secReport t cid a e) = x_objs e" "x_cfg (exit_secReport t cid a e) = x_cfg e"
  by (simp_all add: exit_secReport_def)

lemma x_upd_simps [simp]:
  "x_closed (x_upd p f e) = x_closed e" "x_circuits (x_upd p f e) = x_circuits e" "x_cfg (x_upd p f e) = x_cfg e"
  "x_objs (x_upd p f e) = (x_objs e)[p := f (x_objs e ! p)]"
  by (simp_all add: x_upd_def)

lemma HandleWireChunk_accept:
  assumes "serves cid p e" "DecodeChunk aopen wc (e2eKey (x_objs e ! p)) (circuitIDBytes (x_objs e ! p)) = ok ch"
    and "xc_state (x_objs e ! p) = CircuitActive"
    and "Sequence ch < ackBase (x_objs e ! p) + of_int (maxWindowOf (x_cfg e))"
  shows "x_objs (snd (HandleWireChunk aopen now wr cid wc path e)) =
      (x_objs e)[p := snd (acceptChunk now wr (x_cfg e) ch (noteArrival now path (StreamID ch) (x_objs e ! p)))]"
    and "fst (HandleWireChunk aopen now wr cid wc path e) =
      fst (acceptChunk now wr (x_cfg e) ch (noteArrival now path (StreamID ch) (x_objs e ! p)))"
    and "serves cid p (snd (HandleWireChunk aopen now wr cid wc path e))"
    and "x_cfg (snd (HandleWireChunk aopen now wr cid wc path e)) = x_cfg e"
proof -
  have a: "ackBase (noteArrival now path i c) = ackBase c" for i c by (simp add: noteArrival_def)
  obtain r c where "acceptChunk now wr (x_cfg e) ch (noteArrival now path (StreamID ch) (x_objs e ! p)) = (r, c)" by fastforce
  moreover from this have "HandleWireChunk aopen now wr cid wc path e =
      (r, if r = err ErrNACKRetriesExhausted
          then exit_secReport SecEventExitNACKRetriesExhausted cid [] (x_upd p (\<lambda>_. c) e) else x_upd p (\<lambda>_. c) e)"
    using assms(1-3) assms(4) [unfolded not_le [symmetric]] by (simp add: HandleWireChunk_def serves_def Let_def a)
  ultimately show "x_objs (snd (HandleWireChunk aopen now wr cid wc path e)) =
      (x_objs e)[p := snd (acceptChunk now wr (x_cfg e) ch (noteArrival now path (StreamID ch) (x_objs e ! p)))]"
    and "fst (HandleWireChunk aopen now wr cid wc path e) =
      fst (acceptChunk now wr (x_cfg e) ch (noteArrival now path (StreamID ch) (x_objs e ! p)))"
    and "serves cid p (snd (HandleWireChunk aopen now wr cid wc path e))"
    and "x_cfg (snd (HandleWireChunk aopen now wr cid wc path e)) = x_cfg e"
    using assms(1) by (simp_all add: serves_def)
qed

section \<open>The window\<close>

definition firstMissing :: "nat list \<Rightarrow> nat" where
  "firstMissing seen = length (takeWhile (\<lambda>k. k \<in> set seen) [0..<length seen])"

primrec inWindow :: "int \<Rightarrow> nat list \<Rightarrow> nat list \<Rightarrow> bool" where
  \<comment> \<open>chunks \<open>seen\<close> have arrived (last one first); none of the next ones is \<open>w\<close> or more ahead of the first missing one\<close>
  "inWindow w seen [] = True"
| "inWindow w seen (j # js) \<longleftrightarrow> int j < int (firstMissing seen) + w \<and> inWindow w (j # seen) js"

lemma firstMissing_eq:
  assumes "{0..<k} \<subseteq> set seen" "k \<notin> set seen"
  shows "firstMissing seen = k"
proof -
  have "k \<le> length seen"
    using card_mono [OF finite_set assms(1)] card_length [of seen] by simp
  then have "[0..<length seen] = [0..<k] @ [k..<length seen]"
    using upt_add_eq_append [of 0 k "length seen - k"] by simp
  moreover have "takeWhile (\<lambda>k. k \<in> set seen) [k..<length seen] = []"
    using assms(2) by (cases "k < length seen") (simp_all add: upt_conv_Cons)
  moreover have "takeWhile (\<lambda>k. k \<in> set seen) ([0..<k] @ [k..<length seen])
      = [0..<k] @ takeWhile (\<lambda>k. k \<in> set seen) [k..<length seen]"
    using assms(1) by (intro takeWhile_append2) auto
  ultimately show ?thesis by (simp add: firstMissing_def)
qed

lemma maxWindowOf_pos: "0 < maxWindowOf c"
  by (simp add: maxWindowOf_def)

lemma window_iff:
  assumes "0 < w" "int k + w < 2 ^ 32" "j < 2 ^ 32"
  shows "(of_nat j :: u32) < of_nat k + of_int w \<longleftrightarrow> int j < int k + w"
proof -
  have "(of_nat k :: u32) + of_int w = of_nat (k + nat w)" using assms(1) by simp
  moreover have "(of_nat j :: u32) < of_nat (k + nat w) \<longleftrightarrow> j < k + nat w"
    using assms by (intro of_nat_u32_iff(2)) auto
  ultimately show ?thesis using assms(1) by (simp add: nat_less_iff [symmetric]) linarith
qed

section \<open>A stream of chunks\<close>

definition delivering :: "nat \<Rightarrow> bytes list \<Rightarrow> nat set \<Rightarrow> nat \<Rightarrow> exitCircuit \<Rightarrow> bool" where
  \<comment> \<open>the chunks \<open>R\<close> of stream 0 have arrived; the target has the first \<open>k\<close>\<close>
  "delivering w ps R k c \<longleftrightarrow>
     xc_state c = CircuitActive \<and> ackBase c = of_nat k \<and> streaming 0 ps 0 w R k (xc_reasm c) \<and>
     tc_written c = concat (take k ps)"

definition fits :: "nat \<Rightarrow> bytes list \<Rightarrow> ExitNode \<Rightarrow> bool" where
  \<comment> \<open>\<open>w\<close> is the node's window, and no sequence number wraps\<close>
  "fits w ps e \<longleftrightarrow> int w = maxWindowOf (x_cfg e) \<and> length ps + w < 2 ^ 32"

lemma streaming_le: "streaming i ps others w R k r \<Longrightarrow> k \<le> length ps \<and> R \<subseteq> {0..<length ps} \<and> {0..<k} \<subseteq> R \<and> k \<notin> R"
  by (auto simp: streaming_def open_stream_def split: option.splits)

definition no_fault :: "(exit_node_error, 'a) res \<Rightarrow> bool" where
  \<comment> \<open>the chunk was taken; a retransmission may have been asked for too often\<close>
  "no_fault r \<longleftrightarrow> (\<exists>x. r = ok x) \<or> r = err ErrNACKRetriesExhausted"

lemma HandleWireChunk_data:
  fixes e path aopen wc cid now
  defines "e' \<equiv> snd (HandleWireChunk aopen now None cid wc path e)"
  assumes sv: "serves cid p e" and D: "delivering w ps R k (x_objs e ! p)" and fit: "fits w ps e"
    and dec: "DecodeChunk aopen wc (e2eKey (x_objs e ! p)) (circuitIDBytes (x_objs e ! p)) = ok ch"
    and ch: "data_chunk ps j ch" "StreamID ch = 0" and j: "j \<notin> R" "int j < int k + maxWindowOf (x_cfg e)"
  obtains k' where "delivering w ps (insert j R) k' (x_objs e' ! p)" "serves cid p e'" "x_cfg e' = x_cfg e"
    "e2eKey (x_objs e' ! p) = e2eKey (x_objs e ! p)" "circuitIDBytes (x_objs e' ! p) = circuitIDBytes (x_objs e ! p)"
    "no_fault (fst (HandleWireChunk aopen now None cid wc path e))"
proof -
  let ?c = "x_objs e ! p" and ?a = "noteArrival now path (StreamID ch) (x_objs e ! p)"
  have a: "core ?a = core ?c" by simp
  have n: "length ps < 2 ^ 32" "int k + maxWindowOf (x_cfg e) < 2 ^ 32"
    using fit D maxWindowOf_pos [of "x_cfg e"] streaming_le [of 0 ps 0 w R k "xc_reasm ?c"]
    by (auto simp: fits_def delivering_def)
  have "Sequence ch < ackBase ?c + of_int (maxWindowOf (x_cfg e))"
    using window_iff [OF maxWindowOf_pos n(2), of j] ch(1) j(2) D n(1) by (simp add: data_chunk_def delivering_def)
  note H = HandleWireChunk_accept [OF sv dec _ this, of now None path]
  have jw: "j < k + w" using j(2) fit by (simp add: fits_def)
  obtain k' ra where s: "AddStreaming now ch (xc_reasm ?a) = (Inr (concat (take (k' - k) (drop k ps)), False), ra)"
    and k': "k \<le> k'" "streaming 0 ps 0 w (insert j R) k' ra" "NextExpected 0 ra = Some (of_nat k')"
    using AddStreaming_data [OF _ n(1) ch j(1) jw, where now = now and r = "xc_reasm ?a"] D a
    by (simp add: delivering_def core_def) blast
  note A = acceptChunk_core [where cf = "x_cfg e", OF s]
  have "newBase ch False ra (of_nat k) = of_nat k'"
    using k'(1,3) ch(2) n(1) streaming_le [OF k'(2)] of_nat_u32_iff(2) [of k k'] by (auto simp: newBase_def)
  moreover have "concat (take k ps) @ concat (take (k' - k) (drop k ps)) = concat (take k' ps)"
    using k'(1) take_add [of k "k' - k" ps] by simp
  ultimately have "delivering w ps (insert j R) k' (x_objs e' ! p) \<and> e2eKey (x_objs e' ! p) = e2eKey ?c \<and>
      circuitIDBytes (x_objs e' ! p) = circuitIDBytes ?c"
    using A(1) a D k'(2) H(1) sv unfolding e'_def by (simp add: delivering_def core_def serves_def)
  moreover have "xc_state ?c = CircuitActive" using D by (simp add: delivering_def)
  note H = H(2-4) [OF this]
  moreover have "no_fault (fst (HandleWireChunk aopen now None cid wc path e))"
    using H(1) A(2) by (simp add: no_fault_def)
  ultimately show thesis using that [of k'] unfolding e'_def by blast
qed

type_synonym arrival = "int \<times> int \<times> WireChunk"

primrec arrive :: "(bytes \<Rightarrow> bytes \<Rightarrow> bytes \<Rightarrow> bytes \<Rightarrow> bytes option) \<Rightarrow> string \<Rightarrow> arrival list \<Rightarrow> ExitNode \<Rightarrow>
    (exit_node_error, NACKMsg option) res list \<times> ExitNode" where
  \<comment> \<open>chunks arriving one after the other, each with its time and path; the target accepts what is written\<close>
  "arrive aopen cid [] e = ([], e)"
| "arrive aopen cid (a # as) e =
     (case a of (now, path, wc) \<Rightarrow>
        let (r, e) = HandleWireChunk aopen now None cid wc path e; (rs, e) = arrive aopen cid as e in (r # rs, e))"

lemma arrive_append:
  "arrive aopen cid (as @ bs) e =
     (let (rs, e) = arrive aopen cid as e; (rs', e) = arrive aopen cid bs e in (rs @ rs', e))"
  by (induction as arbitrary: e) (simp_all add: split_beta Let_def)

definition carries :: "(bytes \<Rightarrow> bytes \<Rightarrow> bytes \<Rightarrow> bytes \<Rightarrow> bytes option) \<Rightarrow> bytes \<Rightarrow> bytes \<Rightarrow> bytes list \<Rightarrow> nat \<Rightarrow> WireChunk \<Rightarrow> bool" where
  \<comment> \<open>for the exit, the wire chunk holds chunk \<open>j\<close> of stream 0\<close>
  "carries aopen key cidb ps j wc \<longleftrightarrow> (\<exists>ch. DecodeChunk aopen wc key cidb = ok ch \<and> data_chunk ps j ch \<and> StreamID ch = 0)"

lemma arrive_data:
  assumes "serves cid p e" "delivering w ps (set seen) k (x_objs e ! p)" "fits w ps e"
    and "distinct js" "set js \<inter> set seen = {}" "inWindow (maxWindowOf (x_cfg e)) seen js"
    and "\<forall>j\<in>set js. carries aopen (e2eKey (x_objs e ! p)) (circuitIDBytes (x_objs e ! p)) ps j (wc j)"
    and "arrive aopen cid (map (\<lambda>j. (now j, path j, wc j)) js) e = (rs, e')"
  shows "\<exists>k'. delivering w ps (set seen \<union> set js) k' (x_objs e' ! p) \<and> serves cid p e' \<and> x_cfg e' = x_cfg e \<and>
    e2eKey (x_objs e' ! p) = e2eKey (x_objs e ! p) \<and> circuitIDBytes (x_objs e' ! p) = circuitIDBytes (x_objs e ! p) \<and>
    list_all no_fault rs"
  using assms
proof (induction js arbitrary: e seen k rs)
  case Nil
  then show ?case by auto
next
  case (Cons j js)
  obtain r e1 where h: "HandleWireChunk aopen (now j) None cid (wc j) (path j) e = (r, e1)" by fastforce
  obtain rs1 where rs: "arrive aopen cid (map (\<lambda>j. (now j, path j, wc j)) js) e1 = (rs1, e')" "rs = r # rs1"
    using Cons.prems(8) h by (auto split: prod.splits)
  obtain ch where ch: "DecodeChunk aopen (wc j) (e2eKey (x_objs e ! p)) (circuitIDBytes (x_objs e ! p)) = ok ch"
    "data_chunk ps j ch" "StreamID ch = 0"
    using Cons.prems(7) by (auto simp: carries_def)
  have "streaming 0 ps 0 w (set seen) k (xc_reasm (x_objs e ! p))" using Cons.prems(2) by (simp add: delivering_def)
  from streaming_le [OF this] have "firstMissing seen = k" by (intro firstMissing_eq) auto
  then have j: "j \<notin> set seen" "int j < int k + maxWindowOf (x_cfg e)" using Cons.prems(5,6) by auto
  obtain k1 where H: "delivering w ps (insert j (set seen)) k1 (x_objs e1 ! p)" "serves cid p e1" "x_cfg e1 = x_cfg e"
    "e2eKey (x_objs e1 ! p) = e2eKey (x_objs e ! p)" "circuitIDBytes (x_objs e1 ! p) = circuitIDBytes (x_objs e ! p)"
    "no_fault r"
    using HandleWireChunk_data [OF Cons.prems(1-3) ch j, of "now j" "path j"] h by auto
  have "\<exists>k'. delivering w ps (set (j # seen) \<union> set js) k' (x_objs e' ! p) \<and> serves cid p e' \<and> x_cfg e' = x_cfg e1 \<and>
    e2eKey (x_objs e' ! p) = e2eKey (x_objs e1 ! p) \<and> circuitIDBytes (x_objs e' ! p) = circuitIDBytes (x_objs e1 ! p) \<and>
    list_all no_fault rs1"
    by (rule Cons.IH [OF H(2) _ _ _ _ _ _ rs(1)])
      (use H Cons.prems in \<open>auto simp: fits_def\<close>)
  then show ?case using H rs(2) by (auto simp: insert_commute)
qed

section \<open>The end of the stream\<close>

definition ended :: "exitCircuit \<Rightarrow> bool" where
  "ended c \<longleftrightarrow> xc_state c = CircuitActive \<and> 0 \<in> completedStreams (xc_reasm c)"

lemma HandleWireChunk_end:
  fixes e path aopen wc cid now
  defines "e' \<equiv> snd (HandleWireChunk aopen now None cid wc path e)"
  assumes sv: "serves cid p e" and D: "delivering w ps R k (x_objs e ! p)" and fit: "fits w ps e"
    and dec: "DecodeChunk aopen wc (e2eKey (x_objs e ! p)) (circuitIDBytes (x_objs e ! p)) = ok ch"
    and ch: "CType ch = ChunkStreamEnd" "Payload ch = []" "StreamID ch = 0" "Sequence ch = of_nat s"
    and s: "s < 2 ^ 32" "int s < int k + maxWindowOf (x_cfg e)"
  shows "ended (x_objs e' ! p)" "serves cid p e'" "x_cfg e' = x_cfg e"
    "tc_written (x_objs e' ! p) = concat (take k ps) @ rest_of ps R k"
    "e2eKey (x_objs e' ! p) = e2eKey (x_objs e ! p)" "circuitIDBytes (x_objs e' ! p) = circuitIDBytes (x_objs e ! p)"
proof -
  let ?c = "x_objs e ! p" and ?a = "noteArrival now path (StreamID ch) (x_objs e ! p)"
  have a: "core ?a = core ?c" by simp
  have act: "xc_state ?c = CircuitActive" using D by (simp add: delivering_def)
  have n: "length ps < 2 ^ 32" "int k + maxWindowOf (x_cfg e) < 2 ^ 32"
    using fit D maxWindowOf_pos [of "x_cfg e"] streaming_le [of 0 ps 0 w R k "xc_reasm ?c"]
    by (auto simp: fits_def delivering_def)
  have "Sequence ch < ackBase ?c + of_int (maxWindowOf (x_cfg e))"
    using window_iff [OF maxWindowOf_pos n(2) s(1)] ch(4) s(2) D by (simp add: delivering_def)
  note H = HandleWireChunk_accept [OF sv dec act this, of now None path]
  obtain ra where s: "AddStreaming now ch (xc_reasm ?a) = (Inr (rest_of ps R k, True), ra)" "0 \<in> completedStreams ra"
    using AddStreaming_end [OF _ n(1) ch(1-3), where now = now and r = "xc_reasm ?a"] D a
    by (simp add: delivering_def core_def) blast
  note A = acceptChunk_core(1) [where cf = "x_cfg e", OF s(1)]
  show "serves cid p e'" "x_cfg e' = x_cfg e" using H(3,4) by (simp_all add: e'_def)
  show "ended (x_objs e' ! p)" "tc_written (x_objs e' ! p) = concat (take k ps) @ rest_of ps R k"
    "e2eKey (x_objs e' ! p) = e2eKey ?c" "circuitIDBytes (x_objs e' ! p) = circuitIDBytes ?c"
    using A a D s(2) H(1) sv unfolding e'_def
    by (simp_all add: delivering_def core_def serves_def ended_def)
qed

lemma HandleWireChunk_refused:
  assumes "serves cid p e"
    and "(\<exists>x. DecodeChunk aopen wc (e2eKey (x_objs e ! p)) (circuitIDBytes (x_objs e ! p)) = Inl x) \<or>
      xc_state (x_objs e ! p) \<noteq> CircuitActive \<or>
      (\<exists>ch. DecodeChunk aopen wc (e2eKey (x_objs e ! p)) (circuitIDBytes (x_objs e ! p)) = ok ch \<and>
        ackBase (x_objs e ! p) + of_int (maxWindowOf (x_cfg e)) \<le> Sequence ch)"
  shows "core (x_objs (snd (HandleWireChunk aopen now wr cid wc path e)) ! p) = core (x_objs e ! p)"
    and "serves cid p (snd (HandleWireChunk aopen now wr cid wc path e))"
    and "x_cfg (snd (HandleWireChunk aopen now wr cid wc path e)) = x_cfg e"
    and "\<exists>x. fst (HandleWireChunk aopen now wr cid wc path e) = Inl x"
proof -
  have a: "ackBase (noteArrival now path i c) = ackBase c" for i c by (simp add: noteArrival_def)
  show "core (x_objs (snd (HandleWireChunk aopen now wr cid wc path e)) ! p) = core (x_objs e ! p)"
    and "serves cid p (snd (HandleWireChunk aopen now wr cid wc path e))"
    and "x_cfg (snd (HandleWireChunk aopen now wr cid wc path e)) = x_cfg e"
    and "\<exists>x. fst (HandleWireChunk aopen now wr cid wc path e) = Inl x"
    using assms by (auto simp: HandleWireChunk_def serves_def Let_def a split: sum.split fail.split)
qed

lemma HandleWireChunk_ended:
  fixes e path aopen wc cid now
  defines "e' \<equiv> snd (HandleWireChunk aopen now None cid wc path e)"
  assumes sv: "serves cid p e" and E: "ended (x_objs e ! p)"
    and s0: "\<And>ch. DecodeChunk aopen wc (e2eKey (x_objs e ! p)) (circuitIDBytes (x_objs e ! p)) = ok ch \<Longrightarrow> StreamID ch = 0"
  shows "ended (x_objs e' ! p) \<and> serves cid p e' \<and> x_cfg e' = x_cfg e \<and>
    tc_written (x_objs e' ! p) = tc_written (x_objs e ! p) \<and>
    e2eKey (x_objs e' ! p) = e2eKey (x_objs e ! p) \<and> circuitIDBytes (x_objs e' ! p) = circuitIDBytes (x_objs e ! p)"
proof (cases "\<exists>ch. DecodeChunk aopen wc (e2eKey (x_objs e ! p)) (circuitIDBytes (x_objs e ! p)) = ok ch \<and>
    Sequence ch < ackBase (x_objs e ! p) + of_int (maxWindowOf (x_cfg e))")
  case True
  then obtain ch where ch: "DecodeChunk aopen wc (e2eKey (x_objs e ! p)) (circuitIDBytes (x_objs e ! p)) = ok ch"
    "Sequence ch < ackBase (x_objs e ! p) + of_int (maxWindowOf (x_cfg e))" by blast
  let ?c = "x_objs e ! p" and ?a = "noteArrival now path (StreamID ch) (x_objs e ! p)"
  have a: "core ?a = core ?c" by simp
  have act: "xc_state ?c = CircuitActive" and late: "StreamID ch \<in> completedStreams (xc_reasm ?a)"
    using E a s0 [OF ch(1)] by (simp_all add: ended_def core_def)
  note H = HandleWireChunk_accept [OF sv ch(1) act ch(2), of now None path]
  note A = acceptChunk_core(1) [where cf = "x_cfg e", OF AddStreaming_late [OF late]]
  show ?thesis using A a E H sv unfolding e'_def by (simp add: core_def serves_def ended_def)
next
  case False
  then have "(\<exists>x. DecodeChunk aopen wc (e2eKey (x_objs e ! p)) (circuitIDBytes (x_objs e ! p)) = Inl x) \<or>
      xc_state (x_objs e ! p) \<noteq> CircuitActive \<or>
      (\<exists>ch. DecodeChunk aopen wc (e2eKey (x_objs e ! p)) (circuitIDBytes (x_objs e ! p)) = ok ch \<and>
        ackBase (x_objs e ! p) + of_int (maxWindowOf (x_cfg e)) \<le> Sequence ch)"
    by (cases "DecodeChunk aopen wc (e2eKey (x_objs e ! p)) (circuitIDBytes (x_objs e ! p))") auto
  from HandleWireChunk_refused [OF sv this, of now None path] E show ?thesis
    unfolding e'_def by (simp add: core_def ended_def)
qed

lemma arrive_ended:
  assumes "serves cid p e" "ended (x_objs e ! p)"
    and "\<forall>(_, _, wc)\<in>set as. \<forall>ch. DecodeChunk aopen wc (e2eKey (x_objs e ! p)) (circuitIDBytes (x_objs e ! p)) = ok ch \<longrightarrow> StreamID ch = 0"
  shows "tc_written (x_objs (snd (arrive aopen cid as e)) ! p) = tc_written (x_objs e ! p)"
  using assms
proof (induction as arbitrary: e)
  case (Cons a as)
  obtain now path wc where a: "a = (now, path, wc)" by (metis prod_cases3)
  let ?e = "snd (HandleWireChunk aopen now None cid wc path e)"
  have "ended (x_objs ?e ! p) \<and> serves cid p ?e \<and> x_cfg ?e = x_cfg e \<and>
    tc_written (x_objs ?e ! p) = tc_written (x_objs e ! p) \<and>
    e2eKey (x_objs ?e ! p) = e2eKey (x_objs e ! p) \<and> circuitIDBytes (x_objs ?e ! p) = circuitIDBytes (x_objs e ! p)"
    using Cons.prems a by (intro HandleWireChunk_ended) auto
  moreover from this have "tc_written (x_objs (snd (arrive aopen cid as ?e)) ! p) = tc_written (x_objs ?e ! p)"
    using Cons.prems(3) by (intro Cons.IH) auto
  ultimately show ?case by (simp add: a split_beta Let_def)
qed simp

end
