(* ===== verification/Proxy_Pipeline.thy ===== *)
theory Proxy_Pipeline
  imports Relay_Node Entry_Node Exit_Delivery
begin

text \<open>
  The proxy path end to end: what the dispatcher of the entry node sends reaches the exit node's
  target, and the key exchange that sets a circuit up.
\<close>

section \<open>From the entry to the target\<close>

lemma delivering_new:
  "window_room (x_ChunkerCfg c) 0 w ps \<Longrightarrow> delivering w ps {} 0 (newExitCircuit t c su key)"
  by (simp add: delivering_def newExitCircuit_def streaming_def NewExitReassembler_def)

lemma sends_decodes:
  assumes "\<And>k n p a. aopen k n (seal k n p a) a = Some p" "sends aes seal c ch y" "length (Payload ch) < 2 ^ 32"
  shows "DecodeChunk aopen (snd y) (d_E2EKey c) (d_CircuitID c) = ok ch"
proof -
  from assms(2) obtain hop key rnd rnd' where
    "EncodeChunk aes seal rnd ch (d_E2EKey c) key hop (d_CircuitID c) = ok (snd y, rnd')"
    by (auto simp: sends_def)
  then show ?thesis by (rule DecodeChunk_EncodeChunk(2) [where seal = seal, rotated]) (rule assms)+
qed

definition marks :: "(bytes \<Rightarrow> bytes \<Rightarrow> bytes \<Rightarrow> bytes \<Rightarrow> bytes option) \<Rightarrow> bytes \<Rightarrow> bytes \<Rightarrow> nat \<Rightarrow> WireChunk \<Rightarrow> bool" where
  \<comment> \<open>for the exit, the wire chunk is the end marker of stream 0 after \<open>n\<close> chunks\<close>
  "marks aopen key cidb n wc \<longleftrightarrow> (\<exists>ch. DecodeChunk aopen wc key cidb = ok ch \<and> CType ch = ChunkStreamEnd \<and>
     Payload ch = [] \<and> StreamID ch = 0 \<and> Sequence ch = of_nat n)"

lemma run_pieces:
  assumes aead: "\<And>k n p a. aopen k n (seal k n p a) a = Some p"
    and disp: "NewDispatcher sha256 aes reg rnd c = ok d"
    and run: "disp_Run aes seal q sendOK draw ctx now rndRun reads d = (Some (ok ()), s)"
    and reads: "\<forall>r\<in>set reads. length (fst r) \<le> 32768"
  defines "ps \<equiv> readChunks q (d_chunker d) reads"
  shows "\<forall>p\<in>set ps. p \<noteq> [] \<and> length p \<le> 32768"
    and "\<forall>j<length ps. carries aopen (d_E2EKey c) (d_CircuitID c) ps j (snd (rsent s ! j))"
    and "\<forall>j. length ps \<le> j \<and> j < length (rsent s) \<longrightarrow> marks aopen (d_E2EKey c) (d_CircuitID c) (length ps) (snd (rsent s ! j))"
proof -
  have d: "d_cfg d = c" "d_streamID d = 0" "d_nextSeq d = 0" "chunker_ok (d_chunker d)"
    using NewDispatcher_ok [OF disp] by simp_all
  from runLoop_ok [OF run [unfolded disp_Run_def]] d obtain chs ys ends where
    sent: "rsent s = ys @ ends" "list_all2 (sends aes seal c) chs ys" and
    chs: "seq_from 0 0 chs" "ps = map Payload chs" "\<forall>ch\<in>set chs. Total ch = 0" and
    ends: "list_all (sends aes seal c (endMarker (d\<lparr>d_nextSeq := of_nat (length chs)\<rparr>))) ends"
    by (auto simp: ps_def)
  show small: "\<forall>p\<in>set ps. p \<noteq> [] \<and> length p \<le> 32768"
    using readChunks_correct [OF d(4), of q reads] reads unfolding ps_def by (meson order_trans)
  have len: "length ys = length chs" using sent(2) by (simp add: list_all2_lengthD)
  show "\<forall>j<length ps. carries aopen (d_E2EKey c) (d_CircuitID c) ps j (snd (rsent s ! j))"
  proof (intro allI impI)
    fix j assume "j < length ps"
    then have j: "j < length chs" by (simp add: chs(2))
    have "sends aes seal c (chs ! j) (rsent s ! j)" using sent j len by (auto simp: nth_append list_all2_nthD)
    moreover have "length (Payload (chs ! j)) \<le> 32768" using small j by (simp add: chs(2))
    ultimately have "DecodeChunk aopen (snd (rsent s ! j)) (d_E2EKey c) (d_CircuitID c) = ok (chs ! j)"
      by (intro sends_decodes [where seal = seal, rotated] aead) auto
    then show "carries aopen (d_E2EKey c) (d_CircuitID c) ps j (snd (rsent s ! j))"
      using seq_from_nth [OF chs(1) j] chs(2,3) j by (auto simp: carries_def data_chunk_def)
  qed
  show "\<forall>j. length ps \<le> j \<and> j < length (rsent s) \<longrightarrow> marks aopen (d_E2EKey c) (d_CircuitID c) (length ps) (snd (rsent s ! j))"
  proof (intro allI impI)
    fix j assume j: "length ps \<le> j \<and> j < length (rsent s)"
    let ?ch = "endMarker (d\<lparr>d_nextSeq := of_nat (length chs)\<rparr>)"
    have "sends aes seal c ?ch (rsent s ! j)" using sent(1) ends j len by (auto simp: chs(2) nth_append list_all_length)
    then have "DecodeChunk aopen (snd (rsent s ! j)) (d_E2EKey c) (d_CircuitID c) = ok ?ch"
      by (intro sends_decodes [where seal = seal, rotated] aead) (simp_all add: endMarker_def)
    then show "marks aopen (d_E2EKey c) (d_CircuitID c) (length ps) (snd (rsent s ! j))"
      using d(2) by (auto simp: marks_def endMarker_def chs(2))
  qed
qed

lemma rest_of_take: "{0..<k} \<subseteq> R \<Longrightarrow> k \<le> length ps \<Longrightarrow> concat (take k ps) @ rest_of ps R k = rest_of ps R 0"
proof -
  assume R: "{0..<k} \<subseteq> R" and k: "k \<le> length ps"
  then have "[0..<length ps] = [0..<k] @ [k..<length ps]"
    using upt_add_eq_append [of 0 k "length ps - k"] by simp
  moreover have "filter (\<lambda>j. j \<in> R) [0..<k] = [0..<k]" using R by (auto simp: filter_id_conv)
  moreover have "map ((!) ps) [0..<k] = take k ps" using k by (intro nth_equalityI) auto
  ultimately show ?thesis by (simp add: rest_of_def)
qed

lemma rest_of_all: "rest_of ps {0..<length ps} 0 = concat ps"
  by (simp add: rest_of_def map_nth)

text \<open>
  Chunks \<open>js\<close>, then an end marker, then anything of the stream: the target has the pieces \<open>js\<close>.
\<close>

lemma arrive_cut:
  assumes "serves cid p e" "delivering w ps {} 0 (x_objs e ! p)" "fits w ps e"
    and js: "distinct js" "inWindow (maxWindowOf (x_cfg e)) [] js" "int (length ps) < int (firstMissing (rev js)) + int w"
    and wc: "\<forall>j\<in>set js. carries aopen (e2eKey (x_objs e ! p)) (circuitIDBytes (x_objs e ! p)) ps j (wc j)"
    and m: "marks aopen (e2eKey (x_objs e ! p)) (circuitIDBytes (x_objs e ! p)) (length ps) wc'"
    and late: "\<forall>(_, _, wc)\<in>set as. \<exists>n. carries aopen (e2eKey (x_objs e ! p)) (circuitIDBytes (x_objs e ! p)) ps n wc \<or>
      marks aopen (e2eKey (x_objs e ! p)) (circuitIDBytes (x_objs e ! p)) n wc"
  shows "tc_written (x_objs (snd (arrive aopen cid (map (\<lambda>j. (now j, path j, wc j)) js @ (t, pt, wc') # as) e)) ! p) =
    rest_of ps (set js) 0"
proof -
  obtain rs e1 where a: "arrive aopen cid (map (\<lambda>j. (now j, path j, wc j)) js) e = (rs, e1)" by fastforce
  from arrive_data [where seen = "[]", OF assms(1) _ assms(3) js(1) _ js(2) wc a] assms(2) obtain k where
    D: "delivering w ps (set js) k (x_objs e1 ! p)" "serves cid p e1" "x_cfg e1 = x_cfg e"
      "e2eKey (x_objs e1 ! p) = e2eKey (x_objs e ! p)" "circuitIDBytes (x_objs e1 ! p) = circuitIDBytes (x_objs e ! p)"
    by auto
  have k: "k \<le> length ps" "{0..<k} \<subseteq> set js" "k \<notin> set js"
    using D(1) streaming_le [of 0 ps 0 w "set js" k "xc_reasm (x_objs e1 ! p)"] by (simp_all add: delivering_def)
  then have fm: "firstMissing (rev js) = k" by (intro firstMissing_eq) auto
  let ?e = "snd (HandleWireChunk aopen t None cid wc' pt e1)"
  from m obtain ch where ch: "DecodeChunk aopen wc' (e2eKey (x_objs e1 ! p)) (circuitIDBytes (x_objs e1 ! p)) = ok ch"
    "CType ch = ChunkStreamEnd" "Payload ch = []" "StreamID ch = 0" "Sequence ch = of_nat (length ps)"
    by (auto simp: marks_def D(4,5))
  have fit: "fits w ps e1" "length ps < 2 ^ 32" "int (length ps) < int k + maxWindowOf (x_cfg e1)"
    using assms(3) js(3) fm D(3) by (auto simp: fits_def)
  note E = HandleWireChunk_end [OF D(2,1) fit(1) ch fit(2,3), of t pt]
  have "tc_written (x_objs (snd (arrive aopen cid as ?e)) ! p) = tc_written (x_objs ?e ! p)"
    using late E D(4,5) by (intro arrive_ended) (fastforce simp: carries_def marks_def)+
  then show ?thesis using E(4) a rest_of_take [OF k(2,1)] by (simp add: arrive_append split_beta Let_def)
qed

lemma arrive_complete:
  assumes "serves cid p e" "delivering w ps {} 0 (x_objs e ! p)" "fits w ps e"
    and js: "distinct js" "set js = {0..<length ps}" "inWindow (maxWindowOf (x_cfg e)) [] js"
    and wc: "\<forall>j\<in>set js. carries aopen (e2eKey (x_objs e ! p)) (circuitIDBytes (x_objs e ! p)) ps j (wc j)"
    and m: "\<forall>j\<in>set js'. marks aopen (e2eKey (x_objs e ! p)) (circuitIDBytes (x_objs e ! p)) (length ps) (wc j)"
  shows "tc_written (x_objs (snd (arrive aopen cid (map (\<lambda>j. (now j, path j, wc j)) (js @ js')) e)) ! p) = concat ps"
proof (cases js')
  case Nil
  obtain rs e1 where a: "arrive aopen cid (map (\<lambda>j. (now j, path j, wc j)) js) e = (rs, e1)" by fastforce
  from arrive_data [where seen = "[]", OF assms(1) _ assms(3) js(1) _ js(3) wc a] assms(2) obtain k where
    D: "delivering w ps (set js) k (x_objs e1 ! p)" by auto
  then have "k = length ps"
    using js(2) streaming_le [of 0 ps 0 w "set js" k "xc_reasm (x_objs e1 ! p)"] by (auto simp: delivering_def)
  then show ?thesis using D a Nil by (simp add: delivering_def)
next
  case (Cons j rest)
  have "firstMissing (rev js) = length ps" using js(2) by (intro firstMissing_eq) auto
  then have w: "int (length ps) < int (firstMissing (rev js)) + int w"
    using assms(3) maxWindowOf_pos [of "x_cfg e"] by (simp add: fits_def)
  show ?thesis
    using arrive_cut [OF assms(1-3) js(1,3) w wc, of "wc j" "map (\<lambda>j. (now j, path j, wc j)) rest" now path "now j" "path j"]
      m Cons js(2) rest_of_all [of ps] by auto
qed

section \<open>Properties of the path\<close>

definition exit_side :: "string \<Rightarrow> nat \<Rightarrow> int \<Rightarrow> CircuitSetup \<Rightarrow> DispatcherConfig \<Rightarrow> nat \<Rightarrow> ExitNode \<Rightarrow> bool" where
  \<comment> \<open>the exit node serves the circuit set up by \<open>su\<close> with the dispatcher's key and identifier, nothing has
      arrived yet, and the limits of its reassembler leave room for a window of full read buffers\<close>
  "exit_side cid p t su c sent e \<longleftrightarrow>
     serves cid p e \<and> x_objs e ! p = newExitCircuit t (x_cfg e) su (d_E2EKey c) \<and> cs_CircuitID su = d_CircuitID c \<and>
     (let w = maxWindowOf (x_cfg e); rc = x_ChunkerCfg (x_cfg e)
      in int sent + w < 2 ^ 32 \<and> (MaxReassemblyChunks rc > 0 \<longrightarrow> w \<le> MaxReassemblyChunks rc) \<and>
         (MaxReassemblyBytes rc > 0 \<longrightarrow> w * 32768 \<le> MaxReassemblyBytes rc))"

lemma exit_side_start:
  assumes "exit_side cid p t su c sent e" "\<forall>p\<in>set ps. length p \<le> 32768" "length ps \<le> sent"
  defines "w \<equiv> nat (maxWindowOf (x_cfg e))"
  shows "serves cid p e" "delivering w ps {} 0 (x_objs e ! p)" "fits w ps e" "int w = maxWindowOf (x_cfg e)"
    "e2eKey (x_objs e ! p) = d_E2EKey c" "circuitIDBytes (x_objs e ! p) = d_CircuitID c"
proof -
  have "window_room (x_ChunkerCfg (x_cfg e)) 0 w ps"
    unfolding window_room_def
  proof (intro conjI impI exI [of _ 32768])
    show "\<forall>p\<in>set ps. plen p \<le> 32768" using assms(2) by (auto simp: plen_def)
  qed (use assms(1) maxWindowOf_pos [of "x_cfg e"] in \<open>auto simp: w_def exit_side_def Let_def\<close>)
  then show "delivering w ps {} 0 (x_objs e ! p)" using assms(1) by (simp add: delivering_new exit_side_def)
  show "int w = maxWindowOf (x_cfg e)" using maxWindowOf_pos [of "x_cfg e"] by (simp add: w_def)
  then show "fits w ps e" using assms(1,3) by (auto simp: fits_def exit_side_def Let_def)
  show "serves cid p e" "e2eKey (x_objs e ! p) = d_E2EKey c" "circuitIDBytes (x_objs e ! p) = d_CircuitID c"
    using assms(1) by (simp_all add: exit_side_def newExitCircuit_def)
qed

definition arrivals :: "(nat \<Rightarrow> int) \<Rightarrow> running \<Rightarrow> nat list \<Rightarrow> arrival list" where
  \<comment> \<open>the sent chunks with these positions, on the path they were sent on\<close>
  "arrivals clock s js = map (\<lambda>j. (clock j, fst (rsent s ! j), snd (rsent s ! j))) js"

lemma pipeline:
  fixes q d reads and e :: ExitNode and p :: nat
  defines "ps \<equiv> readChunks q (d_chunker d) reads" and "w \<equiv> nat (maxWindowOf (x_cfg e))"
    and "key \<equiv> e2eKey (x_objs e ! p)" and "cidb \<equiv> circuitIDBytes (x_objs e ! p)"
  assumes "\<And>k n p a. aopen k n (seal k n p a) a = Some p"
    and "NewDispatcher sha256 aes reg rnd c = ok d" "hops_ok c" "closes reads"
    and "\<forall>r\<in>set reads. length (fst r) \<le> 32768" "(length ps + 2) * perChunk \<le> length rndRun"
    and "exit_side cid p t su c (length ps + 2) e"
  obtains s where "disp_Run aes seal q (\<lambda>_ _ _. True) draw None now rndRun reads d = (Some (ok ()), s)"
    "length (rsent s) = length ps + 2" "concat ps = streamOf reads" "[] \<notin> set ps"
    "\<forall>j<length ps. carries aopen key cidb ps j (snd (rsent s ! j))"
    "\<forall>j. length ps \<le> j \<and> j < length ps + 2 \<longrightarrow> marks aopen key cidb (length ps) (snd (rsent s ! j))"
    "serves cid p e" "delivering w ps {} 0 (x_objs e ! p)" "fits w ps e"
proof -
  obtain s where s: "disp_Run aes seal q (\<lambda>_ _ _. True) draw None now rndRun reads d = (Some (ok ()), s)"
    "length (rsent s) = length ps + 2"
    using disp_Run_completes [OF assms(6-8)] assms(10) unfolding ps_def by metis
  note P = run_pieces [where aopen = aopen and seal = seal, OF assms(5,6) s(1) assms(9), folded ps_def]
  have "\<forall>p\<in>set ps. length p \<le> 32768" using P(1) by blast
  note X = exit_side_start [OF assms(11) this, folded w_def key_def cidb_def]
  have "concat ps = streamOf reads"
    using readChunks_correct NewDispatcher_ok [OF assms(6)] unfolding ps_def by blast
  with that [OF s] P X s(2) show thesis by auto
qed

definition exampleDispatcherConfig :: DispatcherConfig where
  "exampleDispatcherConfig =
     \<lparr>ChunkerStrategy = fixed16kName, ChunkerCfg = tinyConfig\<lparr>PaddingSeed := [1]\<rparr>, CircuitCfg = DefaultCircuitConfig,
      Path1 = Some \<lparr>Relays = [''a''], RelayKeys = [replicate 32 1]\<rparr>,
      Path2 = Some \<lparr>Relays = [''b''], RelayKeys = [replicate 32 2]\<rparr>,
      d_E2EKey = replicate 32 3, d_CircuitID = replicate 16 4, ExitAddr = ''x'', DebugFixedChunks = False, d_Assignment = None\<rparr>"

definition exampleDispatcher :: Dispatcher where
  "exampleDispatcher = \<lparr>d_cfg = exampleDispatcherConfig,
     d_chunker = Fixed (newFixedChunker (NewPaddingSource (\<lambda>_. []) (\<lambda>k b. b) [] (tinyConfig\<lparr>PaddingSeed := [1]\<rparr>))
       (tinyConfig\<lparr>PaddingSeed := [1]\<rparr>)),
     d_chunkerCfg = tinyConfig\<lparr>PaddingSeed := [1]\<rparr>, d_streamID = 0, d_nextSeq = 0, d_closed = False,
     d_pathStats = \<lparr>p1Chunks = 0, p2Chunks = 0, p1Bytes = 0, p2Bytes = 0\<rparr>, d_strategy = RoundRobinStrategy, d_callCount = 0\<rparr>"

definition exampleReads :: "(bytes \<times> conn_end option) list" where
  "exampleReads = [([1, 2, 3], None), ([4], Some ConnEOF)]"

definition exampleSetup :: CircuitSetup where
  "exampleSetup = \<lparr>cs_CircuitID = replicate 16 4, cs_ECDHPubKey = replicate 32 9, cs_TargetAddr = ascii ''h:80''\<rparr>"

definition exampleExit :: ExitNode where
  "exampleExit = (NewExitNode DefaultExitConfig)
     \<lparr>x_objs := [newExitCircuit 0 DefaultExitConfig exampleSetup (replicate 32 3)], x_circuits := [(''c'', 0)]\<rparr>"

lemma exampleDispatcher_new:
  "NewDispatcher (\<lambda>_. []) (\<lambda>k b. b) [(boundedName, NewBounded), (fixed16kName, NewFixed)] [] exampleDispatcherConfig
     = ok exampleDispatcher"
  by (simp add: NewDispatcher_def exampleDispatcherConfig_def exampleDispatcher_def sizes guard_def HasOverlap_def Nodes_def
      tinyConfig_def DefaultChunkerConfig_def fixed16kName_def boundedName_def NewChunkerWithConfig_def registry_Get_def Let_def)

lemma exampleDispatcher_hops: "hops_ok exampleDispatcherConfig"
  by (simp add: hops_ok_def firstHop_def exampleDispatcherConfig_def sizes ascii_def)

lemma exampleReads_chunks: "readChunks (\<lambda>_ _. 0) (d_chunker exampleDispatcher) exampleReads = [[1, 2], [3], [4]]"
  by code_simp

lemma exampleExit_window: "maxWindowOf (x_cfg exampleExit) = 256"
  by (simp add: exampleExit_def NewExitNode_def DefaultExitConfig_def DefaultCircuitConfig_def maxWindowOf_def Let_def
      DefaultChunkerConfig_def boundedName_def)

lemma exampleExit_side: "exit_side ''c'' 0 0 exampleSetup exampleDispatcherConfig 5 exampleExit"
  unfolding exit_side_def exampleExit_window
  by (simp add: serves_def exampleExit_def exampleDispatcherConfig_def exampleSetup_def NewExitNode_def DefaultExitConfig_def
      DefaultCircuitConfig_def DefaultChunkerConfig_def boundedName_def Let_def DefaultMaxReassemblyChunks_def DefaultMaxReassemblyBytes_def)

lemma exampleReads_ok:
  "closes exampleReads" "\<forall>r\<in>set exampleReads. length (fst r) \<le> 32768" "streamOf exampleReads = [1, 2, 3, 4]"
  by (simp_all add: exampleReads_def)

lemma plainOpen_plainSeal: "plainOpen k n (plainSeal k n p a) a = Some p"
  by (simp add: plainOpen_def plainSeal_def)

text \<open>
  C1. Data entered at one end comes out at the other. For any AEAD whose \<open>Open\<close> inverts \<open>Seal\<close>: with
  usable first hops, enough randomness and sends that succeed, the dispatcher of an entry node reads
  the connection to its end and returns without an error, having sent the pieces its chunker makes
  of the data and two end markers. If the data chunks reach the exit once each, over whichever path,
  in any order that keeps within the reassembly window, before the markers, then the target receives
  exactly the bytes that were read.
\<close>

theorem entry_to_exit_delivery:
  assumes "\<And>k n p a. aopen k n (seal k n p a) a = Some p"
    and "NewDispatcher sha256 aes reg rnd c = ok d" "hops_ok c" "closes reads"
    and "\<forall>r\<in>set reads. length (fst r) \<le> 32768"
    and "n = length (readChunks q (d_chunker d) reads)" "(n + 2) * perChunk \<le> length rndRun"
    and "exit_side cid p t su c (n + 2) e"
    and "distinct js" "set js = {0..<n}" "inWindow (maxWindowOf (x_cfg e)) [] js" "set ms \<subseteq> {n, n + 1}"
  shows "\<exists>s. disp_Run aes seal q (\<lambda>_ _ _. True) draw None now rndRun reads d = (Some (ok ()), s) \<and>
    length (rsent s) = n + 2 \<and>
    tc_written (x_objs (snd (arrive aopen cid (arrivals clock s (js @ ms)) e)) ! p) = streamOf reads"
proof -
  obtain s where s: "disp_Run aes seal q (\<lambda>_ _ _. True) draw None now rndRun reads d = (Some (ok ()), s)"
    "length (rsent s) = n + 2" "concat (readChunks q (d_chunker d) reads) = streamOf reads"
    "\<forall>j<n. carries aopen (e2eKey (x_objs e ! p)) (circuitIDBytes (x_objs e ! p)) (readChunks q (d_chunker d) reads) j (snd (rsent s ! j))"
    "\<forall>j. n \<le> j \<and> j < n + 2 \<longrightarrow> marks aopen (e2eKey (x_objs e ! p)) (circuitIDBytes (x_objs e ! p)) n (snd (rsent s ! j))"
    "serves cid p e" "delivering (nat (maxWindowOf (x_cfg e))) (readChunks q (d_chunker d) reads) {} 0 (x_objs e ! p)"
    "fits (nat (maxWindowOf (x_cfg e))) (readChunks q (d_chunker d) reads) e"
    using pipeline [where aopen = aopen and seal = seal, OF assms(1-5) assms(7,8) [unfolded assms(6)]] unfolding assms(6) by metis
  have "tc_written (x_objs (snd (arrive aopen cid (arrivals clock s (js @ ms)) e)) ! p) = concat (readChunks q (d_chunker d) reads)"
    unfolding arrivals_def
    by (rule arrive_complete [OF s(6-8)]) (use assms(6,9-12) s(4,5) in auto)
  then show ?thesis using s by metis
qed

theorem entry_to_exit_delivery_witness:
  "\<exists>s. disp_Run (\<lambda>k b. b) plainSeal (\<lambda>_ _. 0) (\<lambda>_ _ _. True) (\<lambda>_. 0) None 0 (replicate (5 * perChunk) 7) exampleReads exampleDispatcher
      = (Some (ok ()), s) \<and> length (rsent s) = 5 \<and>
    tc_written (x_objs (snd (arrive plainOpen ''c'' (arrivals (\<lambda>j. int j) s ([2, 0, 1] @ [4, 3])) exampleExit)) ! 0) = [1, 2, 3, 4]"
proof -
  have w: "inWindow (maxWindowOf (x_cfg exampleExit)) [] [2, 0, 1]" unfolding exampleExit_window by code_simp
  have js: "distinct [2, 0, 1 :: nat]" "set [2, 0, 1] = {0..<3 :: nat}" "set [4, 3] \<subseteq> {3, 3 + 1 :: nat}" by auto
  show ?thesis
    using entry_to_exit_delivery [where aopen = plainOpen and seal = plainSeal, OF plainOpen_plainSeal exampleDispatcher_new exampleDispatcher_hops exampleReads_ok(1,2),
        where n = 3 and q = "\<lambda>_ _. 0" and rndRun = "replicate (5 * perChunk) 7" and js = "[2, 0, 1]" and ms = "[4, 3]",
        OF _ _ _ js(1,2) w js(3)] exampleExit_side exampleReads_chunks exampleReads_ok(3)
    by simp
qed

lemma rest_of_shorter:
  assumes "[] \<notin> set ps" "j < length ps" "j \<notin> R"
  shows "length (rest_of ps R 0) < length (concat ps)"
proof -
  let ?f = "\<lambda>j. length (ps ! j)"
  have "length (rest_of ps R 0) = (\<Sum>j\<leftarrow>filter (\<lambda>j. j \<in> R) [0..<length ps]. ?f j)"
    by (simp add: rest_of_def length_concat comp_def)
  also have "\<dots> = sum ?f ({0..<length ps} \<inter> R)"
    by (simp add: sum_list_distinct_conv_sum_set Int_def conj_commute)
  also have "\<dots> < sum ?f {0..<length ps}"
    using assms nth_mem [OF assms(2)] by (intro sum_strict_mono2 [where b = j]) (auto simp del: nth_mem)
  also have "\<dots> = length (concat ps)" by (simp add: length_concat sum_list_sum_nth)
  finally show ?thesis .
qed

text \<open>
  An end marker that overtakes data loses it. The marker is sent on both paths. If one of the two
  reaches the exit within the window while a data chunk is still under way, the target receives the
  pieces that had arrived, joined over the gap, and nothing more, whatever arrives afterwards: less
  than was read, although the dispatcher reported success.
\<close>

lemma end_marker_overtakes:
  assumes "\<And>k n p a. aopen k n (seal k n p a) a = Some p"
    and "NewDispatcher sha256 aes reg rnd c = ok d" "hops_ok c" "closes reads"
    and "\<forall>r\<in>set reads. length (fst r) \<le> 32768"
    and "ps = readChunks q (d_chunker d) reads" "(length ps + 2) * perChunk \<le> length rndRun"
    and "exit_side cid p t su c (length ps + 2) e"
    and "distinct js" "set js \<subset> {0..<length ps}" "inWindow (maxWindowOf (x_cfg e)) [] js"
    and "int (length ps) < int (firstMissing (rev js)) + maxWindowOf (x_cfg e)"
    and "m \<in> {length ps, length ps + 1}" "set late \<subseteq> {0..<length ps + 2}"
  shows "\<exists>s out. disp_Run aes seal q (\<lambda>_ _ _. True) draw None now rndRun reads d = (Some (ok ()), s) \<and>
    tc_written (x_objs (snd (arrive aopen cid (arrivals clock s (js @ m # late)) e)) ! p) = out \<and>
    out = concat (map ((!) ps) (filter (\<lambda>j. j \<in> set js) [0..<length ps])) \<and> length out < length (streamOf reads)"
proof -
  obtain s where s: "disp_Run aes seal q (\<lambda>_ _ _. True) draw None now rndRun reads d = (Some (ok ()), s)"
    "length (rsent s) = length ps + 2" "concat ps = streamOf reads" "[] \<notin> set ps"
    "\<forall>j<length ps. carries aopen (e2eKey (x_objs e ! p)) (circuitIDBytes (x_objs e ! p)) ps j (snd (rsent s ! j))"
    "\<forall>j. length ps \<le> j \<and> j < length ps + 2 \<longrightarrow> marks aopen (e2eKey (x_objs e ! p)) (circuitIDBytes (x_objs e ! p)) (length ps) (snd (rsent s ! j))"
    "serves cid p e" "delivering (nat (maxWindowOf (x_cfg e))) ps {} 0 (x_objs e ! p)" "fits (nat (maxWindowOf (x_cfg e))) ps e"
    using pipeline [where aopen = aopen and seal = seal, OF assms(1-5) assms(7,8) [unfolded assms(6)]] unfolding assms(6) by metis
  let ?key = "e2eKey (x_objs e ! p)" and ?id = "circuitIDBytes (x_objs e ! p)"
  have "\<exists>n. carries aopen ?key ?id ps n (snd (rsent s ! j)) \<or> marks aopen ?key ?id n (snd (rsent s ! j))"
    if "j \<in> set late" for j
    using s(5,6) subsetD [OF assms(14) that] by (cases "j < length ps") (auto simp: not_less)
  then have L: "\<forall>(_, _, wc)\<in>set (map (\<lambda>j. (clock j, fst (rsent s ! j), snd (rsent s ! j))) late).
      \<exists>n. carries aopen ?key ?id ps n wc \<or> marks aopen ?key ?id n wc" by (simp add: split_beta)
  have w: "int (length ps) < int (firstMissing (rev js)) + int (nat (maxWindowOf (x_cfg e)))"
    using assms(12) by simp
  have "tc_written (x_objs (snd (arrive aopen cid (arrivals clock s (js @ m # late)) e)) ! p) = rest_of ps (set js) 0"
    unfolding arrivals_def map_append list.map(2)
    by (rule arrive_cut [OF s(7-9) assms(9,11) w _ _ L]) (use assms(10,13) s(5,6) in auto)
  moreover obtain j where "j < length ps" "j \<notin> set js" using psubset_imp_ex_mem [OF assms(10)] by auto
  then have "length (rest_of ps (set js) 0) < length (concat ps)" using s(4) by (intro rest_of_shorter)
  ultimately show ?thesis using s(1,3) by (auto simp: rest_of_def)
qed

section \<open>Setting a circuit up\<close>

lemma put16_value: "unat (put16 w ! 0) * 256 + unat (put16 w ! 1) = unat w"
proof -
  have w: "unat w < 65536" using unsigned_less [of w, where 'a = nat] by simp
  have "unat (ucast (drop_bit 8 w) :: byte) = unat w div 256"
    unfolding unsigned_ucast_eq unsigned_drop_bit_eq using w by (simp add: drop_bit_eq_div take_bit_eq_mod)
  moreover have "unat (ucast w :: byte) = unat w mod 256"
    by (simp add: unsigned_ucast_eq take_bit_eq_mod)
  ultimately show ?thesis by (simp add: put16_def)
qed

lemma readAck_Encode:
  assumes "wf_ack ack"
  shows "\<exists>reply. CircuitAck_Encode ack = ok reply \<and> readAck reply = ok ack"
proof -
  define h where "h = ca_CircuitID ack @ ca_ECDHPubKey ack @ [if ca_Accepted ack then 1 else 0]"
  define n where "n = put16 (of_nat (length (ca_Reason ack)))"
  obtain reply where r: "CircuitAck_Encode ack = ok reply" "DecodeCircuitAck reply = ok ack"
    using ack_codec.dec_enc [OF assms] by blast
  have len: "length h = 49" "length n = 2" "length (ca_Reason ack) < 65536"
    using assms by (simp_all add: h_def n_def wf_ack_def)
  have eq: "reply = (h @ n) @ ca_Reason ack"
    using r(1) by (auto simp: CircuitAck_Encode_def h_def n_def guard_def split: if_splits)
  have "unat (of_nat (length (ca_Reason ack)) :: u16) = length (ca_Reason ack)"
    using len(3) by (simp add: unat_of_nat)
  then have val: "unat (n ! 0) * 256 + unat (n ! 1) = length (ca_Reason ack)"
    using put16_value by (simp add: n_def)
  have full: "(readFull AckRead reply 51 :: (entry_error, bytes \<times> bytes) res) = ok (h @ n, ca_Reason ack)"
    unfolding eq by (rule readFull_append) (simp add: len)
  have nth: "(h @ n) ! 49 = n ! 0" "(h @ n) ! 50 = n ! 1" using len by (simp_all add: nth_append)
  have "readAck reply = ok ack"
    using r(2) full val nth len eq
    by (cases "ca_Reason ack = []") (auto simp: readAck_def sizes byte_at_def readFull_def Let_def)
  with r(1) show ?thesis by blast
qed

lemma HandleCircuitSetup_accepted:
  assumes "HandleCircuitSetup x25519 base sha256 dial pt dt now rnd su e = (ok ack, e')" "ca_Accepted ack"
  obtains keys rest key where "GenerateECDHKeyPair x25519 base rnd = ok (keys, rest)"
    "DeriveSharedKey x25519 sha256 (Private keys) (cs_ECDHPubKey su) = ok key"
    "ack = \<lparr>ca_CircuitID = cs_CircuitID su, ca_ECDHPubKey = Public keys, ca_Accepted = True, ca_Reason = []\<rparr>"
    "e' = e\<lparr>x_objs := x_objs e @ [newExitCircuit now (x_cfg e) su key],
       x_circuits := AList.update (hexOf (cs_CircuitID su)) (length (x_objs e)) (x_circuits e)\<rparr>"
    "\<not> x_closed e" "length (cs_CircuitID su) = CircuitIDSize"
  using assms
  by (auto simp: HandleCircuitSetup_def Let_def rejectAck_def res_iffs split: if_splits sum.splits fail.splits)

lemma rejection_not_encodable: "\<exists>x. CircuitAck_Encode (rejectAck su reason) = err x"
  by (simp add: CircuitAck_Encode_def rejectAck_def guard_def)

lemma DeriveSharedKey_size:
  assumes "\<And>m. length (sha256 m) = 32" "DeriveSharedKey x25519 sha256 priv pub = ok key"
  shows "length key = KeySize"
proof -
  have "length (newHMACSHA256WithKey sha256 k d) = 32" for k d
    by (simp add: newHMACSHA256WithKey_def Let_def assms(1))
  then show ?thesis
    using assms(2) by (auto simp: DeriveSharedKey_def deriveKey_def Let_def slice_def KeySize_def res_iffs split: option.splits if_splits)
qed

text \<open>
  C3. The key exchange agrees. For a scalar multiplication that commutes and gives 32-byte points and
  a hash with 32-byte digests: when the exit accepts the setup message of an entry node, the message
  survives its encoding, the acknowledgement can be encoded, and the entry node that reads it back
  from the wire derives a 32-byte key which is the one the exit stored, under the same circuit
  identifier, in a fresh active circuit.
\<close>

theorem handshake_agreement:
  assumes dh: "\<And>a b p q. x25519 a base = Some p \<Longrightarrow> x25519 b base = Some q \<Longrightarrow> x25519 a q = x25519 b p"
    and point: "\<And>a p q. x25519 a p = Some q \<Longrightarrow> length q = 32"
    and digest: "\<And>m. length (sha256 m) = 32"
    and entry: "GenerateECDHKeyPair x25519 base rndA = ok (A, restA)" "length target < 65536"
    and su: "su = \<lparr>cs_CircuitID = cid, cs_ECDHPubKey = Public A, cs_TargetAddr = target\<rparr>"
    and exit: "HandleCircuitSetup x25519 base sha256 dial pt dt now rndB su e = (ok ack, e')" "ca_Accepted ack"
  shows "\<exists>request reply key. CircuitSetup_Encode su = ok request \<and> DecodeCircuitSetup request = ok su \<and>
    CircuitAck_Encode ack = ok reply \<and>
    exchangeKeys x25519 sha256 (Some (\<lambda>m. if m = request then Some reply else None)) A cid target = ok key \<and>
    length key = KeySize \<and> serves (hexOf cid) (length (x_objs e)) e' \<and>
    x_objs e' ! length (x_objs e) = newExitCircuit now (x_cfg e) su key"
proof -
  obtain B restB key where B: "GenerateECDHKeyPair x25519 base rndB = ok (B, restB)"
    "DeriveSharedKey x25519 sha256 (Private B) (Public A) = ok key"
    "ack = \<lparr>ca_CircuitID = cid, ca_ECDHPubKey = Public B, ca_Accepted = True, ca_Reason = []\<rparr>"
    "e' = e\<lparr>x_objs := x_objs e @ [newExitCircuit now (x_cfg e) su key],
       x_circuits := AList.update (hexOf cid) (length (x_objs e)) (x_circuits e)\<rparr>"
    "\<not> x_closed e" "length cid = CircuitIDSize"
    by (rule HandleCircuitSetup_accepted [OF exit]) (simp add: su)
  have len: "length (Public A) = 32" "length (Public B) = 32"
    using GenerateECDHKeyPair_eq_Inr entry(1) B(1) point by blast+
  have "wf_setup su" "wf_ack ack" using B(3,6) len entry(2) by (simp_all add: su wf_setup_def wf_ack_def sizes)
  then obtain request reply where m: "CircuitSetup_Encode su = ok request" "DecodeCircuitSetup request = ok su"
    "CircuitAck_Encode ack = ok reply" "readAck reply = ok ack"
    using setup_codec.dec_enc readAck_Encode by blast
  have "DeriveSharedKey x25519 sha256 (Private A) (Public B) = DeriveSharedKey x25519 sha256 (Private B) (Public A)"
    by (rule ecdh_agreement [where ?x25519.0 = x25519 and base = base, THEN conjunct1])
      (use dh in blast, use point in blast, rule digest, rule entry(1), rule B(1))
  then have "exchangeKeys x25519 sha256 (Some (\<lambda>m. if m = request then Some reply else None)) A cid target = ok key"
    using m B(2,3) by (simp add: exchangeKeys_def su guard_def)
  moreover have "length key = KeySize" using digest B(2) by (rule DeriveSharedKey_size)
  moreover have "serves (hexOf cid) (length (x_objs e)) e'" using B(4,5) by (simp add: serves_def update_conv')
  ultimately show ?thesis using m B(4) by simp
qed

definition toyMul :: "bytes \<Rightarrow> bytes \<Rightarrow> bytes option" where
  "toyMul a p = Some (replicate 32 (hd (a @ [0]) * hd (p @ [0])))"

definition toyPair :: "byte \<Rightarrow> ECDHKeyPair" where
  "toyPair n = fst (projr (GenerateECDHKeyPair toyMul (replicate 32 9) (replicate 32 n)))"

definition toySetup :: CircuitSetup where
  "toySetup = \<lparr>cs_CircuitID = replicate 16 4, cs_ECDHPubKey = Public (toyPair 5), cs_TargetAddr = ascii ''h:80''\<rparr>"

definition toyExit :: ExitNode where
  "toyExit = NewExitNode (DefaultExitConfig\<lparr>AllowAllPorts := True\<rparr>)"

definition toyAnswer :: "(exit_node_error, CircuitAck) res \<times> ExitNode" where
  "toyAnswer = HandleCircuitSetup toyMul (replicate 32 9) (\<lambda>_. replicate 32 1) (\<lambda>_. True) (\<lambda>_. []) [] 0 (replicate 32 6) toySetup toyExit"

lemma toyPair_generated: "GenerateECDHKeyPair toyMul (replicate 32 9) (replicate 32 n) = ok (toyPair n, [])"
  by (simp add: toyPair_def GenerateECDHKeyPair_def readRandom_def readFull_def toyMul_def Let_def)

lemma toyAnswer_accepted: "\<exists>ack e'. toyAnswer = (ok ack, e') \<and> ca_Accepted ack"
proof -
  have "length (Public (toyPair n)) = 32" for n
    using GenerateECDHKeyPair_eq_Inr [OF toyPair_generated [of n]] by (simp add: toyMul_def) (metis length_replicate)
  moreover have "length (Private (toyPair n)) = 32" for n
    using GenerateECDHKeyPair_eq_Inr [OF toyPair_generated [of n]] by simp
  moreover have "\<exists>key. DeriveSharedKey toyMul (\<lambda>_. replicate 32 1) (Private (toyPair 6)) (Public (toyPair 5)) = ok key"
    using calculation by (simp add: DeriveSharedKey_def toyMul_def deriveKey_def Let_def newHMACSHA256WithKey_def slice_def KeySize_def)
  ultimately show ?thesis
    by (auto simp: toyAnswer_def toyExit_def HandleCircuitSetup_def NewExitNode_def DefaultExitConfig_def DefaultCircuitConfig_def
        DefaultChunkerConfig_def boundedName_def toySetup_def validatePort_def toyPair_generated sizes ascii_def Let_def)
qed

theorem handshake_agreement_witness:
  "\<exists>request reply key ack e'. toyAnswer = (ok ack, e') \<and> CircuitSetup_Encode toySetup = ok request \<and>
    DecodeCircuitSetup request = ok toySetup \<and> CircuitAck_Encode ack = ok reply \<and>
    exchangeKeys toyMul (\<lambda>_. replicate 32 1) (Some (\<lambda>m. if m = request then Some reply else None)) (toyPair 5) (replicate 16 4)
      (ascii ''h:80'') = ok key \<and> length key = KeySize \<and> e2eKey (x_objs e' ! 0) = key"
proof -
  obtain ack e' where a: "toyAnswer = (ok ack, e')" "ca_Accepted ack" using toyAnswer_accepted by blast
  have dh: "toyMul a q = toyMul b p" if "toyMul a (replicate 32 9) = Some p" "toyMul b (replicate 32 9) = Some q" for a b p q
    using that by (auto simp: toyMul_def hd_append mult_ac)
  have point: "length q = 32" if "toyMul a p = Some q" for a p q using that by (auto simp: toyMul_def)
  have target: "length (ascii ''h:80'') < 65536" by (simp add: ascii_def)
  have "\<exists>request reply key. CircuitSetup_Encode toySetup = ok request \<and> DecodeCircuitSetup request = ok toySetup \<and>
    CircuitAck_Encode ack = ok reply \<and>
    exchangeKeys toyMul (\<lambda>_. replicate 32 1) (Some (\<lambda>m. if m = request then Some reply else None)) (toyPair 5) (replicate 16 4)
      (ascii ''h:80'') = ok key \<and> length key = KeySize \<and> serves (hexOf (replicate 16 4)) (length (x_objs toyExit)) e' \<and>
    x_objs e' ! length (x_objs toyExit) = newExitCircuit 0 (x_cfg toyExit) toySetup key"
    by (rule handshake_agreement [OF _ _ _ toyPair_generated target toySetup_def a(1) [unfolded toyAnswer_def] a(2)])
      (use dh in blast, use point in blast, simp)
  moreover have "length (x_objs toyExit) = 0" by (simp add: toyExit_def NewExitNode_def Let_def)
  moreover have "e2eKey (newExitCircuit 0 cfg toySetup key) = key" for cfg key by (simp add: newExitCircuit_def)
  ultimately show ?thesis using a(1) by metis
qed

section \<open>What an exit circuit accepts\<close>

lemma HandleWireChunk_cases:
  assumes "HandleWireChunk aopen now wr cid wc path e = (r, e')"
  shows "x_circuits e' = x_circuits e \<and> x_cfg e' = x_cfg e \<and>
    (x_objs e' = x_objs e \<or>
     (\<exists>p c. \<not> x_closed e \<and> map_of (x_circuits e) cid = Some p \<and> x_objs e' = (x_objs e)[p := c] \<and>
        xc_state (x_objs e ! p) = CircuitActive \<and>
        (\<exists>ch. DecodeChunk aopen wc (e2eKey (x_objs e ! p)) (circuitIDBytes (x_objs e ! p)) = ok ch \<and>
          (core c = core (x_objs e ! p) \<or> Sequence ch < ackBase (x_objs e ! p) + of_int (maxWindowOf (x_cfg e))))))"
proof -
  have a: "ackBase (noteArrival now path i c) = ackBase c" for i c by (simp add: noteArrival_def)
  show ?thesis
    using assms
    by (auto simp: HandleWireChunk_def Let_def a not_le split: if_splits option.splits sum.splits fail.splits prod.splits)
qed

lemma nth_update_other: "q < length xs \<Longrightarrow> xs[p := x] ! q = (if q = p then x else xs ! q)"
  by (auto simp: nth_list_update)

text \<open>
  C4. An exit circuit obeys its key. A chunk changes what a target has received only if the node is
  open, the chunk names that circuit, the circuit is active, and the chunk opens under the circuit's
  own key for the circuit's own identifier inside the reassembly window. No other circuit of the
  node changes at all, and a chunk that is refused leaves the data plane of its own circuit as it was.
\<close>

theorem exit_accepts_only_authentic:
  assumes "HandleWireChunk aopen now wr cid wc path e = (r, e')"
  shows "(\<forall>q<length (x_objs e). map_of (x_circuits e) cid \<noteq> Some q \<longrightarrow> x_objs e' ! q = x_objs e ! q) \<and>
    x_circuits e' = x_circuits e \<and> x_cfg e' = x_cfg e \<and> length (x_objs e') = length (x_objs e) \<and>
    (\<forall>q<length (x_objs e). core (x_objs e' ! q) \<noteq> core (x_objs e ! q) \<longrightarrow>
      \<not> x_closed e \<and> map_of (x_circuits e) cid = Some q \<and> xc_state (x_objs e ! q) = CircuitActive \<and>
      (\<exists>ch. DecodeChunk aopen wc (e2eKey (x_objs e ! q)) (circuitIDBytes (x_objs e ! q)) = ok ch \<and>
         Sequence ch < ackBase (x_objs e ! q) + of_int (maxWindowOf (x_cfg e))))"
  using HandleWireChunk_cases [OF assms] by (auto simp: nth_update_other split: if_splits)

definition forgedChunk :: WireChunk where
  "forgedChunk = \<lparr>Header = replicate ForwardingHeaderSize 7, Nonce = replicate NonceSize 7, Ciphertext = replicate 64 7\<rparr>"

theorem exit_accepts_only_authentic_witness:
  "core (x_objs (snd (HandleWireChunk (\<lambda>_ _ _ _. None) 7 None ''c'' forgedChunk 1 exampleExit)) ! 0) = core (x_objs exampleExit ! 0) \<and>
   x_circuits (snd (HandleWireChunk (\<lambda>_ _ _ _. None) 7 None ''c'' forgedChunk 1 exampleExit)) = [(''c'', 0)]"
  using exit_accepts_only_authentic [of "\<lambda>_ _ _ _. None" 7 None "''c''" forgedChunk 1 exampleExit, OF surjective_pairing]
  by (auto simp: exampleExit_def DecodeChunk_def guard_def split: if_splits)

end
