(* ===== verification/Net_Addr.thy ===== *)
theory Net_Addr
  imports Prelude "HOL-Library.List_Lexorder" "HOL-Library.Char_ord"
begin

text \<open>
  The part of Go's \<open>net\<close> package that the mesh overlay computes with: addresses as byte slices of
  length 4 or 16, the 4-byte reading of an IPv4-mapped address, networks with a mask, membership
  and mask size. Public keys are strings ordered byte by byte. The textual form of an address only
  serves as a map key; it stays a parameter of the components that use it.
\<close>

section \<open>Addresses and networks\<close>

type_synonym IP = bytes

definition v4InV6Prefix :: bytes where
  "v4InV6Prefix = replicate 10 0 @ [255, 255]"

definition To4 :: "IP \<Rightarrow> IP option" where
  "To4 ip = (if length ip = 4 then Some ip
             else if length ip = 16 \<and> take 12 ip = v4InV6Prefix then Some (drop 12 ip) else None)"

definition IP_Equal :: "IP \<Rightarrow> IP \<Rightarrow> bool" where
  "IP_Equal ip x =
     (if length ip = length x then ip = x
      else if length ip = 4 \<and> length x = 16 then take 12 x = v4InV6Prefix \<and> ip = drop 12 x
      else if length ip = 16 \<and> length x = 4 then take 12 ip = v4InV6Prefix \<and> drop 12 ip = x
      else False)"

record IPNet =
  net_IP :: IP
  net_Mask :: bytes

primrec CIDRMask_bytes :: "nat \<Rightarrow> nat \<Rightarrow> bytes" where
  \<comment> \<open>the loop of \<open>CIDRMask\<close> over the remaining bytes\<close>
  "CIDRMask_bytes ones 0 = []"
| "CIDRMask_bytes ones (Suc l) =
     (if ones \<ge> 8 then 255 # CIDRMask_bytes (ones - 8) l
      else not (drop_bit ones 255) # CIDRMask_bytes 0 l)"

definition CIDRMask :: "nat \<Rightarrow> nat \<Rightarrow> bytes" where
  "CIDRMask ones bits = CIDRMask_bytes ones (bits div 8)"

fun leadingOnes :: "nat \<Rightarrow> byte \<Rightarrow> nat" where
  \<comment> \<open>\<open>for v&0x80 != 0 { n++; v <<= 1 }\<close>, at most eight times\<close>
  "leadingOnes 0 v = 0"
| "leadingOnes (Suc k) v = (if bit v 7 then Suc (leadingOnes k (push_bit 1 v)) else 0)"

fun simpleMaskLength :: "bytes \<Rightarrow> nat option" where
  \<comment> \<open>\<open>None\<close> for the result -1 of a mask that is not ones followed by zeros\<close>
  "simpleMaskLength [] = Some 0"
| "simpleMaskLength (v # m) =
     (if v = 255 then map_option ((+) 8) (simpleMaskLength m)
      else let n = leadingOnes 8 v
           in if push_bit n v \<noteq> 0 \<or> (\<exists>w\<in>set m. w \<noteq> 0) then None else Some n)"

definition Mask_Size :: "bytes \<Rightarrow> nat \<times> nat" where
  "Mask_Size m = (case simpleMaskLength m of None \<Rightarrow> (0, 0) | Some n \<Rightarrow> (n, length m * 8))"

definition networkNumberAndMask :: "IPNet \<Rightarrow> IP \<times> bytes" where
  \<comment> \<open>a pair of empty slices stands for the result \<open>nil, nil\<close>\<close>
  "networkNumberAndMask n =
     (let ip = (case To4 (net_IP n) of Some x \<Rightarrow> x | None \<Rightarrow> net_IP n); m = net_Mask n
      in if length ip \<noteq> 4 \<and> length ip \<noteq> 16 then ([], [])
         else if length m = 4 then (if length ip = 4 then (ip, m) else ([], []))
         else if length m = 16 then (if length ip = 4 then (ip, drop 12 m) else (ip, m))
         else ([], []))"

definition Contains :: "IPNet \<Rightarrow> IP \<Rightarrow> bool" where
  "Contains n ip =
     (let (nn, m) = networkNumberAndMask n; x = (case To4 ip of Some y \<Rightarrow> y | None \<Rightarrow> ip)
      in length x = length nn \<and> map2 and nn m = map2 and x m)"

definition wf_net :: "IPNet \<Rightarrow> bool" where
  \<comment> \<open>what \<open>ParseCIDR\<close> returns: a masked address of either family with a prefix mask; an IPv4 network
     has the 4-byte form\<close>
  "wf_net n \<longleftrightarrow>
     (length (net_IP n) = 4 \<or> length (net_IP n) = 16 \<and> To4 (net_IP n) = None) \<and>
     (\<exists>ones \<le> 8 * length (net_IP n). net_Mask n = CIDRMask ones (8 * length (net_IP n))) \<and>
     map2 and (net_IP n) (net_Mask n) = net_IP n"

section \<open>Masks\<close>

lemma length_CIDRMask_bytes [simp]: "length (CIDRMask_bytes ones l) = l"
  by (induction l arbitrary: ones) auto

lemma length_CIDRMask [simp]: "length (CIDRMask ones (8 * l)) = l"
  by (simp add: CIDRMask_def)

lemma CIDRMask_zero: "CIDRMask_bytes 0 l = replicate l 0"
proof (induction l)
  case (Suc l)
  have "not (255 :: byte) = 0" by code_simp
  with Suc show ?case by simp
qed simp

lemma prefix_byte_cases:
  "ones < 8 \<Longrightarrow> ones = 0 \<or> ones = 1 \<or> ones = 2 \<or> ones = 3 \<or> ones = 4 \<or> ones = 5 \<or> ones = 6 \<or> ones = (7::nat)"
  by arith

lemma leadingOnes_prefix:
  "ones < 8 \<Longrightarrow> leadingOnes 8 (not (drop_bit ones 255)) = ones \<and> push_bit ones (not (drop_bit ones 255) :: byte) = 0
     \<and> not (drop_bit ones 255) \<noteq> (255 :: byte)"
  by (drule prefix_byte_cases, elim disjE) (simp_all, code_simp+)

lemma simpleMaskLength_CIDRMask:
  "ones \<le> 8 * l \<Longrightarrow> simpleMaskLength (CIDRMask_bytes ones l) = Some ones"
proof (induction l arbitrary: ones)
  case (Suc l)
  then show ?case
    using leadingOnes_prefix [of ones] by (cases "ones \<ge> 8") (auto simp: CIDRMask_zero Let_def)
qed simp

lemma Mask_Size_CIDRMask [simp]: "ones \<le> 8 * l \<Longrightarrow> Mask_Size (CIDRMask ones (8 * l)) = (ones, 8 * l)"
  by (simp add: Mask_Size_def CIDRMask_def simpleMaskLength_CIDRMask)

section \<open>Addresses as numbers\<close>

primrec be_nat :: "bytes \<Rightarrow> nat" where
  "be_nat [] = 0"
| "be_nat (b # bs) = unat b * 256 ^ length bs + be_nat bs"

lemma byte_less: "unat (b :: byte) < 256"
  using unsigned_less [of b, where 'a = nat] by simp

lemma be_nat_less: "be_nat bs < 256 ^ length bs"
proof (induction bs)
  case (Cons b bs)
  have "unat b * 256 ^ length bs + be_nat bs < (unat b + 1) * 256 ^ length bs" using Cons by simp
  also have "\<dots> \<le> 256 * 256 ^ length bs" using byte_less [of b] by (intro mult_right_mono) auto
  finally show ?case by simp
qed simp

lemma be_nat_snoc: "be_nat (bs @ [b]) = be_nat bs * 256 + unat b"
  by (induction bs) (simp_all add: algebra_simps)

lemma be_nat_inj: "length as = length bs \<Longrightarrow> be_nat as = be_nat bs \<Longrightarrow> as = bs"
proof (induction as bs rule: list_induct2)
  case (Cons a as b bs)
  have "unat a = be_nat (a # as) div 256 ^ length as" using be_nat_less [of as] by simp
  also have "\<dots> = be_nat (b # bs) div 256 ^ length bs" using Cons.hyps Cons.prems by (simp del: be_nat.simps)
  also have "\<dots> = unat b" using be_nat_less [of bs] by simp
  finally have "a = b" by (rule unsigned_word_eqI)
  with Cons show ?case by simp
qed simp

lemma prefix_mask_eq:
  fixes a b :: byte
  assumes "ones < 8" "unat a div 2 ^ (8 - ones) = unat b div 2 ^ (8 - ones)"
  shows "and a (not (drop_bit ones 255)) = and b (not (drop_bit ones 255))"
proof -
  have odd: "bit x n \<longleftrightarrow> odd (unat x div 2 ^ n)" for x :: byte and n
    by (metis bit_iff_odd bit_unsigned_iff possible_bit_nat)
  have "bit a n = bit b n" if "8 - ones \<le> n" for n
  proof -
    have "(2 :: nat) ^ n = 2 ^ (8 - ones) * 2 ^ (n - (8 - ones))" using that by (simp flip: power_add)
    then show ?thesis using assms(2) by (simp add: odd div_mult2_eq)
  qed
  moreover have "bit (drop_bit ones 255 :: byte) n \<longleftrightarrow> n < 8 - ones" for n
  proof -
    have m: "(255 :: byte) = mask 8" by (simp add: mask_eq_exp_minus_1)
    show ?thesis unfolding m using assms(1) by (auto simp: bit_drop_bit_eq bit_mask_iff)
  qed
  ultimately show ?thesis by (auto simp: bit_eq_iff bit_simps)
qed

lemma masked_eq_of_div:
  assumes "length as = length bs" "ones \<le> 8 * length as"
    and "be_nat as div 2 ^ (8 * length as - ones) = be_nat bs div 2 ^ (8 * length as - ones)"
  shows "map2 and as (CIDRMask_bytes ones (length as)) = map2 and bs (CIDRMask_bytes ones (length bs))"
  using assms
proof (induction as bs arbitrary: ones rule: list_induct2)
  case (Cons a as b bs)
  let ?l = "length as" and ?h = "8 * length (a # as) - ones"
  have pw: "(256 :: nat) ^ ?l = 2 ^ (8 * ?l)" by (simp add: power_mult)
  have top: "unat a = be_nat (a # as) div 2 ^ (8 * ?l)" "unat b = be_nat (b # bs) div 2 ^ (8 * ?l)"
    using be_nat_less [of as] be_nat_less [of bs] Cons.hyps pw by simp_all
  show ?case
  proof (cases "ones \<ge> 8")
    case True
    have h: "8 * ?l = ?h + (ones - 8)" using Cons.prems(1) True by simp
    have "be_nat (a # as) div 2 ^ (8 * ?l) = be_nat (b # bs) div 2 ^ (8 * ?l)"
      unfolding h power_add using Cons.prems(2) by (metis div_mult2_eq)
    then have ab: "a = b" using top by (intro unsigned_word_eqI [where 'a = nat]) metis
    have "8 * ?l - (ones - 8) = ?h" using True by simp
    moreover have "2 ^ ?h dvd unat b * 256 ^ ?l" unfolding pw by (intro dvd_mult le_imp_power_dvd) (use True in simp)
    ultimately have "be_nat as div 2 ^ (8 * ?l - (ones - 8)) = be_nat bs div 2 ^ (8 * ?l - (ones - 8))"
      using Cons.prems(2) Cons.hyps ab by (simp add: div_plus_div_distrib_dvd_left)
    then show ?thesis using Cons.IH [of "ones - 8"] Cons.prems(1) Cons.hyps ab True by simp
  next
    case False
    have h: "?h = 8 * ?l + (8 - ones)" using False by simp
    have "unat a div 2 ^ (8 - ones) = unat b div 2 ^ (8 - ones)"
      unfolding top using Cons.prems(2) unfolding h power_add by (simp add: div_mult2_eq)
    then have "and a (not (drop_bit ones 255)) = and b (not (drop_bit ones 255))"
      using False by (intro prefix_mask_eq) simp
    then show ?thesis using False Cons.hyps by (simp add: CIDRMask_zero zip_replicate2 comp_def map_replicate_const)
  qed
qed simp

end
