(* ===== verification/Ipam.thy ===== *)
theory Ipam
  imports Net_Addr "HOL-Library.Multiset"
begin

text \<open>
  The deterministic address allocator of the TUN subnet (\<open>src/internal/ipam/ipam.go\<close>): every node
  hashes public keys to host numbers and resolves collisions in the order of the keys, so that all
  nodes compute the same assignment without talking to each other. The hash, the parser of CIDR
  texts and the textual form of an address are parameters.
\<close>

section \<open>The allocator\<close>

datatype ipam_error =
    InvalidSubnet | InvalidMask | SubnetTooLarge nat | SubnetTooSmall
  | HostCountLow int | HostCountHigh int int | SlotOutOfRange int | NoFreeSlot

definition MaxSaltIterations :: nat where
  "MaxSaltIterations = 1000"

record Allocator =
  alloc_subnet :: IPNet
  hostBits :: nat
  usableHosts :: int

definition NewAllocator :: "(string \<Rightarrow> IPNet option) \<Rightarrow> string \<Rightarrow> (ipam_error, Allocator) res" where
  \<comment> \<open>\<open>1 << hostBits\<close> is an \<open>int\<close>: it wraps to a negative number for 63 host bits\<close>
  "NewAllocator parseCIDR subnet =
     (case parseCIDR subnet of
        None \<Rightarrow> err InvalidSubnet
      | Some ipNet \<Rightarrow>
          let (maskOnes, maskBits) = Mask_Size (net_Mask ipNet)
          in guard (maskBits = 0) InvalidMask
             (let hb = maskBits - maskOnes
              in guard (hb > 63) (SubnetTooLarge hb)
                 (let totalAddrs = signed_take_bit 63 (2 ^ hb)
                  in guard (totalAddrs < 2) SubnetTooSmall
                     (ok \<lparr>alloc_subnet = ipNet, hostBits = hb,
                          usableHosts = (if hb \<ge> 2 then totalAddrs - 2 else totalAddrs)\<rparr>))))"

definition alloc_Subnet :: "Allocator \<Rightarrow> IPNet" where
  "alloc_Subnet a = alloc_subnet a"

definition UsableHosts :: "Allocator \<Rightarrow> int" where
  "UsableHosts a = usableHosts a"

primrec addCarry :: "bytes \<Rightarrow> nat \<Rightarrow> bytes" where
  \<comment> \<open>the loop that adds the offset, on the bytes from the last to the first\<close>
  "addCarry [] carry = []"
| "addCarry (b # bs) carry =
     (if carry > 0 then let val = unat b + carry in of_nat (val mod 256) # addCarry bs (val div 256)
      else b # bs)"

definition hostNumberToIP :: "Allocator \<Rightarrow> int \<Rightarrow> IP option" where
  "hostNumberToIP a hostNum =
     (if hostNum < 1 \<or> hostNum > usableHosts a then None
      else let network = (case To4 (net_IP (alloc_subnet a)) of Some x \<Rightarrow> x | None \<Rightarrow> net_IP (alloc_subnet a));
               off = (if hostBits a \<ge> 2 then hostNum else hostNum - 1)
           in Some (rev (addCarry (rev network) (nat off))))"

primrec le_nat :: "bytes \<Rightarrow> nat" where
  \<comment> \<open>\<open>binary.LittleEndian.Uint64\<close> on eight bytes\<close>
  "le_nat [] = 0"
| "le_nat (b # bs) = unat b + 256 * le_nat bs"

primrec putLE :: "nat \<Rightarrow> nat \<Rightarrow> bytes" where
  "putLE 0 v = []"
| "putLE (Suc n) v = of_nat (v mod 256) # putLE n (v div 256)"

definition hashToSlot :: "(bytes \<Rightarrow> bytes) \<Rightarrow> string \<Rightarrow> nat \<Rightarrow> int \<Rightarrow> int" where
  \<comment> \<open>called with a positive \<open>hostCount\<close> only\<close>
  "hashToSlot sha256 pubKey salt hostCount =
     (let h = sha256 (map of_char pubKey @ (if salt > 0 then putLE 8 salt else []))
      in int (le_nat (take 8 h)) mod hostCount)"

section \<open>Allocation\<close>

definition Allocate :: "(bytes \<Rightarrow> bytes) \<Rightarrow> Allocator \<Rightarrow> string \<Rightarrow> int \<Rightarrow> (ipam_error, IP) res" where
  "Allocate sha256 a pubKey hostCount =
     guard (hostCount < 1) (HostCountLow hostCount)
     (guard (hostCount > usableHosts a) (HostCountHigh hostCount (usableHosts a))
     (let slot = hashToSlot sha256 pubKey 0 hostCount
      in case hostNumberToIP a (slot + 1) of None \<Rightarrow> err (SlotOutOfRange slot) | Some ip \<Rightarrow> ok ip))"

definition mustYield :: "(IP \<Rightarrow> string) \<Rightarrow> string \<Rightarrow> IP \<Rightarrow> (string \<times> IP) list \<Rightarrow> bool" where
  "mustYield str pubKey cand peerIPs \<longleftrightarrow> (\<exists>p\<in>set peerIPs. str (snd p) = str cand \<and> fst p < pubKey)"

primrec saltLoop :: "(bytes \<Rightarrow> bytes) \<Rightarrow> (IP \<Rightarrow> bool) \<Rightarrow> Allocator \<Rightarrow> string \<Rightarrow> int \<Rightarrow> nat list \<Rightarrow> (ipam_error, IP) res" where
  \<comment> \<open>the loops over \<open>salt\<close>; \<open>tk\<close> decides whether a candidate is taken\<close>
  "saltLoop sha256 tk a pubKey hostCount [] = err NoFreeSlot"
| "saltLoop sha256 tk a pubKey hostCount (salt # salts) =
     (case hostNumberToIP a (hashToSlot sha256 pubKey salt hostCount + 1) of
        None \<Rightarrow> saltLoop sha256 tk a pubKey hostCount salts
      | Some cand \<Rightarrow> if tk cand then ok cand else saltLoop sha256 tk a pubKey hostCount salts)"

definition AllocateWithPeers ::
    "(bytes \<Rightarrow> bytes) \<Rightarrow> (IP \<Rightarrow> string) \<Rightarrow> Allocator \<Rightarrow> string \<Rightarrow> int \<Rightarrow> (string \<times> IP) list \<Rightarrow> (ipam_error, IP) res" where
  "AllocateWithPeers sha256 str a pubKey hostCount peerIPs =
     guard (hostCount < 1) (HostCountLow hostCount)
     (guard (hostCount > usableHosts a) (HostCountHigh hostCount (usableHosts a))
     (let claimed = map (\<lambda>p. str (snd p)) peerIPs
      in saltLoop sha256 (\<lambda>cand. str cand \<notin> set claimed \<or> \<not> mustYield str pubKey cand peerIPs)
           a pubKey hostCount [0..<Suc MaxSaltIterations]))"

definition allocateWithClaimed ::
    "(bytes \<Rightarrow> bytes) \<Rightarrow> (IP \<Rightarrow> string) \<Rightarrow> Allocator \<Rightarrow> string \<Rightarrow> int \<Rightarrow> (string \<times> IP) list \<Rightarrow> (ipam_error, IP) res" where
  "allocateWithClaimed sha256 str a pubKey hostCount claimed =
     saltLoop sha256 (\<lambda>cand. map_of claimed (str cand) = None) a pubKey hostCount [0..<Suc MaxSaltIterations]"

primrec allocateKeys ::
    "(bytes \<Rightarrow> bytes) \<Rightarrow> (IP \<Rightarrow> string) \<Rightarrow> Allocator \<Rightarrow> int \<Rightarrow> string list \<Rightarrow> (string \<times> IP) list \<Rightarrow> (string \<times> IP) list \<Rightarrow>
     (ipam_error, (string \<times> IP) list) res" where
  \<comment> \<open>the loop of \<open>AllocateAll\<close> over the sorted keys\<close>
  "allocateKeys sha256 str a hostCount [] claimed result = ok result"
| "allocateKeys sha256 str a hostCount (key # keys) claimed result =
     and_then (allocateWithClaimed sha256 str a key hostCount claimed) (\<lambda>ip.
       allocateKeys sha256 str a hostCount keys (AList.update (str ip) ip claimed) (AList.update key ip result))"

definition AllocateAll ::
    "(bytes \<Rightarrow> bytes) \<Rightarrow> (IP \<Rightarrow> string) \<Rightarrow> Allocator \<Rightarrow> string list \<Rightarrow> (ipam_error, (string \<times> IP) list) res" where
  "AllocateAll sha256 str a pubKeys =
     (let hostCount = int (length pubKeys)
      in if hostCount = 0 then ok []
         else guard (hostCount > usableHosts a) (HostCountHigh hostCount (usableHosts a))
              (allocateKeys sha256 str a hostCount (sort pubKeys) [] []))"

definition ResolveConflict :: "string \<Rightarrow> string \<Rightarrow> bool" where
  "ResolveConflict selfPubKey peerPubKey \<longleftrightarrow> peerPubKey < selfPubKey"

section \<open>Host numbers and addresses\<close>

lemma length_addCarry [simp]: "length (addCarry bs c) = length bs"
  by (induction bs arbitrary: c) (auto simp: Let_def)

lemma addCarry_value: "be_nat (rev (addCarry bs c)) = (be_nat (rev bs) + c) mod 256 ^ length bs"
proof (induction bs arbitrary: c)
  case (Cons b bs)
  let ?v = "unat b + c" and ?B = "be_nat (rev bs)"
  have B: "?B < 256 ^ length bs" using be_nat_less [of "rev bs"] by simp
  show ?case
  proof (cases "c > 0")
    case True
    have "unat (of_nat (?v mod 256) :: byte) = ?v mod 256" by (simp add: unat_of_nat take_bit_eq_mod)
    then have "be_nat (rev (addCarry (b # bs) c)) = ((?B + ?v div 256) mod 256 ^ length bs) * 256 + ?v mod 256"
      using True by (simp add: be_nat_snoc Cons Let_def)
    also have "\<dots> = (256 * (?B + ?v div 256) + ?v mod 256) mod (256 * 256 ^ length bs)"
      by (simp add: mod_mult2_eq)
    also have "256 * (?B + ?v div 256) + ?v mod 256 = 256 * ?B + ?v" by simp
    finally show ?thesis by (simp add: be_nat_snoc algebra_simps)
  next
    case False
    have "be_nat (rev (b # bs)) < 256 ^ length (b # bs)" using be_nat_less [of "rev (b # bs)"] by simp
    with False show ?thesis by simp
  qed
qed simp

lemma masked_byte_dvd: "ones < 8 \<Longrightarrow> 2 ^ (8 - ones) dvd unat (and a (not (drop_bit ones (255 :: byte))))"
proof -
  assume o: "ones < 8"
  have m: "(255 :: byte) = mask 8" by (simp add: mask_eq_exp_minus_1)
  have "take_bit (8 - ones) (and a (not (drop_bit ones (255 :: byte)))) = 0"
    unfolding m by (rule bit_eqI) (use o in \<open>auto simp: bit_simps\<close>)
  then have "take_bit (8 - ones) (unat (and a (not (drop_bit ones (255 :: byte))))) = 0"
    by (metis unsigned_0 unsigned_take_bit_eq)
  then show ?thesis by (simp add: take_bit_eq_0_iff)
qed

lemma masked_dvd:
  "ones \<le> 8 * length as \<Longrightarrow> 2 ^ (8 * length as - ones) dvd be_nat (map2 and as (CIDRMask_bytes ones (length as)))"
proof (induction as arbitrary: ones)
  case (Cons a as)
  let ?l = "length as"
  have pw: "(256 :: nat) ^ ?l = 2 ^ (8 * ?l)" by (simp add: power_mult)
  show ?case
  proof (cases "ones \<ge> 8")
    case True
    have "2 ^ (8 * ?l - (ones - 8)) dvd unat a * 2 ^ (8 * ?l)" by (intro dvd_mult le_imp_power_dvd) simp
    moreover have "8 * length (a # as) - ones = 8 * ?l - (ones - 8)" using True by simp
    moreover have "(255 :: byte) = - 1" by simp
    then have "and a 255 = a" by (simp only: and.right_neutral)
    ultimately show ?thesis using Cons.IH [of "ones - 8"] Cons.prems True by (simp add: pw)
  next
    case False
    have e: "8 * length (a # as) - ones = (8 - ones) + 8 * ?l" using False by simp
    have "be_nat (replicate ?l 0) = 0" by (induction as) simp_all
    then have "be_nat (map2 and (a # as) (CIDRMask_bytes ones (length (a # as))))
      = unat (and a (not (drop_bit ones (255 :: byte)))) * 2 ^ (8 * ?l)"
      using False by (simp add: CIDRMask_zero zip_replicate2 comp_def map_replicate_const pw)
    then show ?thesis
      unfolding e power_add using masked_byte_dvd [of ones a] False by (simp only:) (intro mult_dvd_mono, auto)
  qed
qed simp

definition alloc_ok :: "Allocator \<Rightarrow> bool" where
  "alloc_ok a \<longleftrightarrow> wf_net (alloc_subnet a) \<and> 1 \<le> hostBits a \<and> hostBits a \<le> 8 * length (net_IP (alloc_subnet a)) \<and>
     net_Mask (alloc_subnet a) =
       CIDRMask_bytes (8 * length (net_IP (alloc_subnet a)) - hostBits a) (length (net_IP (alloc_subnet a))) \<and>
     usableHosts a = (if hostBits a \<ge> 2 then 2 ^ hostBits a - 2 else 2 ^ hostBits a)"

lemma NewAllocator_ok:
  assumes "\<And>n. parseCIDR s = Some n \<Longrightarrow> wf_net n" "NewAllocator parseCIDR s = ok a"
  shows "alloc_ok a"
proof -
  obtain n where n: "parseCIDR s = Some n" using assms(2) by (auto simp: NewAllocator_def split: option.splits)
  let ?l = "length (net_IP n)"
  obtain ones where o: "ones \<le> 8 * ?l" "net_Mask n = CIDRMask ones (8 * ?l)" "?l = 4 \<or> ?l = 16"
    using assms(1) [OF n] by (auto simp: wf_net_def)
  have tb: "signed_take_bit 63 (2 ^ hb :: int) = (if hb < 63 then 2 ^ hb else - (2 ^ 63))" if "hb \<le> 63" for hb
  proof (cases "hb < 63")
    case True
    then have "(2 :: int) ^ hb < 2 ^ 63" by (intro power_strict_increasing) auto
    moreover have "- (2 ^ 63) \<le> (2 :: int) ^ hb" by (rule order_trans [of _ 0]) simp_all
    ultimately show ?thesis using True by (simp add: signed_take_bit_int_eq_self)
  next
    case False
    then have "hb = 63" using that by simp
    moreover have "signed_take_bit 63 (2 ^ 63 :: int) = - (2 ^ 63)" by code_simp
    ultimately show ?thesis by simp
  qed
  define hb where "hb = 8 * ?l - ones"
  have "Mask_Size (net_Mask n) = (ones, 8 * ?l)" using o by simp
  then have a: "hb \<le> 63" "2 \<le> signed_take_bit 63 (2 ^ hb :: int)"
    "a = \<lparr>alloc_subnet = n, hostBits = hb,
      usableHosts = (if hb \<ge> 2 then signed_take_bit 63 (2 ^ hb) - 2 else signed_take_bit 63 (2 ^ hb))\<rparr>"
    using assms(2) n by (auto simp: NewAllocator_def Let_def res_iffs hb_def split: if_splits)
  have "hb < 63" using a(2) tb [OF a(1)] by (auto split: if_splits)
  moreover have "1 \<le> hb" using a(2) tb [OF a(1)] by (cases hb) auto
  moreover have "8 * ?l - hb = ones" using o(1) by (simp add: hb_def)
  ultimately show ?thesis using a tb o assms(1) [OF n] by (simp add: alloc_ok_def CIDRMask_def hb_def)
qed

lemma hostNumberToIP_value:
  assumes "alloc_ok a" "hostNumberToIP a h = Some ip"
  defines "net \<equiv> net_IP (alloc_subnet a)" and "off \<equiv> nat (if hostBits a \<ge> 2 then h else h - 1)"
  shows "1 \<le> h" "h \<le> usableHosts a" "length ip = length net" "be_nat ip = be_nat net + off" "off < 2 ^ hostBits a"
    "2 ^ hostBits a dvd be_nat net" "be_nat ip < 256 ^ length net"
proof -
  have net4: "(case To4 net of Some x \<Rightarrow> x | None \<Rightarrow> net) = net"
    using assms(1) by (auto simp: alloc_ok_def wf_net_def To4_def net_def)
  show h: "1 \<le> h" "h \<le> usableHosts a" using assms(2) by (auto simp: hostNumberToIP_def split: if_splits)
  have ip: "ip = rev (addCarry (rev net) off)"
    using assms(2) h net4 [unfolded net_def] unfolding off_def net_def by (simp add: hostNumberToIP_def Let_def)
  show "length ip = length net" by (simp add: ip)
  show off: "off < 2 ^ hostBits a" using h assms(1) by (auto simp: off_def alloc_ok_def nat_less_iff split: if_splits)
  have b: "hostBits a \<le> 8 * length net" "map2 and net (net_Mask (alloc_subnet a)) = net"
    "net_Mask (alloc_subnet a) = CIDRMask_bytes (8 * length net - hostBits a) (length net)"
    using assms(1) unfolding alloc_ok_def net_def wf_net_def by blast+
  show dvd: "2 ^ hostBits a dvd be_nat net"
    using masked_dvd [of "8 * length net - hostBits a" net] b by simp
  have pw: "(256 :: nat) ^ length net = 2 ^ hostBits a * 2 ^ (8 * length net - hostBits a)"
    using b(1) by (simp add: power_mult flip: power_add)
  obtain q where q: "be_nat net = 2 ^ hostBits a * q" using dvd by (elim dvdE)
  have "q < 2 ^ (8 * length net - hostBits a)" using be_nat_less [of net] unfolding pw q by simp
  then have "2 ^ hostBits a * (q + 1) \<le> 2 ^ hostBits a * 2 ^ (8 * length net - hostBits a)" by (intro mult_le_mono2) simp
  then have lt: "be_nat net + off < 256 ^ length net" using off unfolding pw q by simp
  then show "be_nat ip = be_nat net + off" "be_nat ip < 256 ^ length net" using addCarry_value [of "rev net" off] by (simp_all add: ip)
qed

lemma hostNumberToIP_defined: "1 \<le> h \<Longrightarrow> h \<le> usableHosts a \<Longrightarrow> \<exists>ip. hostNumberToIP a h = Some ip"
  by (auto simp: hostNumberToIP_def Let_def)

lemma hostNumberToIP_inj:
  assumes "alloc_ok a" "hostNumberToIP a h = Some ip" "hostNumberToIP a h' = Some ip"
  shows "h = h'"
  using hostNumberToIP_value [OF assms(1,2)] hostNumberToIP_value [OF assms(1,3)] by (auto split: if_splits)

lemma hostNumberToIP_contained:
  assumes "alloc_ok a" "hostNumberToIP a h = Some ip" "length (net_IP (alloc_subnet a)) = 4"
  shows "Contains (alloc_subnet a) ip"
proof -
  let ?net = "net_IP (alloc_subnet a)" and ?hb = "hostBits a"
  note v = hostNumberToIP_value [OF assms(1,2)]
  have b: "?hb \<le> 32" "net_Mask (alloc_subnet a) = CIDRMask_bytes (32 - ?hb) 4"
    using assms(1,3) by (simp_all add: alloc_ok_def)
  have "be_nat ip div 2 ^ ?hb = be_nat ?net div 2 ^ ?hb" using v(4,5,6) by (auto simp: div_plus_div_distrib_dvd_left)
  then have "map2 and ip (CIDRMask_bytes (32 - ?hb) 4) = map2 and ?net (CIDRMask_bytes (32 - ?hb) 4)"
    using masked_eq_of_div [of ip ?net "32 - ?hb"] v(3) assms(3) b(1) by simp
  then show ?thesis using v(3) assms(3) b by (simp add: Contains_def networkNumberAndMask_def To4_def Let_def)
qed

lemma hostNumberToIP_host:
  assumes "alloc_ok a" "hostNumberToIP a h = Some ip" "2 \<le> hostBits a"
  shows "be_nat (net_IP (alloc_subnet a)) < be_nat ip"
    "be_nat ip < be_nat (net_IP (alloc_subnet a)) + 2 ^ hostBits a - 1"
proof -
  note v = hostNumberToIP_value [OF assms(1,2)]
  have "int (nat h + 2) \<le> int (2 ^ hostBits a)" using v(1,2) assms(1,3) by (simp add: alloc_ok_def)
  then have "nat h + 2 \<le> 2 ^ hostBits a" by (simp only: of_nat_le_iff)
  then show "be_nat (net_IP (alloc_subnet a)) < be_nat ip"
    "be_nat ip < be_nat (net_IP (alloc_subnet a)) + 2 ^ hostBits a - 1"
    using v(1,4) assms(3) by simp_all
qed

section \<open>The assignment\<close>

lemma hashToSlot_range: "0 < n \<Longrightarrow> 0 \<le> hashToSlot sha256 k s n \<and> hashToSlot sha256 k s n < n"
  by (simp add: hashToSlot_def Let_def)

lemma saltLoop_cong:
  "(\<And>c. tk c = tk' c) \<Longrightarrow> saltLoop sha256 tk a k n salts = saltLoop sha256 tk' a k n salts"
  by (induction salts) (auto split: option.splits)

lemma saltLoop_ok:
  assumes "saltLoop sha256 tk a k n salts = ok ip" "0 < n"
  shows "tk ip" "\<exists>h. 1 \<le> h \<and> h \<le> n \<and> hostNumberToIP a h = Some ip"
proof -
  have "tk ip \<and> (\<exists>h. 1 \<le> h \<and> h \<le> n \<and> hostNumberToIP a h = Some ip)" using assms(1)
  proof (induction salts)
    case (Cons s salts)
    show ?case
    proof (cases "hostNumberToIP a (hashToSlot sha256 k s n + 1)")
      case (Some c)
      then show ?thesis
        using Cons hashToSlot_range [OF assms(2), of sha256 k s]
        by (cases "tk c") (auto intro!: exI [of _ "hashToSlot sha256 k s n + 1"])
    qed (use Cons in simp)
  qed simp
  then show "tk ip" "\<exists>h. 1 \<le> h \<and> h \<le> n \<and> hostNumberToIP a h = Some ip" by blast+
qed

abbreviation salts :: "nat list" where
  "salts \<equiv> [0..<Suc MaxSaltIterations]"

definition below :: "(IP \<Rightarrow> string) \<Rightarrow> (string \<times> IP) list \<Rightarrow> string \<Rightarrow> string set" where
  \<comment> \<open>the addresses held by smaller keys\<close>
  "below str m k = {str (snd p) |p. p \<in> set m \<and> fst p < k}"

lemma update_new: "k \<notin> fst ` set al \<Longrightarrow> AList.update k v al = al @ [(k, v)]"
  by (induction al) auto

lemma allocateKeys_ok:
  assumes "allocateKeys sha256 str a n keys claimed result = ok m"
    and "sorted keys" "distinct keys" "\<forall>x\<in>fst ` set result. \<forall>k\<in>set keys. x < k"
    and "fst ` set claimed = (\<lambda>p. str (snd p)) ` set result"
  shows "\<exists>ips. length ips = length keys \<and> m = result @ zip keys ips \<and>
    (\<forall>p\<in>set (zip keys ips). saltLoop sha256 (\<lambda>c. str c \<notin> below str m (fst p)) a (fst p) n salts = ok (snd p))"
  using assms
proof (induction keys arbitrary: claimed result)
  case (Cons k keys)
  obtain ip where ip: "allocateWithClaimed sha256 str a k n claimed = ok ip"
    and rest: "allocateKeys sha256 str a n keys (AList.update (str ip) ip claimed) (AList.update k ip result) = ok m"
    using Cons.prems(1) by (auto simp: res_iffs)
  have up: "AList.update k ip result = result @ [(k, ip)]" using Cons.prems(4) by (intro update_new) auto
  have lt: "\<forall>j\<in>set keys. k < j" using Cons.prems(2,3) by (auto simp: order_less_le)
  obtain ips where ips: "length ips = length keys" "m = (result @ [(k, ip)]) @ zip keys ips"
    "\<forall>p\<in>set (zip keys ips). saltLoop sha256 (\<lambda>c. str c \<notin> below str m (fst p)) a (fst p) n salts = ok (snd p)"
    using Cons.IH [OF rest] Cons.prems(2-5) lt unfolding up by (auto simp: image_Un dom_update)
  have "{p \<in> set m. fst p < k} = set result"
    using lt Cons.prems(4) unfolding ips(2) by (fastforce dest!: set_zip_leftD)
  then have "below str m k = fst ` set claimed" unfolding Cons.prems(5) below_def by blast
  then have "saltLoop sha256 (\<lambda>c. str c \<notin> below str m k) a k n salts = ok ip"
    using ip unfolding allocateWithClaimed_def by (simp add: map_of_eq_None_iff cong: saltLoop_cong)
  then show ?case using ips by (intro exI [of _ "ip # ips"]) auto
qed simp

lemma AllocateAll_ok:
  assumes "AllocateAll sha256 str a keys = ok m" "distinct keys"
  shows "map fst m = sort keys" "int (length keys) \<le> usableHosts a \<or> keys = []"
    "\<forall>p\<in>set m. saltLoop sha256 (\<lambda>c. str c \<notin> below str m (fst p)) a (fst p) (int (length keys)) salts = ok (snd p)"
proof -
  have "map fst m = sort keys \<and> (int (length keys) \<le> usableHosts a \<or> keys = []) \<and>
    (\<forall>p\<in>set m. saltLoop sha256 (\<lambda>c. str c \<notin> below str m (fst p)) a (fst p) (int (length keys)) salts = ok (snd p))"
  proof (cases "keys = []")
    case True
    then show ?thesis using assms(1) by (simp add: AllocateAll_def)
  next
    case False
    then have "int (length keys) \<le> usableHosts a" "allocateKeys sha256 str a (int (length keys)) (sort keys) [] [] = ok m"
      using assms(1) by (auto simp: AllocateAll_def Let_def res_iffs split: if_splits)
    with allocateKeys_ok [OF this(2)] assms(2) show ?thesis by auto
  qed
  then show "map fst m = sort keys" "int (length keys) \<le> usableHosts a \<or> keys = []"
    "\<forall>p\<in>set m. saltLoop sha256 (\<lambda>c. str c \<notin> below str m (fst p)) a (fst p) (int (length keys)) salts = ok (snd p)"
    by blast+
qed

lemma AllocateAll_distinct:
  assumes "AllocateAll sha256 str a keys = ok m" "distinct keys"
  shows "distinct (map snd m)"
proof -
  note A = AllocateAll_ok [OF assms]
  have d: "distinct (map fst m)" using assms(2) by (simp add: A(1))
  have len: "length m = length keys" by (metis A(1) length_map length_sort)
  have "snd p \<noteq> snd q" if "p \<in> set m" "q \<in> set m" "fst p < fst q" for p q
  proof -
    have "0 < int (length keys)" using that len by (cases m) auto
    then have "str (snd q) \<notin> below str m (fst q)" using A(3) that(2) saltLoop_ok(1) by blast
    then show ?thesis using that by (cases p) (auto simp: below_def)
  qed
  then have "inj_on snd (set m)"
    using d by (intro inj_onI) (metis distinct_map inj_onD linorder_less_linear)
  then show ?thesis using d by (simp add: distinct_map)
qed

lemma AllocateAll_hosts:
  assumes "alloc_ok a" "AllocateAll sha256 str a keys = ok m" "distinct keys"
  shows "snd ` set m = {ip. \<exists>h\<in>{1..int (length keys)}. hostNumberToIP a h = Some ip}"
proof (cases "keys = []")
  case True
  then show ?thesis using assms(2) by (simp add: AllocateAll_def)
next
  case False
  let ?n = "int (length keys)" and ?H = "\<lambda>h. the (hostNumberToIP a h)"
  note A = AllocateAll_ok [OF assms(2,3)]
  have u: "?n \<le> usableHosts a" using A(2) False by simp
  have img: "{ip. \<exists>h\<in>{1..?n}. hostNumberToIP a h = Some ip} = ?H ` {1..?n}"
    using hostNumberToIP_defined [of _ a] u by (force simp: image_iff)
  have sub: "snd ` set m \<subseteq> ?H ` {1..?n}"
    using A(3) False saltLoop_ok(2) unfolding img [symmetric] by fastforce
  have "card (snd ` set m) = length keys"
    using AllocateAll_distinct [OF assms(2,3)] A(1) by (metis distinct_card length_map length_sort list.set_map)
  moreover have "card (?H ` {1..?n}) \<le> length keys" using card_image_le [of "{1..?n}" ?H] by simp
  ultimately show ?thesis unfolding img using card_seteq [OF _ sub] by simp
qed

text \<open>
  C31. The nodes agree on a collision-free assignment. For a subnet parsed by \<open>ParseCIDR\<close>: whatever
  order a node learned the distinct public keys in, \<open>AllocateAll\<close> gives the same result; when it
  succeeds it assigns every key one address, no two keys the same one, all of them inside the IPv4
  subnet and none of them the network or the broadcast address, and \<open>n\<close> nodes occupy exactly the first
  \<open>n\<close> host numbers.
\<close>

theorem ipam_assignment:
  assumes "\<And>n. parseCIDR s = Some n \<Longrightarrow> wf_net n" "NewAllocator parseCIDR s = ok a" "length (net_IP (alloc_subnet a)) = 4"
    and "distinct keys" "mset keys' = mset keys" "AllocateAll sha256 str a keys = ok m"
  shows "AllocateAll sha256 str a keys' = ok m \<and> set (map fst m) = set keys \<and> distinct (map fst m) \<and> distinct (map snd m) \<and>
    snd ` set m = {ip. \<exists>h\<in>{1..int (length keys)}. hostNumberToIP a h = Some ip} \<and>
    (\<forall>ip\<in>snd ` set m. Contains (alloc_subnet a) ip \<and> (2 \<le> hostBits a \<longrightarrow>
      be_nat (net_IP (alloc_subnet a)) < be_nat ip \<and> be_nat ip < be_nat (net_IP (alloc_subnet a)) + 2 ^ hostBits a - 1))"
proof -
  have ok: "alloc_ok a" using assms(1,2) by (rule NewAllocator_ok)
  have "length keys' = length keys" "sort keys' = sort keys"
    using assms(5) mset_eq_length [of keys' keys] properties_for_sort [of "sort keys" keys'] by simp_all
  then have "AllocateAll sha256 str a keys' = ok m" using assms(6) by (simp only: AllocateAll_def)
  moreover have "map fst m = sort keys" using AllocateAll_ok(1) [OF assms(6,4)] .
  then have "set (map fst m) = set keys" "distinct (map fst m)" using assms(4) by auto
  moreover note AllocateAll_distinct [OF assms(6,4)] AllocateAll_hosts [OF ok assms(6,4)]
  ultimately show ?thesis
    using hostNumberToIP_contained [OF ok _ assms(3)] hostNumberToIP_host [OF ok] by auto
qed

text \<open>
  C32. The assignment is stable under conflict resolution. If every node holds the address that
  \<open>AllocateAll\<close> gives it, then a node that runs the pairwise protocol \<open>AllocateWithPeers\<close> against the
  addresses of all the others, with whichever smaller and larger keys among them, computes its own
  address again: the assignment is a fixed point of the protocol.
\<close>

theorem ipam_fixed_point:
  assumes "distinct keys" "AllocateAll sha256 str a keys = ok m" "(k, ip) \<in> set m"
  shows "AllocateWithPeers sha256 str a k (int (length keys)) (AList.delete k m) = ok ip"
proof -
  note A = AllocateAll_ok [OF assms(2,1)]
  have n: "1 \<le> int (length keys)" "int (length keys) \<le> usableHosts a"
    using A(1,2) assms(3) by (cases keys; force simp: AllocateAll_def)+
  have "mustYield str k c (AList.delete k m) \<longleftrightarrow> str c \<in> below str m k" for c
    unfolding mustYield_def below_def set_alist_delete by (auto; metis order_less_irrefl)
  moreover have "str c \<in> below str m k \<Longrightarrow> str c \<in> (\<lambda>p. str (snd p)) ` set (AList.delete k m)" for c
    by (force simp: below_def set_alist_delete)
  ultimately have "saltLoop sha256 (\<lambda>c. str c \<notin> set (map (\<lambda>p. str (snd p)) (AList.delete k m)) \<or>
      \<not> mustYield str k c (AList.delete k m)) a k (int (length keys)) salts = ok ip"
    using A(3) assms(3) by (subst saltLoop_cong [where tk' = "\<lambda>c. str c \<notin> below str m k"]) (force, force)
  moreover have "keys \<noteq> []" using n(1) by auto
  ultimately show ?thesis using n by (simp add: AllocateWithPeers_def Let_def)
qed

definition toySum :: "bytes \<Rightarrow> bytes" where
  "toySum bs = [sum_list bs, 0, 0, 0, 0, 0, 0, 0]"

definition toyText :: "IP \<Rightarrow> string" where
  "toyText ip = map (\<lambda>b. char_of (unat b)) ip"

definition toyNet :: IPNet where
  "toyNet = \<lparr>net_IP = [10, 0, 0, 0], net_Mask = CIDRMask 29 32\<rparr>"

definition toyAlloc :: Allocator where
  "toyAlloc = \<lparr>alloc_subnet = toyNet, hostBits = 3, usableHosts = 6\<rparr>"

lemma toyNet_wf: "wf_net toyNet"
proof -
  have "CIDRMask 29 32 = [255, 255, 255, 248]" by code_simp
  then show ?thesis by (auto simp: wf_net_def toyNet_def intro!: exI [of _ 29])
qed

lemma toyAlloc_new: "NewAllocator (\<lambda>_. Some toyNet) s = ok toyAlloc"
proof -
  have "signed_take_bit 63 8 = (8 :: int)" by (rule signed_take_bit_int_eq_self) simp_all
  then show ?thesis
    using Mask_Size_CIDRMask [of 29 4] by (simp add: NewAllocator_def toyNet_def toyAlloc_def guard_def Let_def)
qed

lemma toySlots:
  "hashToSlot toySum ''a'' 0 2 = 1" "hashToSlot toySum ''c'' 0 2 = 1" "hashToSlot toySum ''c'' (Suc 0) 2 = 0"
  "hostNumberToIP toyAlloc 1 = Some [10, 0, 0, 1]" "hostNumberToIP toyAlloc 2 = Some [10, 0, 0, 2]"
  by code_simp+

lemma toyAlloc_all:
  "AllocateAll toySum toyText toyAlloc [''c'', ''a''] = ok [(''a'', [10, 0, 0, 2]), (''c'', [10, 0, 0, 1])]"
proof -
  have "salts = 0 # 1 # [2..<Suc MaxSaltIterations]"
    by (simp add: MaxSaltIterations_def upt_conv_Cons [of 0] upt_conv_Cons [of "Suc 0"] numeral_2_eq_2 del: upt_Suc)
  moreover have "usableHosts toyAlloc = 6" by (simp add: toyAlloc_def)
  ultimately show ?thesis
    by (simp add: AllocateAll_def allocateWithClaimed_def toySlots toyText_def Let_def del: upt_Suc)
qed

theorem ipam_assignment_witness:
  "AllocateAll toySum toyText toyAlloc [''a'', ''c''] = ok [(''a'', [10, 0, 0, 2]), (''c'', [10, 0, 0, 1])] \<and>
   Contains toyNet [10, 0, 0, 1] \<and> Contains toyNet [10, 0, 0, 2]"
proof -
  have sub: "alloc_subnet toyAlloc = toyNet" "length (net_IP toyNet) = 4" by (simp_all add: toyAlloc_def toyNet_def)
  have "mset [''a'', ''c''] = mset [''c'', ''a'']" by simp
  from ipam_assignment [of "\<lambda>_. Some toyNet" "''n''", OF _ toyAlloc_new _ _ this toyAlloc_all] toyNet_wf
  show ?thesis by (simp add: sub)
qed

theorem ipam_fixed_point_witness:
  "AllocateWithPeers toySum toyText toyAlloc ''c'' 2 [(''a'', [10, 0, 0, 2])] = ok [10, 0, 0, 1] \<and>
   AllocateWithPeers toySum toyText toyAlloc ''a'' 2 [(''c'', [10, 0, 0, 1])] = ok [10, 0, 0, 2]"
  using ipam_fixed_point [OF _ toyAlloc_all, of "''c''" "[10, 0, 0, 1]"] ipam_fixed_point [OF _ toyAlloc_all, of "''a''" "[10, 0, 0, 2]"]
  by simp

text \<open>
  Because the slots number as many as the nodes, a node may find no free slot although the subnet is
  almost empty: with a hash that sends both keys of two nodes to one slot the second allocation fails
  whatever the size of the subnet.
\<close>

lemma allocation_fails_in_empty_subnet:
  assumes "\<And>k s. hashToSlot sha256 k s 2 = 0" "2 \<le> usableHosts a" "k < k'"
  shows "AllocateAll sha256 str a [k, k'] = err NoFreeSlot"
proof -
  obtain ip where ip: "hostNumberToIP a 1 = Some ip" using hostNumberToIP_defined [of 1 a] assms(2) by auto
  have all: "saltLoop sha256 tk a j 2 ss = (if tk ip \<and> ss \<noteq> [] then ok ip else err NoFreeSlot)" for tk j ss
    by (induction ss) (auto simp: assms(1) ip)
  show ?thesis
    using assms(2,3) by (auto simp: AllocateAll_def allocateWithClaimed_def all Let_def not_le)
qed

end
