(* ===== verification/Routing_Table.thy ===== *)
theory Routing_Table
  imports Prelude
begin

text \<open>
  The peer table of the mesh (\<open>src/internal/mesh/routing.go\<close>): addresses to peer identifiers and
  identifiers to entries, with the callbacks for joining and leaving peers. A callback is modelled by
  whether one is installed; the calls it receives are an output.
\<close>

record PeerEntry =
  pe_ID :: string
  Endpoint :: string
  AllowedIPs :: "string list"

record RoutingTable =
  rt_routes :: "(string \<times> string) list"
  rt_peers :: "(string \<times> PeerEntry) list"
  rt_joinCB :: bool
  rt_leaveCB :: bool

definition NewRoutingTable :: RoutingTable where
  "NewRoutingTable = \<lparr>rt_routes = [], rt_peers = [], rt_joinCB = False, rt_leaveCB = False\<rparr>"

definition SetJoinCallback :: "bool \<Rightarrow> RoutingTable \<Rightarrow> RoutingTable" where
  "SetJoinCallback cb rt = rt\<lparr>rt_joinCB := cb\<rparr>"

definition SetLeaveCallback :: "bool \<Rightarrow> RoutingTable \<Rightarrow> RoutingTable" where
  "SetLeaveCallback cb rt = rt\<lparr>rt_leaveCB := cb\<rparr>"

definition AddPeer :: "PeerEntry \<Rightarrow> RoutingTable \<Rightarrow> PeerEntry list \<times> RoutingTable" where
  \<comment> \<open>the first result are the calls of the join callback\<close>
  "AddPeer peer rt =
     (let (isNew, rts) = (case map_of (rt_peers rt) (pe_ID peer) of
                            None \<Rightarrow> (True, rt_routes rt)
                          | Some existing \<Rightarrow> (False, fold AList.delete (AllowedIPs existing) (rt_routes rt)))
      in (if isNew \<and> rt_joinCB rt then [peer] else [],
          rt\<lparr>rt_peers := AList.update (pe_ID peer) peer (rt_peers rt),
             rt_routes := fold (\<lambda>ip. AList.update ip (pe_ID peer)) (AllowedIPs peer) rts\<rparr>))"

definition RemovePeer :: "string \<Rightarrow> RoutingTable \<Rightarrow> string list \<times> RoutingTable" where
  "RemovePeer peerID rt =
     (case map_of (rt_peers rt) peerID of
        None \<Rightarrow> ([], rt)
      | Some peer \<Rightarrow> (if rt_leaveCB rt then [peerID] else [],
                      rt\<lparr>rt_routes := fold AList.delete (AllowedIPs peer) (rt_routes rt),
                         rt_peers := AList.delete peerID (rt_peers rt)\<rparr>))"

definition ResolveRoute :: "string \<Rightarrow> RoutingTable \<Rightarrow> string option" where
  "ResolveRoute meshIP rt = map_of (rt_routes rt) meshIP"

definition GetPeer :: "string \<Rightarrow> RoutingTable \<Rightarrow> PeerEntry option" where
  "GetPeer peerID rt = map_of (rt_peers rt) peerID"

definition AllPeers :: "RoutingTable \<Rightarrow> PeerEntry list" where
  "AllPeers rt = map snd (rt_peers rt)"

definition PeerCount :: "RoutingTable \<Rightarrow> nat" where
  "PeerCount rt = length (rt_peers rt)"

definition ResolvePeerByIP :: "string \<Rightarrow> RoutingTable \<Rightarrow> PeerEntry option" where
  "ResolvePeerByIP meshIP rt = (case ResolveRoute meshIP rt of None \<Rightarrow> None | Some pid \<Rightarrow> GetPeer pid rt)"

section \<open>Lookups\<close>

lemma fold_delete: "map_of (fold AList.delete xs al) k = (if k \<in> set xs then None else map_of al k)"
  by (induction xs arbitrary: al) (auto simp: delete_conv')

lemma fold_update: "map_of (fold (\<lambda>x. AList.update x v) xs al) k = (if k \<in> set xs then Some v else map_of al k)"
  by (induction xs arbitrary: al) (auto simp: update_conv')

definition exact_routes :: "RoutingTable \<Rightarrow> bool" where
  \<comment> \<open>an address routes to the peer that lists it\<close>
  "exact_routes rt \<longleftrightarrow> (\<forall>pid p. map_of (rt_peers rt) pid = Some p \<longrightarrow> pe_ID p = pid) \<and>
     (\<forall>ip pid. map_of (rt_routes rt) ip = Some pid \<longleftrightarrow> (\<exists>p. map_of (rt_peers rt) pid = Some p \<and> ip \<in> set (AllowedIPs p)))"

lemma AddPeer_exact:
  assumes "exact_routes rt"
    and "\<And>pid q. map_of (rt_peers rt) pid = Some q \<Longrightarrow> pid \<noteq> pe_ID p \<Longrightarrow> set (AllowedIPs q) \<inter> set (AllowedIPs p) = {}"
  shows "exact_routes (snd (AddPeer p rt))"
    "fst (AddPeer p rt) = (if map_of (rt_peers rt) (pe_ID p) = None \<and> rt_joinCB rt then [p] else [])"
proof -
  have "exact_routes (snd (AddPeer p rt)) \<and>
    fst (AddPeer p rt) = (if map_of (rt_peers rt) (pe_ID p) = None \<and> rt_joinCB rt then [p] else [])"
  proof (cases "map_of (rt_peers rt) (pe_ID p)")
    case None
    then show ?thesis
      using assms unfolding exact_routes_def by (auto simp: AddPeer_def update_conv' fold_update)
  next
    case (Some old)
    let ?rt = "snd (AddPeer p rt)"
    have rts: "map_of (rt_routes ?rt) ip = (if ip \<in> set (AllowedIPs p) then Some (pe_ID p)
        else if ip \<in> set (AllowedIPs old) then None else map_of (rt_routes rt) ip)" for ip
      using Some by (simp add: AddPeer_def fold_update fold_delete)
    have peers: "map_of (rt_peers ?rt) pid = (if pid = pe_ID p then Some p else map_of (rt_peers rt) pid)" for pid
      using Some by (simp add: AddPeer_def update_conv')
    have old: "map_of (rt_routes rt) ip = Some pid \<longleftrightarrow> (\<exists>q. map_of (rt_peers rt) pid = Some q \<and> ip \<in> set (AllowedIPs q))" for ip pid
      using assms(1) by (simp add: exact_routes_def)
    have "map_of (rt_routes ?rt) ip = Some pid \<longleftrightarrow> (\<exists>q. map_of (rt_peers ?rt) pid = Some q \<and> ip \<in> set (AllowedIPs q))" for ip pid
    proof (cases "pid = pe_ID p")
      case True
      then show ?thesis using old [of ip pid] Some by (simp add: rts peers)
    next
      case False
      then show ?thesis using old [of ip pid] old [of ip "pe_ID p"] Some assms(2) [of pid] by (auto simp: rts peers)
    qed
    then show ?thesis using assms(1) Some peers by (auto simp: exact_routes_def AddPeer_def)
  qed
  then show "exact_routes (snd (AddPeer p rt))"
    "fst (AddPeer p rt) = (if map_of (rt_peers rt) (pe_ID p) = None \<and> rt_joinCB rt then [p] else [])" by blast+
qed

text \<open>
  Where two peers list the same address, the removal of the first takes the route of the second.
\<close>

lemma RemovePeer_drops_taken_over_route:
  assumes "pe_ID p \<noteq> pe_ID q" "ip \<in> set (AllowedIPs p)" "ip \<in> set (AllowedIPs q)"
  defines "rt \<equiv> snd (AddPeer q (snd (AddPeer p NewRoutingTable)))"
  shows "ResolveRoute ip rt = Some (pe_ID q)"
    "ResolveRoute ip (snd (RemovePeer (pe_ID p) rt)) = None" "GetPeer (pe_ID q) (snd (RemovePeer (pe_ID p) rt)) = Some q"
  using assms
  by (simp_all add: ResolveRoute_def GetPeer_def AddPeer_def RemovePeer_def NewRoutingTable_def update_conv' delete_conv' fold_update fold_delete)

end
