(* ===== verification/Tun_Router.thy ===== *)
theory Tun_Router
  imports Net_Addr
begin

text \<open>
  The routing table of the TUN data path (\<open>src/internal/tun/router.go\<close>): two maps, from the text of a
  virtual address to a public key and back. \<open>str\<close> is the textual form of an address, under which
  addresses are looked up. The announcements of peers are an interface of their own: after any
  history of announcements, an address belongs to the peer that announced it last, unless that peer
  has moved since.
\<close>

section \<open>The table\<close>

record Router =
  ipToPeer :: "(string \<times> string) list"
  peerToIP :: "(string \<times> IP) list"
  r_localIP :: "IP option"
  r_localPubKey :: string
  r_subnet :: "IPNet option"

record PeerRoute =
  pr_PublicKey :: string
  pr_VirtualIP :: "IP option"

definition NewRouter :: "IPNet option \<Rightarrow> string \<Rightarrow> Router" where
  "NewRouter subnet localPubKey =
     \<lparr>ipToPeer = [], peerToIP = [], r_localIP = None, r_localPubKey = localPubKey, r_subnet = subnet\<rparr>"

definition SetLocalIP :: "(IP \<Rightarrow> string) \<Rightarrow> IP \<Rightarrow> Router \<Rightarrow> Router" where
  "SetLocalIP str ip r =
     (let ips = (case r_localIP r of
                   Some old \<Rightarrow> if str old \<noteq> str ip then AList.delete (str old) (ipToPeer r) else ipToPeer r
                 | None \<Rightarrow> ipToPeer r)
      in r\<lparr>r_localIP := Some ip, ipToPeer := AList.update (str ip) (r_localPubKey r) ips,
           peerToIP := AList.update (r_localPubKey r) ip (peerToIP r)\<rparr>)"

definition LocalIP :: "Router \<Rightarrow> IP option" where
  "LocalIP r = r_localIP r"

definition LocalPubKey :: "Router \<Rightarrow> string" where
  "LocalPubKey r = r_localPubKey r"

definition router_Subnet :: "Router \<Rightarrow> IPNet option" where
  "router_Subnet r = r_subnet r"

definition AddRoute :: "(IP \<Rightarrow> string) \<Rightarrow> IP \<Rightarrow> string \<Rightarrow> Router \<Rightarrow> Router" where
  "AddRoute str virtualIP pubKey r =
     (let ipStr = str virtualIP;
          ips = (case map_of (peerToIP r) pubKey of
                   Some oldIP \<Rightarrow> if str oldIP \<noteq> ipStr then AList.delete (str oldIP) (ipToPeer r) else ipToPeer r
                 | None \<Rightarrow> ipToPeer r);
          peers = (case map_of ips ipStr of
                     Some oldPeer \<Rightarrow> if oldPeer \<noteq> pubKey then AList.delete oldPeer (peerToIP r) else peerToIP r
                   | None \<Rightarrow> peerToIP r)
      in r\<lparr>ipToPeer := AList.update ipStr pubKey ips, peerToIP := AList.update pubKey virtualIP peers\<rparr>)"

definition RemoveRoute :: "(IP \<Rightarrow> string) \<Rightarrow> string \<Rightarrow> Router \<Rightarrow> IP option \<times> Router" where
  "RemoveRoute str pubKey r =
     (if pubKey = r_localPubKey r then (None, r)
      else case map_of (peerToIP r) pubKey of
             None \<Rightarrow> (None, r)
           | Some ip \<Rightarrow> (Some ip, r\<lparr>peerToIP := AList.delete pubKey (peerToIP r),
                                   ipToPeer := AList.delete (str ip) (ipToPeer r)\<rparr>))"

definition RemoveByIP :: "(IP \<Rightarrow> string) \<Rightarrow> IP \<Rightarrow> Router \<Rightarrow> (string \<times> bool) \<times> Router" where
  "RemoveByIP str virtualIP r =
     (case map_of (ipToPeer r) (str virtualIP) of
        None \<Rightarrow> (([], False), r)
      | Some pubKey \<Rightarrow>
          if pubKey = r_localPubKey r then ((pubKey, False), r)
          else ((pubKey, True), r\<lparr>ipToPeer := AList.delete (str virtualIP) (ipToPeer r),
                                  peerToIP := AList.delete pubKey (peerToIP r)\<rparr>))"

definition ResolveIP :: "(IP \<Rightarrow> string) \<Rightarrow> IP \<Rightarrow> Router \<Rightarrow> string option" where
  "ResolveIP str virtualIP r = map_of (ipToPeer r) (str virtualIP)"

definition ResolvePeer :: "string \<Rightarrow> Router \<Rightarrow> IP option" where
  "ResolvePeer pubKey r = map_of (peerToIP r) pubKey"

definition IsLocalIP :: "IP \<Rightarrow> Router \<Rightarrow> bool" where
  "IsLocalIP ip r = (case r_localIP r of None \<Rightarrow> False | Some l \<Rightarrow> IP_Equal l ip)"

definition IsInSubnet :: "IP \<Rightarrow> Router \<Rightarrow> bool" where
  "IsInSubnet ip r = (case r_subnet r of None \<Rightarrow> False | Some n \<Rightarrow> Contains n ip)"

definition IsSelf :: "string \<Rightarrow> Router \<Rightarrow> bool" where
  "IsSelf pubKey r \<longleftrightarrow> pubKey = r_localPubKey r"

definition RouteCount :: "Router \<Rightarrow> nat" where
  "RouteCount r = length (filter (\<lambda>p. fst p \<noteq> r_localPubKey r) (peerToIP r))"

definition AllRoutes :: "Router \<Rightarrow> (string \<times> string) list" where
  "AllRoutes r = ipToPeer r"

primrec syncPeers ::
    "(IP \<Rightarrow> string) \<Rightarrow> PeerRoute list \<Rightarrow> (string \<times> string) list \<Rightarrow> (string \<times> IP) list \<Rightarrow> (string \<times> string) list \<times> (string \<times> IP) list" where
  \<comment> \<open>the loop of \<open>SyncFromPeers\<close> that builds the new maps\<close>
  "syncPeers str [] newIPs newPeers = (newIPs, newPeers)"
| "syncPeers str (p # ps) newIPs newPeers =
     (case pr_VirtualIP p of
        None \<Rightarrow> syncPeers str ps newIPs newPeers
      | Some ip \<Rightarrow>
          if pr_PublicKey p = [] then syncPeers str ps newIPs newPeers
          else if map_of newIPs (str ip) = None
               then syncPeers str ps (AList.update (str ip) (pr_PublicKey p) newIPs) (AList.update (pr_PublicKey p) ip newPeers)
               else syncPeers str ps newIPs newPeers)"

definition SyncFromPeers :: "(IP \<Rightarrow> string) \<Rightarrow> PeerRoute list \<Rightarrow> Router \<Rightarrow> Router" where
  "SyncFromPeers str peers r =
     (let (newIPs, newPeers) = syncPeers str peers [] []
      in case r_localIP r of
           None \<Rightarrow> r\<lparr>ipToPeer := newIPs, peerToIP := newPeers\<rparr>
         | Some l \<Rightarrow> r\<lparr>ipToPeer := AList.update (str l) (r_localPubKey r) newIPs,
                       peerToIP := AList.update (r_localPubKey r) l newPeers\<rparr>)"

section \<open>The two maps are inverse\<close>

definition routes :: "(IP \<Rightarrow> string) \<Rightarrow> Router \<Rightarrow> (string \<times> string) set" where
  \<comment> \<open>the abstract state: which key holds which address\<close>
  "routes str r = {(k, str ip) |k ip. map_of (peerToIP r) k = Some ip}"

definition consistent :: "(IP \<Rightarrow> string) \<Rightarrow> Router \<Rightarrow> bool" where
  "consistent str r \<longleftrightarrow> routes str r = {(k, s). map_of (ipToPeer r) s = Some k}"

lemma consistentI:
  assumes "\<And>k ip. map_of (peerToIP r) k = Some ip \<Longrightarrow> map_of (ipToPeer r) (str ip) = Some k"
    and "\<And>s k. map_of (ipToPeer r) s = Some k \<Longrightarrow> \<exists>ip. map_of (peerToIP r) k = Some ip \<and> str ip = s"
  shows "consistent str r"
  unfolding consistent_def routes_def by (auto dest: assms)

lemma consistentD:
  assumes "consistent str r"
  shows "map_of (peerToIP r) k = Some ip \<Longrightarrow> map_of (ipToPeer r) (str ip) = Some k"
    "map_of (ipToPeer r) s = Some k \<Longrightarrow> \<exists>ip. map_of (peerToIP r) k = Some ip \<and> str ip = s"
  using assms unfolding consistent_def routes_def by (auto simp: set_eq_iff) metis

lemma routes_iff: "consistent str r \<Longrightarrow> (k, s) \<in> routes str r \<longleftrightarrow> map_of (ipToPeer r) s = Some k"
  by (simp add: consistent_def)

lemma AddRoute_holder:
  assumes "consistent str r"
  shows "map_of (ipToPeer (AddRoute str ip k r)) s =
    (if s = str ip then Some k else if map_of (ipToPeer r) s = Some k then None else map_of (ipToPeer r) s)"
  by (auto simp: AddRoute_def Let_def update_conv' delete_conv' dest: consistentD [OF assms] split: option.splits)

lemma AddRoute_refines:
  assumes "consistent str r"
  shows "consistent str (AddRoute str ip k r)"
    "routes str (AddRoute str ip k r) = insert (k, str ip) {(k', s). (k', s) \<in> routes str r \<and> k' \<noteq> k \<and> s \<noteq> str ip}"
proof -
  let ?r = "AddRoute str ip k r"
  note D = consistentD [OF assms]
  note ips = AddRoute_holder [OF assms, of ip k]
  have peers: "map_of (peerToIP ?r) j = (if j = k then Some ip else if map_of (ipToPeer r) (str ip) = Some j then None else map_of (peerToIP r) j)" for j
    by (auto simp: AddRoute_def Let_def update_conv' delete_conv' dest: D split: option.splits if_splits)
  show c: "consistent str ?r"
  proof (rule consistentI)
    fix j i assume "map_of (peerToIP ?r) j = Some i"
    then show "map_of (ipToPeer ?r) (str i) = Some j" using D unfolding ips peers by (auto split: if_splits) metis
  next
    fix s j assume "map_of (ipToPeer ?r) s = Some j"
    then show "\<exists>i. map_of (peerToIP ?r) j = Some i \<and> str i = s"
      using D unfolding ips peers by (auto split: if_splits) (metis option.inject)
  qed
  show "routes str ?r = insert (k, str ip) {(k', s). (k', s) \<in> routes str r \<and> k' \<noteq> k \<and> s \<noteq> str ip}"
    by (auto simp: routes_iff [OF c] routes_iff [OF assms] ips split: if_splits)
qed

lemma RemoveRoute_refines:
  assumes "consistent str r"
  shows "consistent str (snd (RemoveRoute str k r))"
    "routes str (snd (RemoveRoute str k r)) = (if k = r_localPubKey r then routes str r else {(k', s). (k', s) \<in> routes str r \<and> k' \<noteq> k})"
proof -
  let ?r = "snd (RemoveRoute str k r)"
  note D = consistentD [OF assms]
  have ips: "map_of (ipToPeer ?r) s = (if k \<noteq> r_localPubKey r \<and> map_of (ipToPeer r) s = Some k then None else map_of (ipToPeer r) s)" for s
    by (auto simp: RemoveRoute_def delete_conv' dest: D split: option.splits)
  have peers: "map_of (peerToIP ?r) j = (if k \<noteq> r_localPubKey r \<and> j = k then None else map_of (peerToIP r) j)" for j
    by (auto simp: RemoveRoute_def delete_conv' split: option.splits if_splits)
  show c: "consistent str ?r"
    by (rule consistentI) (use D in \<open>auto simp: ips peers split: if_splits\<close>)
  show "routes str ?r = (if k = r_localPubKey r then routes str r else {(k', s). (k', s) \<in> routes str r \<and> k' \<noteq> k})"
  proof (cases "k = r_localPubKey r")
    case True
    then show ?thesis by (simp add: RemoveRoute_def)
  next
    case False
    then show ?thesis using routes_iff [OF c] routes_iff [OF assms] by (auto simp: ips split: if_splits)
  qed
qed

lemma RemoveByIP_refines:
  assumes "consistent str r"
  shows "consistent str (snd (RemoveByIP str ip r))"
    "routes str (snd (RemoveByIP str ip r)) = {(k, s). (k, s) \<in> routes str r \<and> (s \<noteq> str ip \<or> k = r_localPubKey r)}"
proof -
  let ?r = "snd (RemoveByIP str ip r)"
  note D = consistentD [OF assms]
  have ips: "map_of (ipToPeer ?r) s =
      (if s = str ip \<and> map_of (ipToPeer r) s \<noteq> Some (r_localPubKey r) then None else map_of (ipToPeer r) s)" for s
    by (auto simp: RemoveByIP_def delete_conv' split: option.splits)
  have peers: "map_of (peerToIP ?r) j =
      (if j \<noteq> r_localPubKey r \<and> map_of (ipToPeer r) (str ip) = Some j then None else map_of (peerToIP r) j)" for j
    by (auto simp: RemoveByIP_def delete_conv' split: option.splits if_splits)
  show c: "consistent str ?r"
  proof (rule consistentI)
    fix j i assume "map_of (peerToIP ?r) j = Some i"
    then show "map_of (ipToPeer ?r) (str i) = Some j"
      using D(1) [of j i] unfolding ips peers by (auto split: if_splits)
  next
    fix s j assume "map_of (ipToPeer ?r) s = Some j"
    then show "\<exists>i. map_of (peerToIP ?r) j = Some i \<and> str i = s"
      using D(2) [of s j] D(2) [of "str ip" j] unfolding ips peers by (auto split: if_splits)
  qed
  show "routes str ?r = {(k, s). (k, s) \<in> routes str r \<and> (s \<noteq> str ip \<or> k = r_localPubKey r)}"
    using routes_iff [OF c] routes_iff [OF assms] by (auto simp: ips split: if_splits)
qed

lemma SetLocalIP_AddRoute:
  assumes "consistent str r" "\<And>k. map_of (ipToPeer r) (str ip) = Some k \<Longrightarrow> k = r_localPubKey r"
    and "\<And>old. r_localIP r = Some old \<Longrightarrow> map_of (peerToIP r) (r_localPubKey r) = Some old"
    and "r_localIP r = None \<Longrightarrow> map_of (peerToIP r) (r_localPubKey r) = None"
  shows "SetLocalIP str ip r = (AddRoute str ip (r_localPubKey r) r)\<lparr>r_localIP := Some ip\<rparr>"
  using assms(2-) by (cases "r_localIP r") (auto simp: SetLocalIP_def AddRoute_def Let_def delete_conv' split: option.splits)

section \<open>Announcements\<close>

locale announcements =
  fixes announce :: "'a \<Rightarrow> 'k \<Rightarrow> 't \<Rightarrow> 't" and holder :: "'s \<Rightarrow> 't \<Rightarrow> 'k option" and key :: "'a \<Rightarrow> 's" and inv :: "'t \<Rightarrow> bool"
  assumes announce_inv: "inv t \<Longrightarrow> inv (announce a k t)"
    and holder_announce: "inv t \<Longrightarrow>
      holder s (announce a k t) = (if s = key a then Some k else if holder s t = Some k then None else holder s t)"
begin

definition run :: "('a \<times> 'k) list \<Rightarrow> 't \<Rightarrow> 't" where
  "run evs t = fold (\<lambda>(a, k) t. announce a k t) evs t"

definition live :: "('a \<times> 'k) list \<Rightarrow> 's \<Rightarrow> 'k \<Rightarrow> bool" where
  \<comment> \<open>the peer announced the address, and since then neither was announced with another\<close>
  "live evs s k \<longleftrightarrow> (\<exists>pre a post. evs = pre @ (a, k) # post \<and> key a = s \<and> (\<forall>(b, j)\<in>set post. key b \<noteq> s \<and> j \<noteq> k))"

lemma run_inv: "inv t \<Longrightarrow> inv (run evs t)"
  unfolding run_def by (induction evs arbitrary: t) (auto simp: announce_inv)

lemma run_snoc: "run (evs @ [(a, k)]) t = announce a k (run evs t)"
  by (simp add: run_def)

lemma live_snoc:
  "live (evs @ [(a, k)]) s j \<longleftrightarrow> (if s = key a then j = k else if j = k then False else live evs s j)"
proof -
  have "live (evs @ [(a, k)]) s j \<longleftrightarrow> (s = key a \<and> j = k) \<or> (live evs s j \<and> key a \<noteq> s \<and> k \<noteq> j)"
  proof
    assume "live (evs @ [(a, k)]) s j"
    then obtain pre b post where e: "evs @ [(a, k)] = pre @ (b, j) # post" "key b = s" "\<forall>(b, i)\<in>set post. key b \<noteq> s \<and> i \<noteq> j"
      unfolding live_def by blast
    then show "(s = key a \<and> j = k) \<or> (live evs s j \<and> key a \<noteq> s \<and> k \<noteq> j)"
      by (cases post rule: rev_cases) (auto simp: live_def)
  next
    assume "(s = key a \<and> j = k) \<or> (live evs s j \<and> key a \<noteq> s \<and> k \<noteq> j)"
    then show "live (evs @ [(a, k)]) s j"
    proof
      assume "s = key a \<and> j = k"
      then show ?thesis unfolding live_def by (intro exI [of _ evs] exI [of _ a] exI [of _ "[]"]) simp
    next
      assume l: "live evs s j \<and> key a \<noteq> s \<and> k \<noteq> j"
      then obtain pre b post where "evs = pre @ (b, j) # post" "key b = s" "\<forall>(b, i)\<in>set post. key b \<noteq> s \<and> i \<noteq> j"
        unfolding live_def by blast
      with l show ?thesis unfolding live_def by (intro exI [of _ pre] exI [of _ b] exI [of _ "post @ [(a, k)]"]) auto
    qed
  qed
  then show ?thesis by auto
qed

lemma last_announcement_holds:
  assumes "inv t" "\<And>s. holder s t = None"
  shows "holder s (run evs t) = Some k \<longleftrightarrow> live evs s k"
proof (induction evs arbitrary: s k rule: rev_induct)
  case Nil
  then show ?case using assms(2) by (simp add: run_def live_def)
next
  case (snoc ev evs)
  obtain a j where "ev = (a, j)" by fastforce
  then show ?case using snoc run_inv [OF assms(1)] by (auto simp: run_snoc live_snoc holder_announce) (metis option.inject snoc.IH)
qed

end

interpretation tun_routes: announcements "AddRoute str" "\<lambda>s r. map_of (ipToPeer r) s" str "consistent str" for str
proof
  fix r a k s assume c: "consistent str r"
  show "consistent str (AddRoute str a k r)" by (rule AddRoute_refines(1) [OF c])
  show "map_of (ipToPeer (AddRoute str a k r)) s =
      (if s = str a then Some k else if map_of (ipToPeer r) s = Some k then None else map_of (ipToPeer r) s)"
    by (rule AddRoute_holder [OF c])
qed

lemma consistent_new: "consistent str (NewRouter n self)" "routes str (NewRouter n self) = {}"
  by (auto simp: consistent_def routes_def NewRouter_def)

section \<open>Properties\<close>



text \<open>
  After any history of announcements to a fresh table, an address resolves to a key exactly when that
  key announced it and neither the address nor the key was announced with another partner later.
\<close>

lemma tun_last_announcement:
  "ResolveIP str ip (fold (\<lambda>(a, k) r. AddRoute str a k r) evs (NewRouter n self)) = Some k \<longleftrightarrow>
   (\<exists>pre a post. evs = pre @ (a, k) # post \<and> str a = str ip \<and> (\<forall>(b, j)\<in>set post. str b \<noteq> str ip \<and> j \<noteq> k))"
  using tun_routes.last_announcement_holds [OF consistent_new(1), where s = "str ip" and evs = evs and k = k]
  by (simp add: tun_routes.run_def tun_routes.live_def ResolveIP_def NewRouter_def)

text \<open>
  The other two writers do not keep the maps inverse. A node that takes an address a peer holds
  leaves the peer's reverse entry behind, so that the peer still passes as the holder; and a peer that
  is listed twice in a synchronisation keeps its first address as well.
\<close>

lemma SetLocalIP_leaves_peer:
  assumes "k \<noteq> self"
  shows "ResolvePeer k (SetLocalIP str ip (AddRoute str ip k (NewRouter n self))) = Some ip"
    "ResolveIP str ip (SetLocalIP str ip (AddRoute str ip k (NewRouter n self))) = Some self"
  using assms by (simp_all add: ResolvePeer_def ResolveIP_def SetLocalIP_def AddRoute_def NewRouter_def Let_def update_conv')

lemma SyncFromPeers_keeps_old_address:
  fixes n self
  assumes "str ip \<noteq> str ip'" "k \<noteq> []"
  defines "r \<equiv> SyncFromPeers str [\<lparr>pr_PublicKey = k, pr_VirtualIP = Some ip\<rparr>, \<lparr>pr_PublicKey = k, pr_VirtualIP = Some ip'\<rparr>] (NewRouter n self)"
  shows "ResolveIP str ip r = Some k" "ResolveIP str ip' r = Some k" "ResolvePeer k r = Some ip'"
  using assms by (simp_all add: ResolvePeer_def ResolveIP_def SyncFromPeers_def NewRouter_def)

end
