(* ===== verification/Route_Manager.thy ===== *)
theory Route_Manager
  imports Net_Addr
begin

text \<open>
  The subnet proxy routes (\<open>src/internal/tun/route_manager.go\<close>): which peer advertises which CIDR
  subnet, the gateway of each subnet, and the \<open>ip route\<close> commands run on the kernel. The maps are
  association lists in an arbitrary iteration order; the commands are kept in the order they are run,
  and the parser of CIDR texts is a parameter.
\<close>

datatype route_cmd = RouteAdd string string | RouteDel string

record RouteManager =
  rm_ifName :: string
  rm_routes :: "(string \<times> string list) list"
  subnetToPeer :: "(string \<times> string) list"
  subnetNets :: "(string \<times> IPNet) list"
  rm_cmds :: "route_cmd list"

definition NewRouteManager :: "string \<Rightarrow> RouteManager" where
  "NewRouteManager ifName = \<lparr>rm_ifName = ifName, rm_routes = [], subnetToPeer = [], subnetNets = [], rm_cmds = []\<rparr>"

definition addKernelRoute :: "string \<Rightarrow> string \<Rightarrow> RouteManager \<Rightarrow> RouteManager" where
  "addKernelRoute cidr gateway rm = rm\<lparr>rm_cmds := rm_cmds rm @ [RouteAdd cidr gateway]\<rparr>"

definition delKernelRoute :: "string \<Rightarrow> RouteManager \<Rightarrow> RouteManager" where
  "delKernelRoute cidr rm = rm\<lparr>rm_cmds := rm_cmds rm @ [RouteDel cidr]\<rparr>"

primrec dropFirst :: "string \<Rightarrow> (string \<times> string list) list \<Rightarrow> (string \<times> string list) list" where
  \<comment> \<open>the loop that takes a re-assigned subnet from the first peer that has it\<close>
  "dropFirst cidr [] = []"
| "dropFirst cidr (p # ps) =
     (if cidr \<in> set (snd p) then (fst p, removeAll cidr (snd p)) # ps else p # dropFirst cidr ps)"

definition forgetSubnet :: "string \<Rightarrow> RouteManager \<Rightarrow> RouteManager" where
  "forgetSubnet cidr rm =
     (let rm = delKernelRoute cidr rm
      in rm\<lparr>subnetToPeer := AList.delete cidr (subnetToPeer rm), subnetNets := AList.delete cidr (subnetNets rm)\<rparr>)"

definition claimSubnet :: "string \<Rightarrow> IPNet \<Rightarrow> string \<Rightarrow> RouteManager \<Rightarrow> RouteManager" where
  \<comment> \<open>a subnet that the peer did not advertise before\<close>
  "claimSubnet cidr ipNet virtualIP rm =
     (let rm = (case map_of (subnetToPeer rm) cidr of
                  None \<Rightarrow> rm
                | Some existingGW \<Rightarrow>
                    if existingGW \<noteq> virtualIP
                    then let rm = delKernelRoute cidr rm in rm\<lparr>rm_routes := dropFirst cidr (rm_routes rm)\<rparr>
                    else rm)
      in addKernelRoute cidr virtualIP
           (rm\<lparr>subnetToPeer := AList.update cidr virtualIP (subnetToPeer rm), subnetNets := AList.update cidr ipNet (subnetNets rm)\<rparr>))"

primrec addSubnets ::
    "(string \<Rightarrow> IPNet option) \<Rightarrow> string \<Rightarrow> string list \<Rightarrow> string list \<Rightarrow> string list \<Rightarrow> RouteManager \<Rightarrow> string list \<times> RouteManager" where
  \<comment> \<open>the loop over the advertised subnets; the first result is the new set of the peer\<close>
  "addSubnets parseCIDR virtualIP oldSubnets [] newSubnets rm = (newSubnets, rm)"
| "addSubnets parseCIDR virtualIP oldSubnets (cidr # cidrs) newSubnets rm =
     (case parseCIDR cidr of
        None \<Rightarrow> addSubnets parseCIDR virtualIP oldSubnets cidrs newSubnets rm
      | Some ipNet \<Rightarrow>
          addSubnets parseCIDR virtualIP oldSubnets cidrs (List.insert cidr newSubnets)
            (if cidr \<notin> set oldSubnets then claimSubnet cidr ipNet virtualIP rm else rm))"

definition AddPeerSubnets ::
    "(string \<Rightarrow> IPNet option) \<Rightarrow> string \<Rightarrow> string \<Rightarrow> string list \<Rightarrow> RouteManager \<Rightarrow> RouteManager" where
  "AddPeerSubnets parseCIDR pubKey virtualIP subnets rm =
     (let oldSubnets = (case map_of (rm_routes rm) pubKey of None \<Rightarrow> [] | Some s \<Rightarrow> s);
          (newSubnets, rm) = addSubnets parseCIDR virtualIP oldSubnets subnets [] rm;
          rm = fold forgetSubnet (filter (\<lambda>c. c \<notin> set newSubnets) oldSubnets) rm
      in rm\<lparr>rm_routes := AList.update pubKey newSubnets (rm_routes rm)\<rparr>)"

definition RemovePeerSubnets :: "string \<Rightarrow> RouteManager \<Rightarrow> RouteManager" where
  "RemovePeerSubnets pubKey rm =
     (case map_of (rm_routes rm) pubKey of
        None \<Rightarrow> rm
      | Some subnets \<Rightarrow>
          let rm = fold forgetSubnet subnets rm in rm\<lparr>rm_routes := AList.delete pubKey (rm_routes rm)\<rparr>)"

primrec bestProxy :: "IP \<Rightarrow> (string \<times> string) list \<Rightarrow> (string \<times> IPNet) list \<Rightarrow> string \<Rightarrow> int \<Rightarrow> string" where
  \<comment> \<open>the loop of \<open>ResolveSubnetProxy\<close>; a missing gateway reads as the empty string\<close>
  "bestProxy dstIP gws [] bestMatch bestPrefixLen = bestMatch"
| "bestProxy dstIP gws (p # ps) bestMatch bestPrefixLen =
     (if Contains (snd p) dstIP \<and> int (fst (Mask_Size (net_Mask (snd p)))) > bestPrefixLen
      then bestProxy dstIP gws ps (case map_of gws (fst p) of None \<Rightarrow> [] | Some gw \<Rightarrow> gw) (int (fst (Mask_Size (net_Mask (snd p)))))
      else bestProxy dstIP gws ps bestMatch bestPrefixLen)"

definition ResolveSubnetProxy :: "IP \<Rightarrow> RouteManager \<Rightarrow> string option" where
  "ResolveSubnetProxy dstIP rm =
     (let bestMatch = bestProxy dstIP (subnetToPeer rm) (subnetNets rm) [] (- 1)
      in if bestMatch = [] then None else Some bestMatch)"

definition AllSubnetProxies :: "RouteManager \<Rightarrow> (string \<times> string) list" where
  "AllSubnetProxies rm = subnetToPeer rm"

definition rm_RouteCount :: "RouteManager \<Rightarrow> nat" where
  "rm_RouteCount rm = length (subnetToPeer rm)"

section \<open>The kernel table mirrors the map\<close>

fun kernel :: "route_cmd \<Rightarrow> (string \<rightharpoonup> string) \<Rightarrow> (string \<rightharpoonup> string)" where
  \<comment> \<open>an added route that exists already is refused and stays as it is\<close>
  "kernel (RouteAdd cidr gw) t = (if t cidr = None then t(cidr \<mapsto> gw) else t)"
| "kernel (RouteDel cidr) t = t(cidr := None)"

definition kernelTable :: "RouteManager \<Rightarrow> (string \<rightharpoonup> string)" where
  "kernelTable rm = fold kernel (rm_cmds rm) (\<lambda>_. None)"

definition rm_inv :: "RouteManager \<Rightarrow> bool" where
  "rm_inv rm \<longleftrightarrow> kernelTable rm = map_of (subnetToPeer rm) \<and> (\<forall>c. map_of (subnetNets rm) c = None \<longleftrightarrow> map_of (subnetToPeer rm) c = None) \<and>
     distinct (map fst (subnetNets rm)) \<and> (\<forall>c. map_of (subnetToPeer rm) c \<noteq> Some [])"

lemma forgetSubnet_inv: "rm_inv rm \<Longrightarrow> rm_inv (forgetSubnet cidr rm)"
  by (auto simp: rm_inv_def kernelTable_def forgetSubnet_def delKernelRoute_def delete_conv' distinct_delete fun_eq_iff Let_def)

lemma fold_forgetSubnet_inv: "rm_inv rm \<Longrightarrow> rm_inv (fold forgetSubnet cs rm)"
  by (induction cs arbitrary: rm) (simp_all add: forgetSubnet_inv)

lemma claimSubnet_inv:
  assumes "rm_inv rm" "gw \<noteq> []"
  shows "rm_inv (claimSubnet cidr n gw rm)"
  using assms
  by (auto simp: rm_inv_def kernelTable_def claimSubnet_def addKernelRoute_def delKernelRoute_def update_conv' distinct_update fun_eq_iff Let_def
      split: option.splits)

lemma addSubnets_inv: "rm_inv rm \<Longrightarrow> gw \<noteq> [] \<Longrightarrow> rm_inv (snd (addSubnets parseCIDR gw old cidrs new rm))"
  by (induction cidrs arbitrary: new rm) (auto simp: claimSubnet_inv split: option.splits)

lemma rm_routes_inv: "rm_inv (rm\<lparr>rm_routes := x\<rparr>) = rm_inv rm"
  by (simp add: rm_inv_def kernelTable_def)

lemma AddPeerSubnets_inv: "rm_inv rm \<Longrightarrow> gw \<noteq> [] \<Longrightarrow> rm_inv (AddPeerSubnets parseCIDR k gw cidrs rm)"
  using addSubnets_inv [of rm gw parseCIDR _ cidrs "[]"]
  by (auto simp: AddPeerSubnets_def rm_routes_inv Let_def split: prod.splits intro!: fold_forgetSubnet_inv) (metis snd_conv)+

lemma RemovePeerSubnets_inv: "rm_inv rm \<Longrightarrow> rm_inv (RemovePeerSubnets k rm)"
  by (auto simp: RemovePeerSubnets_def rm_routes_inv Let_def fold_forgetSubnet_inv split: option.splits)

section \<open>Longest prefix\<close>

definition prefixLen :: "IPNet \<Rightarrow> int" where
  "prefixLen n = int (fst (Mask_Size (net_Mask n)))"

lemma bestProxy_spec:
  "(bestProxy ip gws ps b l = b \<and> (\<forall>p\<in>set ps. Contains (snd p) ip \<longrightarrow> prefixLen (snd p) \<le> l)) \<or>
   (\<exists>p\<in>set ps. Contains (snd p) ip \<and> l < prefixLen (snd p) \<and>
      (\<forall>q\<in>set ps. Contains (snd q) ip \<longrightarrow> prefixLen (snd q) \<le> prefixLen (snd p)) \<and>
      bestProxy ip gws ps b l = (case map_of gws (fst p) of None \<Rightarrow> [] | Some gw \<Rightarrow> gw))"
proof (induction ps arbitrary: b l)
  case (Cons p ps)
  show ?case
  proof (cases "Contains (snd p) ip \<and> l < prefixLen (snd p)")
    case True
    then show ?thesis
      using Cons [of "case map_of gws (fst p) of None \<Rightarrow> [] | Some gw \<Rightarrow> gw" "prefixLen (snd p)"]
      by (auto simp: prefixLen_def; force)
  next
    case False
    then show ?thesis using Cons [of b l] by (auto simp: prefixLen_def; force)
  qed
qed simp

inductive rm_reach :: "(string \<Rightarrow> IPNet option) \<Rightarrow> RouteManager \<Rightarrow> bool" for parseCIDR where
  new: "rm_reach parseCIDR (NewRouteManager ifName)"
| add: "rm_reach parseCIDR rm \<Longrightarrow> gw \<noteq> [] \<Longrightarrow> rm_reach parseCIDR (AddPeerSubnets parseCIDR pubKey gw subnets rm)"
| remove: "rm_reach parseCIDR rm \<Longrightarrow> rm_reach parseCIDR (RemovePeerSubnets pubKey rm)"

lemma rm_reach_inv: "rm_reach parseCIDR rm \<Longrightarrow> rm_inv rm"
proof (induction rule: rm_reach.induct)
  case (new ifName)
  then show ?case by (simp add: rm_inv_def kernelTable_def NewRouteManager_def)
qed (simp_all add: AddPeerSubnets_inv RemovePeerSubnets_inv)


definition toyCIDR :: "string \<Rightarrow> IPNet option" where
  "toyCIDR s = (if s = ''192.168.0.0/16'' then Some \<lparr>net_IP = [192, 168, 0, 0], net_Mask = [255, 255, 0, 0]\<rparr>
                else if s = ''192.168.1.0/24'' then Some \<lparr>net_IP = [192, 168, 1, 0], net_Mask = [255, 255, 255, 0]\<rparr> else None)"

definition toyRoutes :: RouteManager where
  "toyRoutes = AddPeerSubnets toyCIDR ''b'' ''10.0.0.3'' [''192.168.1.0/24'', ''junk'']
     (AddPeerSubnets toyCIDR ''a'' ''10.0.0.2'' [''192.168.0.0/16''] (NewRouteManager ''mesh0''))"


text \<open>
  A peer that moves to another virtual address and advertises the same subnet keeps its old gateway:
  only subnets it did not advertise before are written.
\<close>

lemma moved_peer_keeps_gateway:
  assumes "parseCIDR cidr = Some n"
  shows "map_of (subnetToPeer (AddPeerSubnets parseCIDR k gw' [cidr] (AddPeerSubnets parseCIDR k gw [cidr] (NewRouteManager i)))) cidr = Some gw"
  using assms by (simp add: AddPeerSubnets_def NewRouteManager_def claimSubnet_def addKernelRoute_def Let_def)

end
