(* ===== verification/Acl.thy ===== *)
theory Acl
  imports Net_Addr
begin

text \<open>
  The access control list of the TUN data path (\<open>src/internal/mesh/acl.go\<close>): rules compiled from the
  configuration, the fields of an IP packet that they look at, and the first-match decision with its
  counters. The parsers of addresses and the lower-casing of texts are parameters.
\<close>

section \<open>Rules\<close>

record ACLRule =
  ar_Action :: string
  SourceCIDR :: string
  DestCIDR :: string
  ar_Protocol :: string
  SrcPort :: int
  DstPort :: int
  ar_PeerID :: string
  Description :: string

record ACLConfig =
  acl_Enabled :: bool
  acl_DefaultPolicy :: string
  Rules :: "ACLRule list"

definition ACLActionAllow :: string where "ACLActionAllow = ''allow''"
definition ACLActionDeny :: string where "ACLActionDeny = ''deny''"

record compiledACLRule =
  action :: string
  srcNet :: "IPNet option"
  dstNet :: "IPNet option"
  protocol :: string
  srcPort :: int
  dstPort :: int
  peerID :: string
  desc :: string

record aclSnapshot =
  enabled :: bool
  defaultPolicy :: string
  rules :: "compiledACLRule list"
  hitCounts :: "u64 list"

record ACLEngine =
  snapshot :: "aclSnapshot option"
  allowCount :: u64
  denyCount :: u64

datatype acl_error = InvalidAction | InvalidSrc | InvalidDst

definition singleNet :: "IP \<Rightarrow> IPNet" where
  \<comment> \<open>the network of a plain destination address\<close>
  "singleNet ip =
     (case To4 ip of Some x \<Rightarrow> \<lparr>net_IP = x, net_Mask = CIDRMask 32 32\<rparr> | None \<Rightarrow> \<lparr>net_IP = ip, net_Mask = CIDRMask 128 128\<rparr>)"

definition compileRule ::
    "(string \<Rightarrow> IPNet option) \<Rightarrow> (string \<Rightarrow> IP option) \<Rightarrow> (string \<Rightarrow> string) \<Rightarrow> ACLRule \<Rightarrow> (acl_error, compiledACLRule) res" where
  "compileRule parseCIDR parseIP lower rule =
     guard (ar_Action rule \<noteq> ACLActionAllow \<and> ar_Action rule \<noteq> ACLActionDeny) InvalidAction
     (let p = lower (ar_Protocol rule);
          c = \<lparr>action = ar_Action rule, srcNet = None, dstNet = None, protocol = (if p = [] then ''*'' else p),
               srcPort = SrcPort rule, dstPort = DstPort rule, peerID = ar_PeerID rule, desc = Description rule\<rparr>
      in and_then (if SourceCIDR rule \<noteq> [] \<and> SourceCIDR rule \<noteq> ''*''
                   then (case parseCIDR (SourceCIDR rule) of None \<Rightarrow> err InvalidSrc | Some n \<Rightarrow> ok (Some n))
                   else ok None) (\<lambda>src.
         and_then (if DestCIDR rule \<noteq> [] \<and> DestCIDR rule \<noteq> ''*''
                   then (case parseCIDR (DestCIDR rule) of
                           Some n \<Rightarrow> ok (Some n)
                         | None \<Rightarrow> (case parseIP (DestCIDR rule) of None \<Rightarrow> err InvalidDst | Some ip \<Rightarrow> ok (Some (singleNet ip))))
                   else ok None) (\<lambda>dst.
         ok (c\<lparr>srcNet := src, dstNet := dst\<rparr>))))"

primrec compileRules ::
    "(string \<Rightarrow> IPNet option) \<Rightarrow> (string \<Rightarrow> IP option) \<Rightarrow> (string \<Rightarrow> string) \<Rightarrow> ACLRule list \<Rightarrow> (acl_error, compiledACLRule list) res" where
  "compileRules parseCIDR parseIP lower [] = ok []"
| "compileRules parseCIDR parseIP lower (rule # rs) =
     and_then (compileRule parseCIDR parseIP lower rule) (\<lambda>c.
     and_then (compileRules parseCIDR parseIP lower rs) (\<lambda>cs. ok (c # cs)))"

definition newSnapshot :: "ACLConfig \<Rightarrow> compiledACLRule list \<Rightarrow> aclSnapshot" where
  "newSnapshot cfg compiled =
     \<lparr>enabled = acl_Enabled cfg, defaultPolicy = (if acl_DefaultPolicy cfg = [] then ACLActionAllow else acl_DefaultPolicy cfg),
      rules = compiled, hitCounts = replicate (length compiled) 0\<rparr>"

definition NewACLEngine ::
    "(string \<Rightarrow> IPNet option) \<Rightarrow> (string \<Rightarrow> IP option) \<Rightarrow> (string \<Rightarrow> string) \<Rightarrow> ACLConfig \<Rightarrow> (acl_error, ACLEngine) res" where
  "NewACLEngine parseCIDR parseIP lower cfg =
     and_then (compileRules parseCIDR parseIP lower (Rules cfg)) (\<lambda>compiled.
       ok \<lparr>snapshot = Some (newSnapshot cfg compiled), allowCount = 0, denyCount = 0\<rparr>)"

definition UpdateRules ::
    "(string \<Rightarrow> IPNet option) \<Rightarrow> (string \<Rightarrow> IP option) \<Rightarrow> (string \<Rightarrow> string) \<Rightarrow> ACLConfig \<Rightarrow> ACLEngine \<Rightarrow> (acl_error, unit) res \<times> ACLEngine" where
  "UpdateRules parseCIDR parseIP lower cfg e =
     (case compileRules parseCIDR parseIP lower (Rules cfg) of
        Inl x \<Rightarrow> (Inl x, e)
      | Inr compiled \<Rightarrow> (ok (), e\<lparr>snapshot := Some (newSnapshot cfg compiled)\<rparr>))"

section \<open>Packets\<close>

record packetInfo =
  pi_srcIP :: IP
  pi_dstIP :: IP
  pi_protocol :: string
  pi_srcPort :: int
  pi_dstPort :: int

definition port_at :: "bytes \<Rightarrow> nat \<Rightarrow> int" where
  \<comment> \<open>\<open>binary.BigEndian.Uint16(packet[i:i+2])\<close>, where the packet is long enough\<close>
  "port_at packet i = uint (join16 (packet ! i) (packet ! Suc i))"

definition field :: "bytes \<Rightarrow> nat \<Rightarrow> nat \<Rightarrow> bytes" where
  "field packet i j = take (j - i) (drop i packet)"

definition parsePacketInfo :: "bytes \<Rightarrow> packetInfo option" where
  "parsePacketInfo packet =
     (if length packet < 1 then None
      else let version = drop_bit 4 (packet ! 0)
           in if version = 4 then
                if length packet < 20 then None
                else let info = \<lparr>pi_srcIP = field packet 12 16, pi_dstIP = field packet 16 20, pi_protocol = [], pi_srcPort = 0, pi_dstPort = 0\<rparr>;
                         proto = packet ! 9
                     in if proto = 6 then
                          if length packet < 24 then Some (info\<lparr>pi_protocol := ''tcp''\<rparr>)
                          else Some (info\<lparr>pi_protocol := ''tcp'', pi_srcPort := port_at packet 20, pi_dstPort := port_at packet 22\<rparr>)
                        else if proto = 17 then
                          if length packet < 28 then Some (info\<lparr>pi_protocol := ''udp''\<rparr>)
                          else Some (info\<lparr>pi_protocol := ''udp'', pi_srcPort := port_at packet 20, pi_dstPort := port_at packet 22\<rparr>)
                        else if proto = 1 then Some (info\<lparr>pi_protocol := ''icmp''\<rparr>)
                        else Some info
              else if version = 6 then
                if length packet < 40 then None
                else let info = \<lparr>pi_srcIP = field packet 8 24, pi_dstIP = field packet 24 40, pi_protocol = [], pi_srcPort = 0, pi_dstPort = 0\<rparr>;
                         proto = packet ! 6;
                         ported = (if length packet \<ge> 44 then info\<lparr>pi_srcPort := port_at packet 40, pi_dstPort := port_at packet 42\<rparr> else info)
                     in if proto = 6 then Some (ported\<lparr>pi_protocol := ''tcp''\<rparr>)
                        else if proto = 17 then Some (ported\<lparr>pi_protocol := ''udp''\<rparr>)
                        else if proto = 58 then Some (info\<lparr>pi_protocol := ''icmp''\<rparr>)
                        else Some info
              else None)"

definition ruleMatches :: "compiledACLRule \<Rightarrow> packetInfo \<Rightarrow> string \<Rightarrow> bool" where
  "ruleMatches rule info peer =
     (if (case srcNet rule of None \<Rightarrow> False | Some n \<Rightarrow> \<not> Contains n (pi_srcIP info)) then False
      else if (case dstNet rule of None \<Rightarrow> False | Some n \<Rightarrow> \<not> Contains n (pi_dstIP info)) then False
      else if protocol rule \<noteq> ''*'' \<and> protocol rule \<noteq> [] \<and> pi_protocol info \<noteq> protocol rule then False
      else if srcPort rule \<noteq> 0 \<and> pi_srcPort info \<noteq> srcPort rule then False
      else if dstPort rule \<noteq> 0 \<and> pi_dstPort info \<noteq> dstPort rule then False
      else if peerID rule \<noteq> [] \<and> peerID rule \<noteq> ''*'' \<and> peer \<noteq> peerID rule then False
      else True)"

primrec firstMatch :: "compiledACLRule list \<Rightarrow> nat \<Rightarrow> packetInfo \<Rightarrow> string \<Rightarrow> (nat \<times> compiledACLRule) option" where
  \<comment> \<open>the loop over the rules of a snapshot\<close>
  "firstMatch [] i info peer = None"
| "firstMatch (rule # rs) i info peer = (if ruleMatches rule info peer then Some (i, rule) else firstMatch rs (Suc i) info peer)"

definition counted :: "bool \<Rightarrow> ACLEngine \<Rightarrow> bool \<times> ACLEngine" where
  "counted allow e = (if allow then (True, e\<lparr>allowCount := allowCount e + 1\<rparr>) else (False, e\<lparr>denyCount := denyCount e + 1\<rparr>))"

definition Check :: "bytes \<Rightarrow> string \<Rightarrow> ACLEngine \<Rightarrow> bool \<times> ACLEngine" where
  "Check packet peer e =
     (case snapshot e of
        None \<Rightarrow> (True, e)
      | Some snap \<Rightarrow>
          if \<not> enabled snap then (True, e)
          else case parsePacketInfo packet of
                 None \<Rightarrow> counted (defaultPolicy snap = ACLActionAllow) e
               | Some info \<Rightarrow>
                   (case firstMatch (rules snap) 0 info peer of
                      None \<Rightarrow> counted (defaultPolicy snap = ACLActionAllow) e
                    | Some (i, rule) \<Rightarrow>
                        counted (action rule = ACLActionAllow)
                          (e\<lparr>snapshot := Some (snap\<lparr>hitCounts := (hitCounts snap)[i := hitCounts snap ! i + 1]\<rparr>)\<rparr>)))"

section \<open>Reports\<close>

definition acl_IsEnabled :: "ACLEngine \<Rightarrow> bool" where
  "acl_IsEnabled e = (case snapshot e of None \<Rightarrow> False | Some s \<Rightarrow> enabled s)"

definition acl_Policy :: "ACLEngine \<Rightarrow> string" where
  "acl_Policy e = (case snapshot e of None \<Rightarrow> ACLActionAllow | Some s \<Rightarrow> defaultPolicy s)"

record ACLStats =
  st_Enabled :: bool
  st_DefaultPolicy :: string
  st_AllowCount :: u64
  st_DenyCount :: u64
  RuleHits :: "(nat \<times> string \<times> u64 \<times> string) list"

definition acl_Stats :: "ACLEngine \<Rightarrow> ACLStats" where
  "acl_Stats e =
     (case snapshot e of
        None \<Rightarrow> \<lparr>st_Enabled = False, st_DefaultPolicy = [], st_AllowCount = allowCount e, st_DenyCount = denyCount e, RuleHits = []\<rparr>
      | Some s \<Rightarrow> \<lparr>st_Enabled = enabled s, st_DefaultPolicy = defaultPolicy s, st_AllowCount = allowCount e, st_DenyCount = denyCount e,
                   RuleHits = map (\<lambda>(i, r). (i, action r, hitCounts s ! i, desc r)) (List.enumerate 0 (rules s))\<rparr>)"

definition CurrentRules :: "(IPNet \<Rightarrow> string) \<Rightarrow> ACLEngine \<Rightarrow> ACLRule list" where
  "CurrentRules netString e =
     (case snapshot e of
        None \<Rightarrow> []
      | Some s \<Rightarrow> map (\<lambda>c. \<lparr>ar_Action = action c, SourceCIDR = (case srcNet c of None \<Rightarrow> [] | Some n \<Rightarrow> netString n),
                             DestCIDR = (case dstNet c of None \<Rightarrow> [] | Some n \<Rightarrow> netString n), ar_Protocol = protocol c,
                             SrcPort = srcPort c, DstPort = dstPort c, ar_PeerID = peerID c, Description = desc c\<rparr>) (rules s))"

definition defaultStar :: "string \<Rightarrow> string" where
  "defaultStar s = (if s = [] then ''*'' else s)"

definition EncodeACLRulesForMeta :: "(int \<Rightarrow> string) \<Rightarrow> ACLRule list \<Rightarrow> string list" where
  \<comment> \<open>\<open>dec\<close> is the verb \<open>%d\<close> of \<open>fmt.Sprintf\<close>\<close>
  "EncodeACLRulesForMeta dec rs =
     map (\<lambda>r. concat [ar_Action r, ''|'', defaultStar (SourceCIDR r), ''|'', defaultStar (DestCIDR r), ''|'', defaultStar (ar_Protocol r), ''|'',
                dec (SrcPort r), ''|'', dec (DstPort r), ''|'', defaultStar (ar_PeerID r), ''|'', Description r]) rs"

section \<open>The decision\<close>

definition cidrAllows :: "(string \<Rightarrow> IPNet option) \<Rightarrow> string \<Rightarrow> IP \<Rightarrow> bool" where
  "cidrAllows parseCIDR s ip \<longleftrightarrow> s = [] \<or> s = ''*'' \<or> (case parseCIDR s of None \<Rightarrow> False | Some n \<Rightarrow> Contains n ip)"

definition ruleApplies ::
    "(string \<Rightarrow> IPNet option) \<Rightarrow> (string \<Rightarrow> IP option) \<Rightarrow> (string \<Rightarrow> string) \<Rightarrow> ACLRule \<Rightarrow> packetInfo \<Rightarrow> string \<Rightarrow> bool" where
  \<comment> \<open>what a rule of the configuration says: every field is a wildcard or agrees with the packet\<close>
  "ruleApplies parseCIDR parseIP lower r info peer \<longleftrightarrow>
     cidrAllows parseCIDR (SourceCIDR r) (pi_srcIP info) \<and>
     (cidrAllows parseCIDR (DestCIDR r) (pi_dstIP info) \<or>
      parseCIDR (DestCIDR r) = None \<and> (case parseIP (DestCIDR r) of None \<Rightarrow> False | Some ip \<Rightarrow> IP_Equal ip (pi_dstIP info))) \<and>
     (lower (ar_Protocol r) \<in> {[], ''*'', pi_protocol info}) \<and>
     SrcPort r \<in> {0, pi_srcPort info} \<and> DstPort r \<in> {0, pi_dstPort info} \<and> ar_PeerID r \<in> {[], ''*'', peer}"

definition policyAllows :: "string \<Rightarrow> bool" where
  "policyAllows p \<longleftrightarrow> p = [] \<or> p = ACLActionAllow"

definition allowed ::
    "(string \<Rightarrow> IPNet option) \<Rightarrow> (string \<Rightarrow> IP option) \<Rightarrow> (string \<Rightarrow> string) \<Rightarrow> ACLConfig \<Rightarrow> bytes \<Rightarrow> string \<Rightarrow> bool" where
  \<comment> \<open>the decision read off the configuration\<close>
  "allowed parseCIDR parseIP lower cfg packet peer \<longleftrightarrow>
     \<not> acl_Enabled cfg \<or>
     (case parsePacketInfo packet of
        None \<Rightarrow> policyAllows (acl_DefaultPolicy cfg)
      | Some info \<Rightarrow>
          (case find (\<lambda>r. ruleApplies parseCIDR parseIP lower r info peer) (Rules cfg) of
             None \<Rightarrow> policyAllows (acl_DefaultPolicy cfg)
           | Some r \<Rightarrow> ar_Action r = ACLActionAllow))"

lemma mask_ones: "CIDRMask_bytes (8 * l) l = replicate l 255"
  by (induction l) auto

lemma and_ones: "length xs = l \<Longrightarrow> map2 and xs (replicate l (255 :: byte)) = xs"
proof -
  assume "length xs = l"
  moreover have "(255 :: byte) = - 1" by simp
  ultimately show ?thesis by (simp only: zip_replicate2) (simp add: comp_def)
qed

definition canon :: "IP \<Rightarrow> IP" where
  "canon ip = (case To4 ip of Some x \<Rightarrow> x | None \<Rightarrow> ip)"

lemma canon_cases:
  assumes "length ip = 4 \<or> length ip = 16"
  obtains "length (canon ip) = 4" "To4 (canon ip) = Some (canon ip)" "singleNet ip = \<lparr>net_IP = canon ip, net_Mask = replicate 4 255\<rparr>"
  | "canon ip = ip" "length ip = 16" "To4 ip = None" "singleNet ip = \<lparr>net_IP = canon ip, net_Mask = replicate 16 255\<rparr>"
proof (cases "To4 ip")
  case None
  have "CIDRMask 128 128 = replicate 16 255" using mask_ones [of 16] by (simp add: CIDRMask_def)
  with None that(2) assms show ?thesis by (simp add: canon_def singleNet_def To4_def split: if_splits)
next
  case (Some x)
  have "CIDRMask 32 32 = replicate 4 255" using mask_ones [of 4] by (simp add: CIDRMask_def)
  moreover have "length x = 4" using Some by (auto simp: To4_def split: if_splits)
  ultimately show ?thesis using Some that(1) by (simp add: canon_def singleNet_def To4_def)
qed

lemma IP_Equal_canon:
  assumes "length ip = 4 \<or> length ip = 16" "length x = 4 \<or> length x = 16"
  shows "IP_Equal ip x \<longleftrightarrow> canon ip = canon x"
proof -
  have "ip = x" if "take 12 ip = take 12 x" "drop 12 ip = drop 12 x" using that by (metis append_take_drop_id)
  then show ?thesis using assms by (auto simp: IP_Equal_def canon_def To4_def split: if_splits)
qed

lemma Contains_single:
  assumes "length ip = 4 \<or> length ip = 16" "length x = 4 \<or> length x = 16"
  shows "Contains (singleNet ip) x \<longleftrightarrow> IP_Equal ip x"
  using assms(1)
proof (cases rule: canon_cases)
  case 1
  have "networkNumberAndMask (singleNet ip) = (canon ip, replicate 4 255)" using 1 by (simp add: networkNumberAndMask_def Let_def)
  then show ?thesis
    using 1(1) and_ones [of "canon ip" 4] and_ones [of "canon x" 4]
    by (auto simp: Contains_def IP_Equal_canon [OF assms] canon_def [of x, symmetric] Let_def)
next
  case 2
  have "networkNumberAndMask (singleNet ip) = (canon ip, replicate 16 255)" using 2 by (simp add: networkNumberAndMask_def Let_def)
  then show ?thesis
    using 2(1,2) and_ones [of "canon ip" 16] and_ones [of "canon x" 16]
    by (auto simp: Contains_def IP_Equal_canon [OF assms] canon_def [of x, symmetric] Let_def)
qed

lemma parsePacketInfo_ips:
  "parsePacketInfo packet = Some info \<Longrightarrow>
     (length (pi_srcIP info) = 4 \<or> length (pi_srcIP info) = 16) \<and> (length (pi_dstIP info) = 4 \<or> length (pi_dstIP info) = 16)"
  by (auto simp: parsePacketInfo_def field_def Let_def split: if_splits)

lemma ruleMatches_iff:
  "ruleMatches c info peer \<longleftrightarrow>
     (\<forall>n. srcNet c = Some n \<longrightarrow> Contains n (pi_srcIP info)) \<and> (\<forall>n. dstNet c = Some n \<longrightarrow> Contains n (pi_dstIP info)) \<and>
     protocol c \<in> {''*'', [], pi_protocol info} \<and> srcPort c \<in> {0, pi_srcPort info} \<and> dstPort c \<in> {0, pi_dstPort info} \<and>
     peerID c \<in> {[], ''*'', peer}"
  unfolding ruleMatches_def by (auto split: option.splits)

lemma compileRule_ok:
  assumes "compileRule parseCIDR parseIP lower r = ok c"
  shows "action c = ar_Action r" "protocol c = (if lower (ar_Protocol r) = [] then ''*'' else lower (ar_Protocol r))"
    "srcPort c = SrcPort r" "dstPort c = DstPort r" "peerID c = ar_PeerID r"
    "SourceCIDR r \<in> {[], ''*''} \<and> srcNet c = None \<or> SourceCIDR r \<notin> {[], ''*''} \<and> srcNet c = parseCIDR (SourceCIDR r) \<and> srcNet c \<noteq> None"
    "DestCIDR r \<in> {[], ''*''} \<and> dstNet c = None \<or> DestCIDR r \<notin> {[], ''*''} \<and> dstNet c = parseCIDR (DestCIDR r) \<and> dstNet c \<noteq> None \<or>
     DestCIDR r \<notin> {[], ''*''} \<and> parseCIDR (DestCIDR r) = None \<and> (\<exists>ip. parseIP (DestCIDR r) = Some ip \<and> dstNet c = Some (singleNet ip))"
proof -
  obtain src dst where o:
    "(if SourceCIDR r \<noteq> [] \<and> SourceCIDR r \<noteq> ''*''
      then (case parseCIDR (SourceCIDR r) of None \<Rightarrow> err InvalidSrc | Some n \<Rightarrow> ok (Some n)) else ok None) = ok src"
    "(if DestCIDR r \<noteq> [] \<and> DestCIDR r \<noteq> ''*''
      then (case parseCIDR (DestCIDR r) of Some n \<Rightarrow> ok (Some n)
            | None \<Rightarrow> (case parseIP (DestCIDR r) of None \<Rightarrow> err InvalidDst | Some ip \<Rightarrow> ok (Some (singleNet ip)))) else ok None) = ok dst"
    "c = \<lparr>action = ar_Action r, srcNet = src, dstNet = dst, protocol = (if lower (ar_Protocol r) = [] then ''*'' else lower (ar_Protocol r)),
      srcPort = SrcPort r, dstPort = DstPort r, peerID = ar_PeerID r, desc = Description r\<rparr>"
    using assms unfolding compileRule_def Let_def guard_eq_Inr and_then_eq_Inr by (elim conjE exE) simp
  show "action c = ar_Action r" "protocol c = (if lower (ar_Protocol r) = [] then ''*'' else lower (ar_Protocol r))"
    "srcPort c = SrcPort r" "dstPort c = DstPort r" "peerID c = ar_PeerID r" using o(3) by simp_all
  show "SourceCIDR r \<in> {[], ''*''} \<and> srcNet c = None \<or> SourceCIDR r \<notin> {[], ''*''} \<and> srcNet c = parseCIDR (SourceCIDR r) \<and> srcNet c \<noteq> None"
    using o(1,3) by (cases "parseCIDR (SourceCIDR r)") (auto split: if_splits dest: sym)
  show "DestCIDR r \<in> {[], ''*''} \<and> dstNet c = None \<or> DestCIDR r \<notin> {[], ''*''} \<and> dstNet c = parseCIDR (DestCIDR r) \<and> dstNet c \<noteq> None \<or>
     DestCIDR r \<notin> {[], ''*''} \<and> parseCIDR (DestCIDR r) = None \<and> (\<exists>ip. parseIP (DestCIDR r) = Some ip \<and> dstNet c = Some (singleNet ip))"
    using o(2,3) by (cases "parseCIDR (DestCIDR r)"; cases "parseIP (DestCIDR r)") (auto split: if_splits dest: sym)
qed

lemma compileRule_matches:
  assumes "compileRule parseCIDR parseIP lower r = ok c" "\<And>s ip. parseIP s = Some ip \<Longrightarrow> length ip = 4 \<or> length ip = 16"
    and "length (pi_dstIP info) = 4 \<or> length (pi_dstIP info) = 16"
  shows "ruleMatches c info peer \<longleftrightarrow> ruleApplies parseCIDR parseIP lower r info peer"
proof -
  note c = compileRule_ok [OF assms(1)]
  have src: "(\<forall>n. srcNet c = Some n \<longrightarrow> Contains n (pi_srcIP info)) \<longleftrightarrow> cidrAllows parseCIDR (SourceCIDR r) (pi_srcIP info)"
    using c(6) by (auto simp: cidrAllows_def split: option.splits)
  have "Contains (singleNet ip) (pi_dstIP info) \<longleftrightarrow> IP_Equal ip (pi_dstIP info)" if "parseIP s = Some ip" for s ip
    using Contains_single assms(2) [OF that] assms(3) by blast
  then have dst: "(\<forall>n. dstNet c = Some n \<longrightarrow> Contains n (pi_dstIP info)) \<longleftrightarrow>
      cidrAllows parseCIDR (DestCIDR r) (pi_dstIP info) \<or>
      parseCIDR (DestCIDR r) = None \<and> (case parseIP (DestCIDR r) of None \<Rightarrow> False | Some ip \<Rightarrow> IP_Equal ip (pi_dstIP info))"
    using c(7) by (auto simp: cidrAllows_def split: option.splits)
  show ?thesis unfolding ruleMatches_iff ruleApplies_def src dst c(2-5) by auto
qed

lemma compileRules_find:
  assumes "compileRules parseCIDR parseIP lower rs = ok cs" "\<And>s ip. parseIP s = Some ip \<Longrightarrow> length ip = 4 \<or> length ip = 16"
    and "length (pi_dstIP info) = 4 \<or> length (pi_dstIP info) = 16"
  shows "case find (\<lambda>r. ruleApplies parseCIDR parseIP lower r info peer) rs of
      None \<Rightarrow> firstMatch cs i info peer = None
    | Some r \<Rightarrow> \<exists>j c. firstMatch cs i info peer = Some (i + j, c) \<and> action c = ar_Action r \<and> j < length rs \<and> rs ! j = r \<and>
        (\<forall>k<j. \<not> ruleApplies parseCIDR parseIP lower (rs ! k) info peer)"
  using assms(1)
proof (induction rs arbitrary: cs i)
  case (Cons r rs)
  obtain c cs' where c: "compileRule parseCIDR parseIP lower r = ok c" "compileRules parseCIDR parseIP lower rs = ok cs'" "cs = c # cs'"
    using Cons.prems by (auto simp: res_iffs)
  note m = compileRule_matches [OF c(1) assms(2,3), where peer = peer] compileRule_ok(1) [OF c(1)]
  show ?case
  proof (cases "ruleApplies parseCIDR parseIP lower r info peer")
    case True
    then show ?thesis using m c by (auto intro!: exI [of _ 0])
  next
    case False
    note IH = Cons.IH [OF c(2), of "Suc i"]
    show ?thesis
    proof (cases "find (\<lambda>r. ruleApplies parseCIDR parseIP lower r info peer) rs")
      case None
      then show ?thesis using IH False m c by simp
    next
      case (Some q)
      then obtain j d where j: "firstMatch cs' (Suc i) info peer = Some (Suc i + j, d)" "action d = ar_Action q" "j < length rs" "rs ! j = q"
        "\<forall>k<j. \<not> ruleApplies parseCIDR parseIP lower (rs ! k) info peer" using IH by auto
      then show ?thesis
        using Some False m c by (auto simp: less_Suc_eq_0_disj intro!: exI [of _ "Suc j"])
    qed
  qed
qed simp

definition hits :: "ACLEngine \<Rightarrow> u64 list" where
  "hits e = (case snapshot e of None \<Rightarrow> [] | Some s \<Rightarrow> hitCounts s)"


definition toyAcl :: ACLConfig where
  "toyAcl = \<lparr>acl_Enabled = True, acl_DefaultPolicy = ''deny'',
     Rules = [\<lparr>ar_Action = ''deny'', SourceCIDR = [], DestCIDR = ''h'', ar_Protocol = ''tcp'', SrcPort = 0, DstPort = 22, ar_PeerID = ''*'', Description = []\<rparr>,
              \<lparr>ar_Action = ''allow'', SourceCIDR = ''*'', DestCIDR = [], ar_Protocol = [], SrcPort = 0, DstPort = 0, ar_PeerID = [], Description = []\<rparr>]\<rparr>"

definition toyHost :: "string \<Rightarrow> IP option" where
  "toyHost s = (if s = ''h'' then Some [10, 0, 0, 9] else None)"

definition toyPacket :: "byte \<Rightarrow> bytes" where
  "toyPacket port = [69, 0, 0, 24, 0, 0, 0, 0, 64, 6, 0, 0, 10, 0, 0, 2, 10, 0, 0, 9, 4, 0, 0, port]"

definition toyEngine :: ACLEngine where
  "toyEngine = projr (NewACLEngine (\<lambda>_. None) toyHost id toyAcl)"


text \<open>
  The ports are read behind a header of 20 bytes. A packet with options moves them: the destination
  port of a rule is then compared with bytes of the options.
\<close>

lemma acl_ignores_header_length:
  assumes "length packet \<ge> 28" "packet ! 0 = 70" "packet ! 9 = 6"
  shows "map_option pi_dstPort (parsePacketInfo packet) = Some (port_at packet 22)"
  using assms by (cases packet) (simp_all add: parsePacketInfo_def Let_def)

end
