(* ===== verification/Tun_Forwarder.thy ===== *)
theory Tun_Forwarder
  imports Tun_Router Route_Manager Acl
begin

text \<open>
  The TUN data plane (\<open>src/internal/mesh/tun_forwarder.go\<close>): packets read from the device are routed
  to a peer and framed on its stream; packets that arrive on a peer's stream are checked against the
  source the peer may use and against the access control list, and written to the device. Dialling,
  the punched paths of a peer and the outcome of a write are parameters; connections are numbers, and
  what is written to them and what is closed is recorded. One call reads the clock once.
\<close>

section \<open>State\<close>

definition tunPacketHeaderLen :: nat where "tunPacketHeaderLen = 4"
definition maxTunPacketSize :: nat where "maxTunPacketSize = 65535"

definition udpCooldown :: int where "udpCooldown = 30 * 10 ^ 9"
definition udpCooldownMax :: int where "udpCooldownMax = 600 * 10 ^ 9"
definition outboundStreamTTL :: int where "outboundStreamTTL = 60 * 10 ^ 9"

record outboundStreamEntry =
  os_conn :: nat
  createdAt :: int

record udpFailState =
  uf_last :: int
  uf_count :: nat

record TunForwarder =
  tf_router :: Router
  tf_routeManager :: "RouteManager option"
  tf_acl :: "ACLEngine option"
  outboundStreams :: "(string \<times> outboundStreamEntry) list"
  udpStreams :: "(string \<times> outboundStreamEntry) list"
  udpFail :: "(string \<times> udpFailState) list"
  tunUDPStreamEnabled :: bool
  running :: bool
  packetsSent :: u64
  packetsReceived :: u64
  packetsDropped :: u64
  packetsSpoofed :: u64
  bytesSent :: u64
  bytesReceived :: u64
  lastActivity :: int
  startedAt :: int
  tf_written :: "(string \<times> nat \<times> bytes) list"
  tf_closed :: "nat list"

record tun_env =
  punchDataplane :: "string \<Rightarrow> nat option"
  punchedStream :: "string \<Rightarrow> nat option"
  crossZone :: "string \<Rightarrow> bool"
  dialTUNUDP :: "string \<Rightarrow> nat option"
  dialVirtualPort :: "string \<Rightarrow> nat option"

datatype tun_error =
    DeviceRequired | RouterRequired | MeshNodeRequired | AlreadyRunning | ListenFailed
  | UDPDisabled | CrossZone | InCooldown | UDPDialFailed | DialFailed
  | PacketRead io_error | InvalidPacketLength u32

definition NewTunForwarder ::
    "bool \<Rightarrow> Router option \<Rightarrow> bool \<Rightarrow> RouteManager option \<Rightarrow> ACLEngine option \<Rightarrow> (tun_error, TunForwarder) res" where
  \<comment> \<open>the device and the mesh node are present or nil\<close>
  "NewTunForwarder device router meshNode rm acl =
     guard (\<not> device) DeviceRequired
     (case router of
        None \<Rightarrow> err RouterRequired
      | Some r \<Rightarrow>
          guard (\<not> meshNode) MeshNodeRequired
          (ok \<lparr>tf_router = r, tf_routeManager = rm, tf_acl = acl, outboundStreams = [], udpStreams = [], udpFail = [],
               tunUDPStreamEnabled = False, running = False, packetsSent = 0, packetsReceived = 0, packetsDropped = 0, packetsSpoofed = 0,
               bytesSent = 0, bytesReceived = 0, lastActivity = 0, startedAt = 0, tf_written = [], tf_closed = []\<rparr>))"

definition tun_Start :: "int \<Rightarrow> bool \<Rightarrow> TunForwarder \<Rightarrow> (tun_error, unit) res \<times> TunForwarder" where
  \<comment> \<open>\<open>listens\<close>: whether the virtual port can be opened; the clocks are stored before the guard\<close>
  "tun_Start now listens f =
     (let f = f\<lparr>startedAt := now, lastActivity := now\<rparr>
      in if running f then (err AlreadyRunning, f)
         else if \<not> listens then (err ListenFailed, f) else (ok (), f\<lparr>running := True\<rparr>))"

definition tun_Stop :: "TunForwarder \<Rightarrow> TunForwarder" where
  "tun_Stop f =
     (if \<not> running f then f
      else f\<lparr>running := False, outboundStreams := [], udpStreams := [],
             tf_closed := tf_closed f @ map (\<lambda>p. os_conn (snd p)) (outboundStreams f @ udpStreams f)\<rparr>)"

section \<open>Framing\<close>

definition writeFramedPacket :: "bytes \<Rightarrow> bytes" where
  \<comment> \<open>the buffer that is written in one call\<close>
  "writeFramedPacket packet = put32 (of_nat (length packet)) @ packet"

definition readFramedPacket :: "bytes \<Rightarrow> (tun_error, bytes \<times> bytes) res" where
  "readFramedPacket r =
     and_then (readFull PacketRead r tunPacketHeaderLen) (\<lambda>(header, r).
     and_then (get32 header 0) (\<lambda>len.
     guard (len = 0 \<or> len > of_nat maxTunPacketSize) (InvalidPacketLength len)
     (readFull PacketRead r (unat len))))"

definition parseDstIP :: "bytes \<Rightarrow> IP option" where
  "parseDstIP packet =
     (if length packet < 1 then None
      else let version = drop_bit 4 (packet ! 0)
           in if version = 4 then (if length packet < 20 then None else Some (field packet 16 20))
              else if version = 6 then (if length packet < 40 then None else Some (field packet 24 40))
              else None)"

definition parseSrcIP :: "bytes \<Rightarrow> IP option" where
  "parseSrcIP packet =
     (if length packet < 1 then None
      else let version = drop_bit 4 (packet ! 0)
           in if version = 4 then (if length packet < 20 then None else Some (field packet 12 16))
              else if version = 6 then (if length packet < 40 then None else Some (field packet 8 24))
              else None)"

section \<open>Streams to peers\<close>

definition noteUDPFailure :: "int \<Rightarrow> string \<Rightarrow> TunForwarder \<Rightarrow> TunForwarder" where
  "noteUDPFailure now peerKey f =
     (let n = (case map_of (udpFail f) peerKey of None \<Rightarrow> 0 | Some st \<Rightarrow> uf_count st)
      in f\<lparr>udpFail := AList.update peerKey \<lparr>uf_last = now, uf_count = Suc n\<rparr> (udpFail f)\<rparr>)"

definition cooldownOf :: "nat \<Rightarrow> int" where
  "cooldownOf count =
     (let shift = (if count > 6 then 6 else count); cooldown = push_bit shift udpCooldown
      in if cooldown > udpCooldownMax then udpCooldownMax else cooldown)"

definition getUDPStream :: "tun_env \<Rightarrow> int \<Rightarrow> string \<Rightarrow> TunForwarder \<Rightarrow> (tun_error, nat) res \<times> TunForwarder" where
  "getUDPStream env now peerKey f =
     (if \<not> tunUDPStreamEnabled f then (err UDPDisabled, f)
      else if crossZone env peerKey then (err CrossZone, f)
      else if (case map_of (udpStreams f) peerKey of None \<Rightarrow> False | Some e \<Rightarrow> now - createdAt e < outboundStreamTTL)
        then (ok (os_conn (the (map_of (udpStreams f) peerKey))), f)
      else if (case map_of (udpFail f) peerKey of None \<Rightarrow> False | Some st \<Rightarrow> now - uf_last st < cooldownOf (uf_count st))
        then (err InCooldown, f)
      else case dialTUNUDP env peerKey of
             None \<Rightarrow> (err UDPDialFailed, noteUDPFailure now peerKey f)
           | Some c \<Rightarrow> (ok c, f\<lparr>udpStreams := AList.update peerKey \<lparr>os_conn = c, createdAt = now\<rparr> (udpStreams f),
                              udpFail := AList.delete peerKey (udpFail f)\<rparr>))"

definition closeOutboundStream :: "int \<Rightarrow> string \<Rightarrow> TunForwarder \<Rightarrow> TunForwarder" where
  "closeOutboundStream now peerKey f =
     (let f = (case map_of (outboundStreams f) peerKey of
                 None \<Rightarrow> f
               | Some e \<Rightarrow> f\<lparr>outboundStreams := AList.delete peerKey (outboundStreams f), tf_closed := tf_closed f @ [os_conn e]\<rparr>)
      in case map_of (udpStreams f) peerKey of
           None \<Rightarrow> f
         | Some e \<Rightarrow> noteUDPFailure now peerKey
                       (f\<lparr>udpStreams := AList.delete peerKey (udpStreams f), tf_closed := tf_closed f @ [os_conn e]\<rparr>))"

definition ResetUDPCooldown :: "string \<Rightarrow> TunForwarder \<Rightarrow> TunForwarder" where
  "ResetUDPCooldown peerKey f =
     (let f = (case map_of (udpStreams f) peerKey of
                 None \<Rightarrow> f
               | Some e \<Rightarrow> f\<lparr>udpStreams := AList.delete peerKey (udpStreams f), tf_closed := tf_closed f @ [os_conn e]\<rparr>)
      in f\<lparr>udpFail := AList.delete peerKey (udpFail f)\<rparr>)"

definition freshStream :: "int \<Rightarrow> string \<Rightarrow> TunForwarder \<Rightarrow> nat option" where
  \<comment> \<open>a cached stream younger than its time to live\<close>
  "freshStream now peerKey f =
     (case map_of (outboundStreams f) peerKey of
        None \<Rightarrow> None | Some e \<Rightarrow> if now - createdAt e < outboundStreamTTL then Some (os_conn e) else None)"

definition getOutboundStream :: "tun_env \<Rightarrow> int \<Rightarrow> string \<Rightarrow> TunForwarder \<Rightarrow> (tun_error, nat) res \<times> TunForwarder" where
  "getOutboundStream env now peerKey f =
     (case punchDataplane env peerKey of
        Some pd \<Rightarrow> (ok pd, f)
      | None \<Rightarrow>
      (case punchedStream env peerKey of
         Some sc \<Rightarrow> (ok sc, f)
       | None \<Rightarrow>
       (case getUDPStream env now peerKey f of
          (Inr c, f) \<Rightarrow> (ok c, f)
        | (Inl _, f) \<Rightarrow>
        (case freshStream now peerKey f of
           Some c \<Rightarrow> (ok c, f)
         | None \<Rightarrow>
             let f = (if map_of (outboundStreams f) peerKey \<noteq> None then closeOutboundStream now peerKey f else f)
             in case dialVirtualPort env peerKey of
                  None \<Rightarrow> (err DialFailed, f)
                | Some newConn \<Rightarrow>
                    (case freshStream now peerKey f of
                       Some c \<Rightarrow> (ok c, f\<lparr>tf_closed := tf_closed f @ [newConn]\<rparr>)
                     | None \<Rightarrow> (ok newConn, f\<lparr>outboundStreams := AList.update peerKey \<lparr>os_conn = newConn, createdAt = now\<rparr> (outboundStreams f)\<rparr>))))))"

section \<open>From the device to a peer\<close>

definition outboundRoute :: "(IP \<Rightarrow> string) \<Rightarrow> (string \<Rightarrow> IP option) \<Rightarrow> bytes \<Rightarrow> TunForwarder \<Rightarrow> string option" where
  \<comment> \<open>the peer a packet goes to, \<open>None\<close> when it is dropped\<close>
  "outboundRoute str parseIP packet f =
     (let r = tf_router f; other = (\<lambda>k. if IsSelf k r then None else Some k)
      in case parseDstIP packet of
           None \<Rightarrow> None
         | Some dstIP \<Rightarrow>
             if IsLocalIP dstIP r \<and> (case ResolveIP str dstIP r of None \<Rightarrow> True | Some k \<Rightarrow> IsSelf k r) then None
             else if \<not> IsInSubnet dstIP r then
               (case tf_routeManager f of
                  None \<Rightarrow> None
                | Some rm \<Rightarrow>
                    (case ResolveSubnetProxy dstIP rm of
                       None \<Rightarrow> None
                     | Some gw \<Rightarrow>
                         (case ResolveIP str (case parseIP gw of None \<Rightarrow> [] | Some ip \<Rightarrow> ip) r of None \<Rightarrow> None | Some k \<Rightarrow> other k)))
             else (case ResolveIP str dstIP r of None \<Rightarrow> None | Some k \<Rightarrow> other k))"

definition dropped :: "TunForwarder \<Rightarrow> TunForwarder" where
  "dropped f = f\<lparr>packetsDropped := packetsDropped f + 1\<rparr>"

definition tunReadStep ::
    "(IP \<Rightarrow> string) \<Rightarrow> (string \<Rightarrow> IP option) \<Rightarrow> tun_env \<Rightarrow> (nat \<Rightarrow> bool) \<Rightarrow> int \<Rightarrow> bytes \<Rightarrow> TunForwarder \<Rightarrow> TunForwarder" where
  \<comment> \<open>one packet of \<open>tunReadLoop\<close>; \<open>wr\<close> says on which connections a write succeeds\<close>
  "tunReadStep str parseIP env wr now packet f =
     (if packet = [] then f
      else case outboundRoute str parseIP packet f of
             None \<Rightarrow> dropped f
           | Some peerKey \<Rightarrow>
               (case getOutboundStream env now peerKey f of
                  (Inl _, f) \<Rightarrow> dropped f
                | (Inr conn, f) \<Rightarrow>
                    if \<not> wr conn then closeOutboundStream now peerKey (dropped f)
                    else f\<lparr>packetsSent := packetsSent f + 1, lastActivity := now, bytesSent := bytesSent f + of_nat (length packet),
                           tf_written := tf_written f @ [(peerKey, conn, writeFramedPacket packet)]\<rparr>))"

definition tunReadLoop ::
    "(IP \<Rightarrow> string) \<Rightarrow> (string \<Rightarrow> IP option) \<Rightarrow> tun_env \<Rightarrow> (nat \<Rightarrow> bool) \<Rightarrow> (int \<times> bytes) list \<Rightarrow> TunForwarder \<Rightarrow> TunForwarder" where
  \<comment> \<open>the packets the device delivers until it is closed, with the time of each\<close>
  "tunReadLoop str parseIP env wr packets f = fold (\<lambda>(now, packet). tunReadStep str parseIP env wr now packet) packets f"

section \<open>From a peer to the device\<close>

definition validateSourceIP :: "(IP \<Rightarrow> string) \<Rightarrow> bytes \<Rightarrow> string \<Rightarrow> TunForwarder \<Rightarrow> bool" where
  "validateSourceIP str packet peer f =
     (let r = tf_router f
      in case parseSrcIP packet of
           None \<Rightarrow> False
         | Some srcIP \<Rightarrow>
             (case ResolvePeer peer r of
                None \<Rightarrow> if peer = [] then False else IsInSubnet srcIP r
              | Some expectedIP \<Rightarrow>
                  if IP_Equal expectedIP srcIP then True
                  else if IsInSubnet srcIP r \<and> ResolveIP str srcIP r \<noteq> None then True
                  else if \<not> IsInSubnet srcIP r then
                    (case tf_routeManager f of
                       None \<Rightarrow> False
                     | Some rm \<Rightarrow> (case ResolveSubnetProxy srcIP rm of None \<Rightarrow> False | Some gw \<Rightarrow> gw = str expectedIP))
                  else False))"

definition inboundPacket ::
    "(IP \<Rightarrow> string) \<Rightarrow> string \<Rightarrow> int \<Rightarrow> bool \<Rightarrow> bytes \<Rightarrow> TunForwarder \<Rightarrow> bytes option \<times> TunForwarder" where
  \<comment> \<open>one packet of \<open>handleInboundStream\<close>; \<open>wr\<close> says whether the device takes it\<close>
  "inboundPacket str peer now wr packet f =
     (if peer = [] then (None, f\<lparr>packetsSpoofed := packetsSpoofed f + 1\<rparr>)
      else if \<not> validateSourceIP str packet peer f then (None, f\<lparr>packetsSpoofed := packetsSpoofed f + 1\<rparr>)
      else let (pass, f) = (case tf_acl f of
                              None \<Rightarrow> (True, f)
                            | Some e \<Rightarrow> let (d, e) = Check packet peer e in (d, f\<lparr>tf_acl := Some e\<rparr>))
           in if \<not> pass then (None, dropped f)
              else if \<not> wr then (None, dropped f)
              else (Some packet, f\<lparr>packetsReceived := packetsReceived f + 1, lastActivity := now,
                                   bytesReceived := bytesReceived f + of_nat (length packet)\<rparr>))"

lemma readFramedPacket_shorter: "readFramedPacket r = ok (p, r') \<Longrightarrow> length r' < length r"
  by (auto simp: readFramedPacket_def res_iffs readFull_eq_Inr tunPacketHeaderLen_def)

function handleInboundStream ::
    "(IP \<Rightarrow> string) \<Rightarrow> string \<Rightarrow> int \<Rightarrow> (bytes \<Rightarrow> bool) \<Rightarrow> bytes \<Rightarrow> TunForwarder \<Rightarrow> bytes list \<times> tun_error fail \<times> TunForwarder" where
  \<comment> \<open>the packets written to the device, the error that ended the loop, and the forwarder after it\<close>
  "handleInboundStream str peer now wr r f =
     (case readFramedPacket r of
        Inl e \<Rightarrow> ([], e, f)
      | Inr (packet, r') \<Rightarrow>
          let (out, f') = inboundPacket str peer now (wr packet) packet f;
              (ps, e, f'') = handleInboundStream str peer now wr r' f'
          in ((case out of None \<Rightarrow> ps | Some p \<Rightarrow> p # ps), e, f''))"
  by pat_completeness auto
termination
  by (relation "measure (\<lambda>(str, peer, now, wr, r, f). length r)") (auto simp: readFramedPacket_shorter)

declare handleInboundStream.simps [simp del]

section \<open>Framed packets\<close>

definition wf_packet :: "bytes \<Rightarrow> bool" where
  "wf_packet p \<longleftrightarrow> 1 \<le> length p \<and> length p \<le> maxTunPacketSize"

interpretation framed: stream_codec writeFramedPacket readFramedPacket wf_packet
proof
  fix p rest
  show "wf_packet p \<Longrightarrow> writeFramedPacket p \<noteq> []" by (simp add: writeFramedPacket_def put32_def)
  assume w: "wf_packet p"
  then have l: "unat (of_nat (length p) :: u32) = length p"
    by (simp add: wf_packet_def maxTunPacketSize_def unat_of_nat take_bit_nat_eq_self)
  have "of_nat (length p) \<noteq> (0 :: u32)" using l w by (metis not_one_le_zero unsigned_0 wf_packet_def)
  moreover have "\<not> of_nat (length p) > (of_nat maxTunPacketSize :: u32)"
    using l w by (simp add: word_less_nat_alt wf_packet_def maxTunPacketSize_def)
  moreover have "get32 (put32 (of_nat (length p))) 0 = (ok (of_nat (length p)) :: (tun_error, u32) res)"
    by (rule get32_drop [where r = "[]"]) simp
  ultimately show "readFramedPacket (writeFramedPacket p @ rest) = ok (p, rest)"
    using l by (simp add: readFramedPacket_def writeFramedPacket_def readFull_append tunPacketHeaderLen_def)
next
  fix bs p rest assume "readFramedPacket bs = ok (p, rest)"
  then obtain h r len where a: "bs = h @ r" "length h = 4" "get32 h 0 = (ok len :: (tun_error, u32) res)"
    "len \<noteq> 0" "\<not> len > of_nat maxTunPacketSize" "r = p @ rest" "length p = unat len"
    by (auto simp: readFramedPacket_def res_iffs readFull_eq_Inr tunPacketHeaderLen_def)
  have "h = put32 len" using get32_eq_Inr(2) [OF a(3)] a(2) by simp
  moreover have "unat len \<le> 65535" using a(5) by (simp add: word_less_nat_alt maxTunPacketSize_def)
  moreover have "unat len \<noteq> 0" using a(4) by (simp add: unsigned_eq_0_iff)
  ultimately show "wf_packet p \<and> bs = writeFramedPacket p @ rest"
    using a by (simp add: wf_packet_def maxTunPacketSize_def writeFramedPacket_def)
qed

section \<open>Which packets pass\<close>

lemma Check_keeps_decision: "fst (Check p q (snd (Check p' q' e))) = fst (Check p q e)"
  by (auto simp: Check_def counted_def split: option.splits prod.splits)

definition sourceAllowed :: "(IP \<Rightarrow> string) \<Rightarrow> bytes \<Rightarrow> string \<Rightarrow> TunForwarder \<Rightarrow> bool" where
  \<comment> \<open>what the anti-spoofing check stands for: the sender's own address, the address of another member
     of the mesh, an address behind the subnet the sender routes, or any mesh address while the sender
     has none\<close>
  "sourceAllowed str packet peer f \<longleftrightarrow>
     (case parseSrcIP packet of
        None \<Rightarrow> False
      | Some src \<Rightarrow>
          (case ResolvePeer peer (tf_router f) of
             None \<Rightarrow> peer \<noteq> [] \<and> IsInSubnet src (tf_router f)
           | Some ip \<Rightarrow> IP_Equal ip src \<or>
               (if IsInSubnet src (tf_router f) then ResolveIP str src (tf_router f) \<noteq> None
                else (case tf_routeManager f of None \<Rightarrow> False | Some rm \<Rightarrow> ResolveSubnetProxy src rm = Some (str ip)))))"

lemma validateSourceIP_iff: "validateSourceIP str packet peer f \<longleftrightarrow> sourceAllowed str packet peer f"
  by (auto simp: validateSourceIP_def sourceAllowed_def Let_def split: option.splits)

definition accepts :: "(IP \<Rightarrow> string) \<Rightarrow> string \<Rightarrow> TunForwarder \<Rightarrow> bytes \<Rightarrow> bool" where
  "accepts str peer f p \<longleftrightarrow> peer \<noteq> [] \<and> sourceAllowed str p peer f \<and> (case tf_acl f of None \<Rightarrow> True | Some e \<Rightarrow> fst (Check p peer e))"

lemma inboundPacket_accepts:
  assumes "inboundPacket str peer now wr packet f = (out, f')"
  shows "out = (if accepts str peer f packet \<and> wr then Some packet else None)"
    "accepts str q f' p = accepts str q f p" "tf_router f' = tf_router f" "tf_routeManager f' = tf_routeManager f"
proof -
  have *: "out = (if accepts str peer f packet \<and> wr then Some packet else None) \<and>
    tf_router f' = tf_router f \<and> tf_routeManager f' = tf_routeManager f \<and>
    (tf_acl f' = tf_acl f \<or> (\<exists>e. tf_acl f = Some e \<and> tf_acl f' = Some (snd (Check packet peer e))))"
    using assms
    by (auto simp: inboundPacket_def validateSourceIP_iff accepts_def dropped_def Let_def split: if_splits option.splits prod.splits)
  then show "out = (if accepts str peer f packet \<and> wr then Some packet else None)"
    "tf_router f' = tf_router f" "tf_routeManager f' = tf_routeManager f" by blast+
  show "accepts str q f' p = accepts str q f p"
    using * by (auto simp: accepts_def sourceAllowed_def Check_keeps_decision split: option.splits)
qed

lemma inboundPacket_counters:
  assumes "inboundPacket str peer now wr packet f = (out, f')"
  shows "packetsReceived f' = packetsReceived f + (if out = None then 0 else 1)"
    "bytesReceived f' = bytesReceived f + (if out = None then 0 else of_nat (length packet))"
    "packetsReceived f' + packetsDropped f' + packetsSpoofed f' = packetsReceived f + packetsDropped f + packetsSpoofed f + 1"
  using assms
  by (auto simp: inboundPacket_def dropped_def Let_def split: if_splits option.splits prod.splits)

section \<open>A stream of packets\<close>

definition inboundCounts :: "TunForwarder \<Rightarrow> bytes list \<Rightarrow> nat \<Rightarrow> TunForwarder \<Rightarrow> bool" where
  \<comment> \<open>\<open>n\<close> packets were handled and \<open>ps\<close> of them written to the device\<close>
  "inboundCounts f ps n f' \<longleftrightarrow> packetsReceived f' = packetsReceived f + of_nat (length ps) \<and>
     bytesReceived f' = bytesReceived f + of_nat (length (concat ps)) \<and>
     packetsReceived f' + packetsDropped f' + packetsSpoofed f' = packetsReceived f + packetsDropped f + packetsSpoofed f + of_nat n"

lemma handleInboundStream_frames:
  assumes "\<forall>p\<in>set ps. wf_packet p" "readFramedPacket rest = Inl e"
  shows "\<exists>f'. handleInboundStream str peer now wr (concat (map writeFramedPacket ps) @ rest) f =
      (filter (\<lambda>p. accepts str peer f p \<and> wr p) ps, e, f') \<and>
    inboundCounts f (filter (\<lambda>p. accepts str peer f p \<and> wr p) ps) (length ps) f'"
  using assms(1)
proof (induction ps arbitrary: f)
  case Nil
  then show ?case using assms(2) by (simp add: handleInboundStream.simps inboundCounts_def)
next
  case (Cons p ps)
  obtain o1 f1 where i: "inboundPacket str peer now (wr p) p f = (o1, f1)" by fastforce
  have r: "readFramedPacket (concat (map writeFramedPacket (p # ps)) @ rest) = ok (p, concat (map writeFramedPacket ps) @ rest)"
    using framed.dec_enc [of p "concat (map writeFramedPacket ps) @ rest"] Cons.prems by simp
  note A = inboundPacket_accepts [OF i] and C = inboundPacket_counters [OF i]
  have eq: "(\<lambda>p. accepts str peer f1 p \<and> wr p) = (\<lambda>p. accepts str peer f p \<and> wr p)" using A(2) by simp
  have "\<forall>p\<in>set ps. wf_packet p" using Cons.prems by simp
  note IH = Cons.IH [OF this, of f1, unfolded eq]
  then obtain f' where f': "handleInboundStream str peer now wr (concat (map writeFramedPacket ps) @ rest) f1 =
      (filter (\<lambda>p. accepts str peer f p \<and> wr p) ps, e, f')"
    "inboundCounts f1 (filter (\<lambda>p. accepts str peer f p \<and> wr p) ps) (length ps) f'" by blast
  have "handleInboundStream str peer now wr (concat (map writeFramedPacket (p # ps)) @ rest) f =
      (filter (\<lambda>p. accepts str peer f p \<and> wr p) (p # ps), e, f')"
    by (subst handleInboundStream.simps, subst r) (simp add: i f'(1) A(1))
  moreover have "inboundCounts f (filter (\<lambda>p. accepts str peer f p \<and> wr p) (p # ps)) (length (p # ps)) f'"
    using f'(2) C A(1) by (auto simp: inboundCounts_def)
  ultimately show ?case by blast
qed

section \<open>A stream to a peer\<close>

lemma closeOutboundStream_kept [simp]:
  "tf_router (closeOutboundStream now k f) = tf_router f" "tf_routeManager (closeOutboundStream now k f) = tf_routeManager f"
  "tf_written (closeOutboundStream now k f) = tf_written f" "packetsSent (closeOutboundStream now k f) = packetsSent f"
  "packetsDropped (closeOutboundStream now k f) = packetsDropped f" "bytesSent (closeOutboundStream now k f) = bytesSent f"
  by (simp_all add: closeOutboundStream_def noteUDPFailure_def Let_def split: option.splits)

lemma getUDPStream_kept:
  assumes "getUDPStream env now k f = (r, f')"
  shows "tf_router f' = tf_router f" "tf_routeManager f' = tf_routeManager f" "tf_written f' = tf_written f"
    "packetsSent f' = packetsSent f" "packetsDropped f' = packetsDropped f" "bytesSent f' = bytesSent f"
  using assms by (auto simp: getUDPStream_def noteUDPFailure_def Let_def split: if_splits option.splits)

lemma getOutboundStream_kept:
  assumes "getOutboundStream env now k f = (r, f')"
  shows "tf_router f' = tf_router f \<and> tf_routeManager f' = tf_routeManager f \<and> tf_written f' = tf_written f \<and>
    packetsSent f' = packetsSent f \<and> packetsDropped f' = packetsDropped f \<and> bytesSent f' = bytesSent f"
proof -
  obtain r1 f1 where u: "getUDPStream env now k f = (r1, f1)" by fastforce
  show ?thesis
    using assms getUDPStream_kept [OF u]
    by (auto simp: getOutboundStream_def u Let_def split: option.splits sum.splits if_splits)
qed

definition sentTo :: "string \<Rightarrow> TunForwarder \<Rightarrow> bytes" where
  \<comment> \<open>what has been written to the streams of a peer, in order\<close>
  "sentTo k f = concat (map (\<lambda>(_, _, bs). bs) (filter (\<lambda>(j, _, _). j = k) (tf_written f)))"

lemma getOutboundStream_dials:
  assumes "dialVirtualPort env k \<noteq> None"
  shows "\<exists>c f'. getOutboundStream env now k f = (ok c, f')"
proof -
  obtain r1 f1 where u: "getUDPStream env now k f = (r1, f1)" by fastforce
  show ?thesis
    using assms by (auto simp: getOutboundStream_def u Let_def split: option.splits sum.splits)
qed

lemma outboundRoute_cong:
  "tf_router f' = tf_router f \<Longrightarrow> tf_routeManager f' = tf_routeManager f \<Longrightarrow> outboundRoute str parseIP p f' = outboundRoute str parseIP p f"
  by (simp only: outboundRoute_def)

lemma outboundRoute_not_self: "outboundRoute str parseIP p f = Some k \<Longrightarrow> \<not> IsSelf k (tf_router f)"
  by (auto simp: outboundRoute_def Let_def split: option.splits if_splits)

lemma tunReadStep_sends:
  assumes "\<And>k. dialVirtualPort env k \<noteq> None" "p \<noteq> []"
  shows "case outboundRoute str parseIP p f of
      None \<Rightarrow> tunReadStep str parseIP env (\<lambda>_. True) now p f = dropped f
    | Some k \<Rightarrow> \<exists>c f'. getOutboundStream env now k f = (ok c, f') \<and> tunReadStep str parseIP env (\<lambda>_. True) now p f =
        f'\<lparr>packetsSent := packetsSent f + 1, lastActivity := now, bytesSent := bytesSent f + of_nat (length p),
           tf_written := tf_written f @ [(k, c, writeFramedPacket p)]\<rparr>"
proof (cases "outboundRoute str parseIP p f")
  case None
  then show ?thesis using assms(2) by (simp add: tunReadStep_def)
next
  case (Some k)
  obtain c f' where g: "getOutboundStream env now k f = (ok c, f')" using getOutboundStream_dials [OF assms(1)] by blast
  then show ?thesis using Some assms(2) getOutboundStream_kept [OF g] by (simp add: tunReadStep_def)
qed

definition routedTo :: "(IP \<Rightarrow> string) \<Rightarrow> (string \<Rightarrow> IP option) \<Rightarrow> TunForwarder \<Rightarrow> string \<Rightarrow> (int \<times> bytes) list \<Rightarrow> bytes list" where
  "routedTo str parseIP f k packets = filter (\<lambda>p. outboundRoute str parseIP p f = Some k) (map snd packets)"

lemma tunReadLoop_sends:
  assumes "\<And>k. dialVirtualPort env k \<noteq> None" "\<forall>x\<in>set packets. snd x \<noteq> []"
  shows "sentTo k (tunReadLoop str parseIP env (\<lambda>_. True) packets f) =
      sentTo k f @ concat (map writeFramedPacket (routedTo str parseIP f k packets)) \<and>
    packetsSent (tunReadLoop str parseIP env (\<lambda>_. True) packets f) + packetsDropped (tunReadLoop str parseIP env (\<lambda>_. True) packets f) =
      packetsSent f + packetsDropped f + of_nat (length packets)"
  using assms(2)
proof (induction packets arbitrary: f)
  case Nil
  then show ?case by (simp add: tunReadLoop_def routedTo_def)
next
  case (Cons x packets)
  obtain now p where x: "x = (now, p)" by fastforce
  let ?f = "tunReadStep str parseIP env (\<lambda>_. True) now p f"
  have p: "p \<noteq> []" using Cons.prems x by simp
  have kept: "tf_router ?f = tf_router f \<and> tf_routeManager ?f = tf_routeManager f \<and>
      packetsSent ?f + packetsDropped ?f = packetsSent f + packetsDropped f + 1 \<and>
      sentTo k ?f = sentTo k f @ (if outboundRoute str parseIP p f = Some k then writeFramedPacket p else [])"
    using tunReadStep_sends [OF assms(1) p, where str = str and parseIP = parseIP and f = f and now = now]
    by (cases "outboundRoute str parseIP p f") (auto simp: dropped_def sentTo_def dest!: getOutboundStream_kept)
  then have "routedTo str parseIP ?f k packets = routedTo str parseIP f k packets"
    using outboundRoute_cong [of ?f f] by (simp add: routedTo_def)
  moreover have "tunReadLoop str parseIP env (\<lambda>_. True) (x # packets) f = tunReadLoop str parseIP env (\<lambda>_. True) packets ?f"
    by (simp add: tunReadLoop_def x)
  ultimately show ?case using Cons.IH [of ?f] Cons.prems kept x by (auto simp: routedTo_def)
qed

section \<open>Properties\<close>


definition toyAddr :: "IP \<Rightarrow> string" where
  "toyAddr ip = map (\<lambda>b. char_of (unat b)) ip"

definition toyForwarder :: "string \<Rightarrow> TunForwarder" where
  "toyForwarder self = projr (NewTunForwarder True
     (Some (AddRoute toyAddr [10, 0, 0, 1] ''a'' (AddRoute toyAddr [10, 0, 0, 2] ''b''
       (NewRouter (Some \<lparr>net_IP = [10, 0, 0, 0], net_Mask = [255, 255, 255, 248]\<rparr>) self)))) True None None)"

definition toyIP :: "byte \<Rightarrow> byte \<Rightarrow> bytes" where
  "toyIP src dst = [69, 0, 0, 20, 0, 0, 0, 0, 64, 1, 0, 0, 10, 0, 0, src, 10, 0, 0, dst]"

definition toyEnv :: tun_env where
  "toyEnv = \<lparr>punchDataplane = \<lambda>_. None, punchedStream = \<lambda>_. None, crossZone = \<lambda>_. False, dialTUNUDP = \<lambda>_. None, dialVirtualPort = \<lambda>_. Some 7\<rparr>"

definition toyPackets :: "(int \<times> bytes) list" where
  "toyPackets = [(1, toyIP 1 2), (2, toyIP 3 2), (3, toyIP 1 5), (4, toyIP 1 1)]"


text \<open>
  The check of the source is weaker than the comment in front of it: a peer may use the address of any
  other member of the mesh, and a peer without an address of its own any address of the subnet.
\<close>

lemma member_address_accepted:
  assumes "parseSrcIP p = Some src" "IsInSubnet src (tf_router f)" "ResolveIP str src (tf_router f) = Some victim" "peer \<noteq> []"
  shows "validateSourceIP str p peer f"
  using assms by (auto simp: validateSourceIP_iff sourceAllowed_def split: option.splits)

lemma cooldown_bounds: "udpCooldown \<le> cooldownOf n" "cooldownOf n \<le> udpCooldownMax" "m \<le> n \<Longrightarrow> cooldownOf m \<le> cooldownOf n"
proof -
  have c: "cooldownOf n = min (udpCooldown * 2 ^ min n 6) udpCooldownMax" for n
    by (auto simp: cooldownOf_def Let_def push_bit_eq_mult min_def)
  have "(1 :: int) \<le> 2 ^ min n 6" by simp
  then show "udpCooldown \<le> cooldownOf n" "cooldownOf n \<le> udpCooldownMax" by (auto simp: c udpCooldown_def udpCooldownMax_def)
  assume "m \<le> n"
  then have "(2 :: int) ^ min m 6 \<le> 2 ^ min n 6" by (intro power_increasing) auto
  then show "cooldownOf m \<le> cooldownOf n" unfolding c by (intro min.mono mult_left_mono) (auto simp: udpCooldown_def)
qed

end
