(* ===== verification/Udp_Conn.thy ===== *)
theory Udp_Conn
  imports Prelude "HOL-Library.Signed_Division" "HOL-Library.Sublist"
begin

text \<open>
  The reliable stream over UDP datagrams (\<open>src/internal/mesh/udp_conn.go\<close>): sequence numbers,
  cumulative and delayed acknowledgements, retransmission, the adaptive timeout and the probe for
  a larger payload. The datagrams a connection puts on the wire are recorded; the network is what
  may happen to them. The floating-point averages of \<open>sampleRTT\<close> are exact on integers, as
  float64 is for durations below \<open>2 ^ 50\<close> ns. A call that never returns has the value \<open>None\<close>.
\<close>

section \<open>State\<close>

definition udpFrameTypeData :: byte where "udpFrameTypeData = 1"
definition udpFrameTypeAck :: byte where "udpFrameTypeAck = 2"
definition udpFrameTypeFin :: byte where "udpFrameTypeFin = 3"
definition udpFrameTypeRawData :: byte where "udpFrameTypeRawData = 4"

definition udpFrameHeaderLen :: nat where "udpFrameHeaderLen = 11"
definition udpMaxPayload :: nat where "udpMaxPayload = 40"
definition udpPayloadLarge :: nat where "udpPayloadLarge = 1200"
definition udpPayloadProbeInterval :: int where "udpPayloadProbeInterval = 60 * 10 ^ 9"
definition udpWindowSize :: nat where "udpWindowSize = 128"
definition udpMaxSeq :: u32 where "udpMaxSeq = 2 ^ 30"
definition udpWriteTimeout :: int where "udpWriteTimeout = 10 * 10 ^ 9"
definition udpRTOMin :: int where "udpRTOMin = 500 * 10 ^ 6"
definition udpRTOMax :: int where "udpRTOMax = 5 * 10 ^ 9"

record udpInflightFrame =
  if_data :: bytes
  sentAt :: int

record udpStreamConn =
  nextSeq :: u32
  baseSeq :: u32
  inflight :: "(u32 \<times> udpInflightFrame) list"
  ackRecv :: "u32 list"
  rtoNs :: int
  srttNs :: int
  rttvarNs :: int
  uc_closed :: bool
  punched :: bool
  lastInboundNs :: int
  payloadSize :: nat
  lastProbeAt :: "int option"
  probePending :: bool
  recvBuf :: "(u32 \<times> bytes) list"
  recvNext :: u32
  readBuf :: bytes
  ackPending :: u32
  ackCount :: nat
  ackTimer :: bool
  finRecv :: bool
  uc_done :: bool
  sockErr :: bool
  uc_sent :: "bytes list"

definition newUDPStreamConn :: udpStreamConn where
  "newUDPStreamConn =
     \<lparr>nextSeq = 0, baseSeq = 0, inflight = [], ackRecv = [], rtoNs = udpRTOMin, srttNs = 0, rttvarNs = 0, uc_closed = False,
      punched = False, lastInboundNs = 0, payloadSize = udpMaxPayload, lastProbeAt = None, probePending = False, recvBuf = [],
      recvNext = 0, readBuf = [], ackPending = 0, ackCount = 0, ackTimer = False, finRecv = False, uc_done = False,
      sockErr = False, uc_sent = []\<rparr>"

definition udpSend :: "bytes \<Rightarrow> udpStreamConn \<Rightarrow> udpStreamConn" where
  \<comment> \<open>\<open>WriteToUDP\<close>; \<open>sockErr\<close> says that the socket refuses datagrams\<close>
  "udpSend d sc = (if sockErr sc then sc else sc\<lparr>uc_sent := uc_sent sc @ [d]\<rparr>)"

definition udpFrame :: "byte \<Rightarrow> u32 \<Rightarrow> u32 \<Rightarrow> bytes \<Rightarrow> bytes" where
  "udpFrame ft seq ack payload = [ft] @ put32 seq @ put32 ack @ put16 (of_nat (length payload)) @ payload"

definition seqBefore :: "u32 \<Rightarrow> u32 \<Rightarrow> bool" where
  "seqBefore a b =
     (let diff = (uint b - uint a) smod uint udpMaxSeq;
          diff = (if diff < 0 then diff + uint udpMaxSeq else diff)
      in diff \<noteq> 0 \<and> diff < uint udpMaxSeq div 2)"

definition nextOf :: "u32 \<Rightarrow> u32" where
  "nextOf seq = (seq + 1) mod udpMaxSeq"

section \<open>Round-trip times\<close>

definition sampleRTT :: "int \<Rightarrow> udpStreamConn \<Rightarrow> udpStreamConn" where
  "sampleRTT rtt sc =
     (if rtt \<le> 0 then sc
      else let srtt = (if srttNs sc = 0 then rtt else (7 * srttNs sc + rtt) div 8);
               rttvar = (3 * rttvarNs sc + \<bar>rtt - srtt\<bar>) div 4;
               rto = srtt + 4 * rttvar;
               rto = (if rto < udpRTOMin then udpRTOMin else rto);
               rto = (if rto > udpRTOMax then udpRTOMax else rto)
           in sc\<lparr>srttNs := srtt, rttvarNs := rttvar, rtoNs := rto\<rparr>)"

definition retransmitTick :: "udpStreamConn \<Rightarrow> int" where
  "retransmitTick sc =
     (let tick = rtoNs sc div 4;
          tick = (if tick < 50 * 10 ^ 6 then 50 * 10 ^ 6 else tick)
      in if tick > 500 * 10 ^ 6 then 500 * 10 ^ 6 else tick)"

section \<open>Sending\<close>

definition isProbe :: "udpInflightFrame \<Rightarrow> bool" where
  "isProbe f \<longleftrightarrow> length (if_data f) > udpFrameHeaderLen + udpMaxPayload"

definition ackLocked :: "int \<Rightarrow> u32 \<Rightarrow> udpStreamConn \<Rightarrow> udpStreamConn" where
  "ackLocked now ack sc =
     (let acked = filter (\<lambda>(seq, f). \<not> seqBefore ack seq) (inflight sc);
          sc = (if probePending sc \<and> (\<exists>p\<in>set acked. isProbe (snd p))
                then sc\<lparr>payloadSize := udpPayloadLarge, probePending := False\<rparr> else sc);
          sc = sc\<lparr>inflight := filter (\<lambda>(seq, f). seqBefore ack seq) (inflight sc)\<rparr>;
          sc = (if \<not> seqBefore ack (baseSeq sc) then sc\<lparr>baseSeq := nextOf ack\<rparr> else sc)
      in case map (\<lambda>p. sentAt (snd p)) acked of
           [] \<Rightarrow> sc
         | t # ts \<Rightarrow> sampleRTT (now - fold max ts t) sc)"

definition advanceBase :: "int \<Rightarrow> udpStreamConn \<Rightarrow> udpStreamConn" where
  \<comment> \<open>one acknowledgement taken from the channel by \<open>recvLoop\<close>, or by a waiting \<open>Write\<close>\<close>
  "advanceBase now sc =
     (case ackRecv sc of [] \<Rightarrow> sc | ack # acks \<Rightarrow> ackLocked now ack (sc\<lparr>ackRecv := acks\<rparr>))"

definition uc_Close :: "udpStreamConn \<Rightarrow> udpStreamConn" where
  "uc_Close sc =
     (if uc_done sc then sc
      else (udpSend (udpFrame udpFrameTypeFin 0 (baseSeq sc) []) (sc\<lparr>uc_closed := True\<rparr>))\<lparr>uc_done := True\<rparr>)"

primrec resendOverdue :: "int \<Rightarrow> (u32 \<times> udpInflightFrame) list \<Rightarrow> udpStreamConn \<Rightarrow> udpStreamConn option" where
  "resendOverdue now [] sc = Some sc"
| "resendOverdue now (p # ps) sc =
     (if now - sentAt (snd p) \<ge> rtoNs sc then
        if probePending sc \<and> isProbe (snd p) then
          \<comment> \<open>\<open>Close\<close> waits for the mutex that the caller of \<open>retransmitLocked\<close> holds, unless it ran before\<close>
          (if uc_done sc then Some sc else None)
        else resendOverdue now ps
               ((udpSend (if_data (snd p)) sc)\<lparr>inflight := AList.update (fst p) ((snd p)\<lparr>sentAt := now\<rparr>) (inflight sc)\<rparr>)
      else resendOverdue now ps sc)"

definition retransmitLocked :: "int \<Rightarrow> udpStreamConn \<Rightarrow> udpStreamConn option" where
  "retransmitLocked now sc = resendOverdue now (inflight sc) sc"

definition chunkSizeOf :: "bytes \<Rightarrow> udpStreamConn \<Rightarrow> nat" where
  "chunkSizeOf p sc = (if length p < udpPayloadLarge then udpMaxPayload else payloadSize sc)"

definition probes :: "int \<Rightarrow> bytes \<Rightarrow> udpStreamConn \<Rightarrow> bool" where
  "probes now p sc \<longleftrightarrow> chunkSizeOf p sc < udpPayloadLarge \<and> \<not> probePending sc \<and> length p \<ge> udpPayloadLarge \<and>
     (case lastProbeAt sc of None \<Rightarrow> True | Some t \<Rightarrow> now - t \<ge> udpPayloadProbeInterval)"

definition writeChunk :: "int \<Rightarrow> bytes \<Rightarrow> udpStreamConn \<Rightarrow> bytes \<times> udpStreamConn" where
  \<comment> \<open>the frame that one round of \<open>Write\<close> cuts from \<open>p\<close>, and the connection after it\<close>
  "writeChunk now p sc =
     (let chunk = take (if probes now p sc then udpPayloadLarge else chunkSizeOf p sc) p;
          sc = (if probes now p sc then sc\<lparr>probePending := True, lastProbeAt := Some now\<rparr> else sc);
          seq = nextSeq sc;
          frame = udpFrame udpFrameTypeData seq (baseSeq sc) chunk
      in (chunk, udpSend frame (sc\<lparr>nextSeq := nextOf seq, inflight := AList.update seq \<lparr>if_data = frame, sentAt = now\<rparr> (inflight sc)\<rparr>)))"

datatype udp_write_error = UDPClosed | SocketError | WriteTimeout nat

datatype window_event = WindowAck | WindowPacket bytes | WindowRto | WindowDone

section \<open>Receiving\<close>

definition sendAck :: "u32 \<Rightarrow> udpStreamConn \<Rightarrow> udpStreamConn" where
  "sendAck seq sc = udpSend (udpFrame udpFrameTypeAck 0 seq []) sc"

definition countFrame :: "bool \<Rightarrow> udpStreamConn \<Rightarrow> udpStreamConn" where
  \<comment> \<open>every second frame is acknowledged at once, the others when the timer fires (\<open>arm\<close>)\<close>
  "countFrame arm sc =
     (if Suc (ackCount sc) \<ge> 2 then sendAck (ackPending sc) (sc\<lparr>ackCount := 0\<rparr>)
      else sc\<lparr>ackCount := Suc (ackCount sc), ackTimer := (ackTimer sc \<or> arm)\<rparr>)"

primrec contiguous :: "nat \<Rightarrow> (u32 \<times> bytes) list \<Rightarrow> u32 \<Rightarrow> u32" where
  \<comment> \<open>the walk over buffered frames; each round finds another key, so the size of the map bounds it\<close>
  "contiguous 0 buf k = k"
| "contiguous (Suc n) buf k = (if map_of buf (nextOf k) \<noteq> None then contiguous n buf (nextOf k) else k)"

definition uc_handleData :: "u32 \<Rightarrow> bytes \<Rightarrow> udpStreamConn \<Rightarrow> udpStreamConn" where
  "uc_handleData seq payload sc =
     (let sc = (if \<not> seqBefore seq (recvNext sc) \<and> map_of (recvBuf sc) seq = None
                then sc\<lparr>recvBuf := AList.update seq payload (recvBuf sc)\<rparr> else sc);
          a = ackPending sc;
          a = (if (seq = a \<or> seq = nextOf a) \<and> seqBefore a seq then seq else a)
      in countFrame True (sc\<lparr>ackPending := contiguous (length (recvBuf sc)) (recvBuf sc) a\<rparr>))"

definition handlePacket :: "int \<Rightarrow> bytes \<Rightarrow> udpStreamConn \<Rightarrow> udpStreamConn" where
  "handlePacket now data sc =
     (if length data < udpFrameHeaderLen then sc
      else let sc = sc\<lparr>lastInboundNs := now\<rparr>;
               ftype = data ! 0; seq = dec32 (take 4 (drop 1 data)); ack = dec32 (take 4 (drop 5 data));
               plen = unat (dec16 (take 2 (drop 9 data)));
               payload = take plen (drop udpFrameHeaderLen data)
           in if ftype = udpFrameTypeRawData then
                (if plen > length data - udpFrameHeaderLen then sc else sc\<lparr>readBuf := readBuf sc @ payload\<rparr>)
              else if ftype = udpFrameTypeData then
                (if seq = 0xFFFFFFFF then countFrame False sc
                 else if plen > length data - udpFrameHeaderLen then sc
                 else uc_handleData seq payload sc)
              else if ftype = udpFrameTypeAck then
                (if length (ackRecv sc) < 4096 then sc\<lparr>ackRecv := ackRecv sc @ [ack]\<rparr> else sc)
              else if ftype = udpFrameTypeFin then sc\<lparr>finRecv := True\<rparr>
              else sc)"

definition ackTimerFires :: "udpStreamConn \<Rightarrow> udpStreamConn" where
  "ackTimerFires sc =
     (if \<not> ackTimer sc then sc
      else let sc = sc\<lparr>ackTimer := False\<rparr>
           in if uc_done sc then sc else sendAck (ackPending sc) (sc\<lparr>ackCount := 0\<rparr>))"

definition idleExpires :: "udpStreamConn \<Rightarrow> udpStreamConn" where
  "idleExpires sc = (if punched sc then sc else uc_Close sc)"

datatype udp_read = ReadData bytes | ReadClosed | ReadEOF | ReadBlocks

function uc_Read :: "nat \<Rightarrow> udpStreamConn \<Rightarrow> udp_read \<times> udpStreamConn" where
  \<comment> \<open>\<open>n\<close> is the size of the buffer; \<open>ReadBlocks\<close> when the call waits for a datagram\<close>
  "uc_Read n sc =
     (if readBuf sc \<noteq> [] then (ReadData (take n (readBuf sc)), sc\<lparr>readBuf := drop n (readBuf sc)\<rparr>)
      else case map_of (recvBuf sc) (recvNext sc) of
             Some data \<Rightarrow>
               if data = [] then uc_Read n (sc\<lparr>recvBuf := AList.delete (recvNext sc) (recvBuf sc), recvNext := nextOf (recvNext sc)\<rparr>)
               else let sc' = (if n < length data then sc\<lparr>readBuf := drop n data\<rparr>
                               else sc\<lparr>recvBuf := AList.delete (recvNext sc) (recvBuf sc)\<rparr>)
                    in (ReadData (take n data), sc'\<lparr>recvNext := nextOf (recvNext sc)\<rparr>)
           | None \<Rightarrow> (if uc_done sc then ReadClosed else if finRecv sc then ReadEOF else ReadBlocks, sc))"
  by pat_completeness auto
termination
  by (relation "measure (\<lambda>(n, sc). length (recvBuf sc))") (auto simp: length_alist_delete_less)

declare uc_Read.simps [simp del]

section \<open>Write\<close>

fun waitWindow ::
    "int \<Rightarrow> int \<Rightarrow> (int \<times> window_event) list \<Rightarrow> udpStreamConn \<Rightarrow>
       (udp_write_error option \<times> int \<times> (int \<times> window_event) list \<times> udpStreamConn) option" where
  \<comment> \<open>\<open>start\<close>: when the wait began; \<open>now\<close>: when the loop was last entered; the events are what the
      \<open>select\<close> meets, a datagram among them being handled by another goroutine; without a further event
      the call is still waiting\<close>
  "waitWindow start now es sc =
     (if length (inflight sc) < udpWindowSize then Some (None, now, es, sc)
      else if now - start > udpWriteTimeout then Some (Some (WriteTimeout (length (inflight sc))), now, es, sc)
      else case es of
             [] \<Rightarrow> None
           | (t, WindowAck) # es \<Rightarrow> waitWindow start t es (advanceBase t sc)
           | (t, WindowPacket d) # es \<Rightarrow> waitWindow start now es (handlePacket t d sc)
           | (t, WindowRto) # es \<Rightarrow>
               (case retransmitLocked t sc of None \<Rightarrow> None | Some sc \<Rightarrow> waitWindow start t es sc)
           | (t, WindowDone) # es \<Rightarrow>
               if uc_done sc then Some (Some UDPClosed, t, es, sc) else waitWindow start now es sc)"

declare waitWindow.simps [simp del]

partial_function (option) uc_writeLoop ::
    "nat \<Rightarrow> int \<Rightarrow> (int \<times> window_event) list \<Rightarrow> bytes \<Rightarrow> udpStreamConn \<Rightarrow> ((nat \<times> udp_write_error option) \<times> udpStreamConn) option" where
  "uc_writeLoop n now es p sc =
     (if p = [] then Some ((n, None), sc)
      else let (chunk, sc') = writeChunk now p sc
           in if sockErr sc then Some ((n, Some SocketError), sc')
              else case waitWindow now now es sc' of
                     None \<Rightarrow> None
                   | Some (e, t, es', sc'') \<Rightarrow>
                       (case e of
                          Some e \<Rightarrow> Some ((n + length chunk, Some e), sc'')
                        | None \<Rightarrow> uc_writeLoop (n + length chunk) t es' (drop (length chunk) p) sc''))"

definition uc_Write ::
    "int \<Rightarrow> (int \<times> window_event) list \<Rightarrow> bytes \<Rightarrow> udpStreamConn \<Rightarrow> ((nat \<times> udp_write_error option) \<times> udpStreamConn) option" where
  "uc_Write now es p sc =
     (if uc_closed sc then Some ((0, Some UDPClosed), sc) else uc_writeLoop 0 now es p sc)"

section \<open>Sequence numbers and frames\<close>

lemma uint_udpMaxSeq: "uint udpMaxSeq = 2 ^ 30"
  by (simp add: udpMaxSeq_def)

lemma unat_udpMaxSeq: "unat udpMaxSeq = 2 ^ 30"
  unfolding nat_uint_eq [symmetric] uint_udpMaxSeq by simp

lemma uint_of_nat_seq: "i < 2 ^ 30 \<Longrightarrow> uint (of_nat i :: u32) = int i"
  by (simp add: uint_nat unat_of_nat)

lemma seqBefore_nat:
  assumes "i < 2 ^ 30" "j < 2 ^ 30"
  shows "seqBefore (of_nat i) (of_nat j) \<longleftrightarrow> i < j \<and> j - i < 2 ^ 29 \<or> j < i \<and> i - j > 2 ^ 29"
proof -
  have "(int j - int i) smod 2 ^ 30 = int j - int i"
    using assms by (auto simp: signed_modulo_int_def abs_if sgn_if)
  then show ?thesis using assms by (auto simp: seqBefore_def uint_udpMaxSeq uint_of_nat_seq Let_def)
qed

lemma nextOf_nat: "Suc i < 2 ^ 30 \<Longrightarrow> nextOf (of_nat i) = of_nat (Suc i)"
proof -
  assume i: "Suc i < 2 ^ 30"
  then have "unat (of_nat (Suc i) :: u32) = Suc i" by (intro unat_of_nat_small) simp
  then have "unat (of_nat (Suc i) :: u32) mod 2 ^ 30 = Suc i" using i by simp
  moreover have "nextOf (of_nat i) = of_nat (unat (of_nat (Suc i) :: u32) mod 2 ^ 30)"
    by (simp only: nextOf_def word_arith_nat_mod unat_udpMaxSeq of_nat_Suc add.commute [of 1])
  ultimately show ?thesis by simp
qed

lemma of_nat_seq_iff: "i < 2 ^ 30 \<Longrightarrow> j < 2 ^ 30 \<Longrightarrow> (of_nat i :: u32) = of_nat j \<longleftrightarrow> i = j"
  by (rule of_nat_u32_iff) auto

lemma udpFrame_fields:
  "length (udpFrame ft seq ack p) = 11 + length p" "udpFrame ft seq ack p ! 0 = ft"
  "dec32 (take 4 (drop (Suc 0) (udpFrame ft seq ack p))) = seq" "dec32 (take 4 (drop 5 (udpFrame ft seq ack p))) = ack"
  "dec16 (take 2 (drop 9 (udpFrame ft seq ack p))) = of_nat (length p)" "drop 11 (udpFrame ft seq ack p) = p"
  by (simp_all add: udpFrame_def)

lemmas udp_types = udpFrameTypeData_def udpFrameTypeAck_def udpFrameTypeFin_def udpFrameTypeRawData_def

lemma handlePacket_frame:
  "length p < 65536 \<Longrightarrow> seq \<noteq> 0xFFFFFFFF \<Longrightarrow>
     handlePacket now (udpFrame udpFrameTypeData seq ack p) sc = uc_handleData seq p (sc\<lparr>lastInboundNs := now\<rparr>)"
  "handlePacket now (udpFrame udpFrameTypeAck 0 ack []) sc =
     sc\<lparr>lastInboundNs := now, ackRecv := (if length (ackRecv sc) < 4096 then ackRecv sc @ [ack] else ackRecv sc)\<rparr>"
  "handlePacket now (udpFrame udpFrameTypeFin 0 ack []) sc = sc\<lparr>lastInboundNs := now, finRecv := True\<rparr>"
  by (simp_all add: handlePacket_def udpFrame_fields udpFrameHeaderLen_def udp_types Let_def unat_of_nat_small)

section \<open>Two connections and a network\<close>

text \<open>
  What can happen to one connection: a round of \<open>Write\<close>, an acknowledgement taken from the channel, a
  retransmission, a datagram, a \<open>Read\<close>, the two timers, \<open>Close\<close>, and the socket failing or recovering.
  The result is what was framed, what was read, and the connection after it.
\<close>

datatype udp_op =
    DoChunk int bytes | DoAck int | DoResend int | DoPacket int bytes | DoRead nat
  | DoAckTimer | DoIdle | DoClose | DoPunched bool | DoSocket bool

definition bytesOf :: "udp_read \<Rightarrow> bytes" where
  "bytesOf r = (case r of ReadData bs \<Rightarrow> bs | _ \<Rightarrow> [])"

definition perform :: "udp_op \<Rightarrow> udpStreamConn \<Rightarrow> (bytes \<times> bytes \<times> udpStreamConn) option" where
  "perform op sc =
     (case op of
        DoChunk now p \<Rightarrow> Some (if uc_closed sc \<or> p = [] then ([], [], sc) else let (c, sc') = writeChunk now p sc in (c, [], sc'))
      | DoAck now \<Rightarrow> Some ([], [], advanceBase now sc)
      | DoResend now \<Rightarrow> map_option (\<lambda>sc'. ([], [], sc')) (retransmitLocked now sc)
      | DoPacket now g \<Rightarrow> Some ([], [], handlePacket now g sc)
      | DoRead n \<Rightarrow> (case uc_Read n sc of (r, sc') \<Rightarrow> Some ([], bytesOf r, sc'))
      | DoAckTimer \<Rightarrow> Some ([], [], ackTimerFires sc)
      | DoIdle \<Rightarrow> Some ([], [], idleExpires sc)
      | DoClose \<Rightarrow> Some ([], [], uc_Close sc)
      | DoPunched b \<Rightarrow> Some ([], [], sc\<lparr>punched := b\<rparr>)
      | DoSocket b \<Rightarrow> Some ([], [], sc\<lparr>sockErr := b\<rparr>))"

record udp_link =
  lk_a :: udpStreamConn
  lk_b :: udpStreamConn
  lk_wa :: bytes
  lk_wb :: bytes
  lk_da :: bytes
  lk_db :: bytes

text \<open>
  Either side acts; a datagram that arrives is one the other side has sent at some time, so the
  network may lose, duplicate, delay and reorder.
\<close>

inductive link_step :: "udp_link \<Rightarrow> udp_link \<Rightarrow> bool" where
  left: "perform op (lk_a l) = Some (w, d, a') \<Longrightarrow> (\<And>now g. op = DoPacket now g \<Longrightarrow> g \<in> set (uc_sent (lk_b l))) \<Longrightarrow>
     link_step l (l\<lparr>lk_a := a', lk_wa := lk_wa l @ w, lk_da := lk_da l @ d\<rparr>)"
| right: "perform op (lk_b l) = Some (w, d, b') \<Longrightarrow> (\<And>now g. op = DoPacket now g \<Longrightarrow> g \<in> set (uc_sent (lk_a l))) \<Longrightarrow>
     link_step l (l\<lparr>lk_b := b', lk_wb := lk_wb l @ w, lk_db := lk_db l @ d\<rparr>)"

definition newLink :: udp_link where
  "newLink = \<lparr>lk_a = newUDPStreamConn, lk_b = newUDPStreamConn, lk_wa = [], lk_wb = [], lk_da = [], lk_db = []\<rparr>"

section \<open>What the sender keeps\<close>

definition wire_ok :: "bytes list \<Rightarrow> bytes \<Rightarrow> bool" where
  "wire_ok cs g \<longleftrightarrow>
     (\<exists>s<length cs. \<exists>a. g = udpFrame udpFrameTypeData (of_nat s) a (cs ! s)) \<or>
     (\<exists>a. g = udpFrame udpFrameTypeAck 0 a []) \<or> (\<exists>a. g = udpFrame udpFrameTypeFin 0 a [])"

definition inflight_ok :: "bytes list \<Rightarrow> u32 \<times> udpInflightFrame \<Rightarrow> bool" where
  "inflight_ok cs p \<longleftrightarrow>
     (\<exists>s<length cs. \<exists>a. fst p = of_nat s \<and> if_data (snd p) = udpFrame udpFrameTypeData (of_nat s) a (cs ! s))"

definition sender_ok :: "bytes list \<Rightarrow> udpStreamConn \<Rightarrow> bool" where
  "sender_ok cs x \<longleftrightarrow> length cs < 2 ^ 30 \<and> nextSeq x = of_nat (length cs) \<and> payloadSize x \<in> {udpMaxPayload, udpPayloadLarge} \<and>
     (\<forall>c\<in>set cs. c \<noteq> [] \<and> length c < 65536) \<and> (\<forall>g\<in>set (uc_sent x). wire_ok cs g) \<and> (\<forall>p\<in>set (inflight x). inflight_ok cs p)"

lemma wire_ok_mono: "wire_ok cs g \<Longrightarrow> wire_ok (cs @ cs') g"
  unfolding wire_ok_def by (metis length_append nth_append trans_less_add1)

lemma inflight_ok_mono: "inflight_ok cs p \<Longrightarrow> inflight_ok (cs @ cs') p"
  unfolding inflight_ok_def by (metis length_append nth_append trans_less_add1)

lemma inflight_ok_wire: "inflight_ok cs p \<Longrightarrow> wire_ok cs (if_data (snd p))"
  unfolding inflight_ok_def wire_ok_def by blast

lemma wire_ok_control [simp]: "wire_ok cs (udpFrame udpFrameTypeAck 0 a [])" "wire_ok cs (udpFrame udpFrameTypeFin 0 a [])"
  unfolding wire_ok_def by blast+

lemma udpSend_simps [simp]:
  "nextSeq (udpSend d sc) = nextSeq sc" "payloadSize (udpSend d sc) = payloadSize sc" "inflight (udpSend d sc) = inflight sc"
  "set (uc_sent (udpSend d sc)) = (if sockErr sc then set (uc_sent sc) else insert d (set (uc_sent sc)))"
  "recvBuf (udpSend d sc) = recvBuf sc" "recvNext (udpSend d sc) = recvNext sc" "readBuf (udpSend d sc) = readBuf sc"
  "ackPending (udpSend d sc) = ackPending sc" "ackRecv (udpSend d sc) = ackRecv sc" "rtoNs (udpSend d sc) = rtoNs sc"
  "probePending (udpSend d sc) = probePending sc" "uc_done (udpSend d sc) = uc_done sc" "sockErr (udpSend d sc) = sockErr sc"
  by (simp_all add: udpSend_def)

lemma countFrame_simps [simp]:
  "nextSeq (countFrame b sc) = nextSeq sc" "payloadSize (countFrame b sc) = payloadSize sc" "inflight (countFrame b sc) = inflight sc"
  "set (uc_sent (countFrame b sc)) =
     (if ackCount sc \<ge> 1 \<and> \<not> sockErr sc then insert (udpFrame udpFrameTypeAck 0 (ackPending sc) []) (set (uc_sent sc)) else set (uc_sent sc))"
  "recvBuf (countFrame b sc) = recvBuf sc" "recvNext (countFrame b sc) = recvNext sc" "readBuf (countFrame b sc) = readBuf sc"
  "ackPending (countFrame b sc) = ackPending sc" "ackRecv (countFrame b sc) = ackRecv sc"
  by (auto simp: countFrame_def sendAck_def)

lemma sampleRTT_simps [simp]:
  "nextSeq (sampleRTT t sc) = nextSeq sc" "payloadSize (sampleRTT t sc) = payloadSize sc" "inflight (sampleRTT t sc) = inflight sc"
  "uc_sent (sampleRTT t sc) = uc_sent sc" "recvBuf (sampleRTT t sc) = recvBuf sc" "recvNext (sampleRTT t sc) = recvNext sc"
  "readBuf (sampleRTT t sc) = readBuf sc" "ackPending (sampleRTT t sc) = ackPending sc" "ackRecv (sampleRTT t sc) = ackRecv sc"
  by (simp_all add: sampleRTT_def Let_def)

lemma ackLocked_simps [simp]:
  "nextSeq (ackLocked now a sc) = nextSeq sc" "inflight (ackLocked now a sc) = filter (\<lambda>p. seqBefore a (fst p)) (inflight sc)"
  "payloadSize (ackLocked now a sc) \<in> {payloadSize sc, udpPayloadLarge}"
  "uc_sent (ackLocked now a sc) = uc_sent sc" "recvBuf (ackLocked now a sc) = recvBuf sc" "recvNext (ackLocked now a sc) = recvNext sc"
  "readBuf (ackLocked now a sc) = readBuf sc" "ackPending (ackLocked now a sc) = ackPending sc" "ackRecv (ackLocked now a sc) = ackRecv sc"
  by (auto simp: ackLocked_def Let_def split_def split: list.splits)

lemma resendOverdue_keeps:
  assumes "resendOverdue now ps sc = Some sc'" "set ps \<subseteq> F" "\<forall>p\<in>F. inflight_ok cs p" "\<forall>p\<in>set (inflight sc). inflight_ok cs p"
  shows "nextSeq sc' = nextSeq sc \<and> payloadSize sc' = payloadSize sc \<and> recvBuf sc' = recvBuf sc \<and> recvNext sc' = recvNext sc \<and>
    readBuf sc' = readBuf sc \<and> ackPending sc' = ackPending sc \<and> ackRecv sc' = ackRecv sc \<and>
    (\<forall>p\<in>set (inflight sc'). inflight_ok cs p) \<and> set (uc_sent sc') \<subseteq> set (uc_sent sc) \<union> (\<lambda>p. if_data (snd p)) ` F \<and>
    fst ` set (inflight sc) \<subseteq> fst ` set (inflight sc')"
  using assms
proof (induction ps arbitrary: sc)
  case (Cons p ps)
  let ?f = "(snd p)\<lparr>sentAt := now\<rparr>"
  let ?sc = "(udpSend (if_data (snd p)) sc)\<lparr>inflight := AList.update (fst p) ?f (inflight sc)\<rparr>"
  have p: "inflight_ok cs p" using Cons.prems by auto
  have pf: "inflight_ok cs (fst p, ?f)" using p by (simp add: inflight_ok_def)
  have u: "\<forall>q\<in>set (inflight ?sc). inflight_ok cs q"
    using Cons.prems(4) pf set_alist_update_subset [of "fst p" ?f "inflight sc"] by (simp, blast)
  have k: "fst ` set (inflight sc) \<subseteq> fst ` set (inflight ?sc)" by (auto simp: dom_update)
  show ?case
  proof (cases "now - sentAt (snd p) \<ge> rtoNs sc \<and> \<not> (probePending sc \<and> isProbe (snd p))")
    case True
    then have r: "resendOverdue now ps ?sc = Some sc'" "set ps \<subseteq> F" using Cons.prems(1,2) by auto
    note IH = Cons.IH [OF r Cons.prems(3) u]
    have "fst ` set (inflight sc) \<subseteq> fst ` set (inflight sc')" using IH k by blast
    then show ?thesis using IH Cons.prems(2) by (auto split: if_splits)
  next
    case False
    show ?thesis
    proof (cases "now - sentAt (snd p) \<ge> rtoNs sc")
      case True
      with False Cons.prems(1) have "sc' = sc" by (simp split: if_splits)
      then show ?thesis using Cons.prems(4) by simp
    next
      case False
      then have "resendOverdue now ps sc = Some sc'" "set ps \<subseteq> F" using Cons.prems(1,2) by simp_all
      then show ?thesis using Cons.IH [OF _ _ Cons.prems(3,4)] by simp
    qed
  qed
qed simp

lemma writeChunk_ok:
  assumes "sender_ok cs x" "writeChunk now p x = (c, x')" "p \<noteq> []" "Suc (length cs) < 2 ^ 30"
  shows "sender_ok (cs @ [c]) x'" "c \<noteq> []" "\<exists>n. c = take n p" "fst ` set (inflight x') = insert (of_nat (length cs)) (fst ` set (inflight x))"
    "recvBuf x' = recvBuf x" "recvNext x' = recvNext x" "readBuf x' = readBuf x" "ackPending x' = ackPending x"
    "ackRecv x' = ackRecv x"
    "\<And>a. udpFrame udpFrameTypeAck 0 a [] \<in> set (uc_sent x') \<Longrightarrow> udpFrame udpFrameTypeAck 0 a [] \<in> set (uc_sent x)"
proof -
  have n: "nextSeq x = of_nat (length cs)" "payloadSize x = 40 \<or> payloadSize x = 1200"
    using assms(1) by (auto simp: sender_ok_def udpMaxPayload_def udpPayloadLarge_def)
  obtain m pr lp where m: "c = take m p" "m = 40 \<or> m = 1200"
    and x': "x' = udpSend (udpFrame udpFrameTypeData (nextSeq x) (baseSeq x) c)
      (x\<lparr>probePending := pr, lastProbeAt := lp, nextSeq := nextOf (nextSeq x),
         inflight := AList.update (nextSeq x) \<lparr>if_data = udpFrame udpFrameTypeData (nextSeq x) (baseSeq x) c, sentAt = now\<rparr> (inflight x)\<rparr>)"
  proof (cases "probes now p x")
    case True
    then show ?thesis using assms(2) that [of 1200 "Some now" True]
      by (auto simp: writeChunk_def Let_def udpPayloadLarge_def)
  next
    case False
    then show ?thesis using assms(2) n(2) that [of "chunkSizeOf p x" "lastProbeAt x" "probePending x"]
      by (auto simp: writeChunk_def Let_def chunkSizeOf_def udpMaxPayload_def)
  qed
  let ?f = "\<lparr>if_data = udpFrame udpFrameTypeData (nextSeq x) (baseSeq x) c, sentAt = now\<rparr>"
  have c: "c \<noteq> []" "length c < 65536" using m assms(3) by auto
  then show "c \<noteq> []" "\<exists>n. c = take n p" using m by auto
  have f: "wire_ok (cs @ [c]) (if_data ?f)" "inflight_ok (cs @ [c]) (nextSeq x, ?f)"
    using n(1) by (auto simp: wire_ok_def inflight_ok_def nth_append intro!: exI [of _ "length cs"])
  have "\<forall>p\<in>set (inflight x'). inflight_ok (cs @ [c]) p"
    using assms(1) f(2) set_alist_update_subset [of "nextSeq x" ?f "inflight x"] inflight_ok_mono [of cs _ "[c]"]
    unfolding x' sender_ok_def by (simp, blast)
  moreover have "\<forall>g\<in>set (uc_sent x'). wire_ok (cs @ [c]) g"
    using assms(1) f(1) by (auto simp: x' sender_ok_def intro: wire_ok_mono)
  ultimately show "sender_ok (cs @ [c]) x'"
    using assms(1,4) c n nextOf_nat [of "length cs"] by (auto simp: sender_ok_def x')
  show "fst ` set (inflight x') = insert (of_nat (length cs)) (fst ` set (inflight x))"
    by (simp add: x' n dom_update)
  have "udpFrame udpFrameTypeAck 0 a [] \<noteq> udpFrame udpFrameTypeData s b c" for s a b
    by (simp add: udpFrame_def udp_types)
  then show "udpFrame udpFrameTypeAck 0 a [] \<in> set (uc_sent x') \<Longrightarrow> udpFrame udpFrameTypeAck 0 a [] \<in> set (uc_sent x)" for a
    by (auto simp: x' split: if_splits)
  show "recvBuf x' = recvBuf x" "recvNext x' = recvNext x" "readBuf x' = readBuf x" "ackPending x' = ackPending x" "ackRecv x' = ackRecv x"
    by (simp_all add: x')
qed

lemma handleData_simps [simp]:
  "nextSeq (uc_handleData seq p sc) = nextSeq sc" "payloadSize (uc_handleData seq p sc) = payloadSize sc"
  "inflight (uc_handleData seq p sc) = inflight sc" "ackRecv (uc_handleData seq p sc) = ackRecv sc"
  "recvNext (uc_handleData seq p sc) = recvNext sc" "readBuf (uc_handleData seq p sc) = readBuf sc"
  "recvBuf (uc_handleData seq p sc) = (if \<not> seqBefore seq (recvNext sc) \<and> map_of (recvBuf sc) seq = None
     then AList.update seq p (recvBuf sc) else recvBuf sc)"
  by (auto simp: uc_handleData_def Let_def)

lemma handleData_sent:
  "set (uc_sent (uc_handleData seq p sc)) \<subseteq> insert (udpFrame udpFrameTypeAck 0 (ackPending (uc_handleData seq p sc)) []) (set (uc_sent sc))"
  by (auto simp: uc_handleData_def Let_def)

lemma handlePacket_sender:
  "nextSeq (handlePacket now g sc) = nextSeq sc" "payloadSize (handlePacket now g sc) = payloadSize sc"
  "inflight (handlePacket now g sc) = inflight sc"
  "set (uc_sent (handlePacket now g sc)) \<subseteq> insert (udpFrame udpFrameTypeAck 0 (ackPending (handlePacket now g sc)) []) (set (uc_sent sc))"
  using handleData_sent [of "dec32 (take 4 (drop (Suc 0) g))" "take (unat (dec16 (take 2 (drop 9 g)))) (drop udpFrameHeaderLen g)" "sc\<lparr>lastInboundNs := now\<rparr>"]
  by (auto simp: handlePacket_def Let_def)

lemma uc_Read_sender:
  "uc_Read n sc = (r, sc') \<Longrightarrow> nextSeq sc' = nextSeq sc \<and> payloadSize sc' = payloadSize sc \<and> inflight sc' = inflight sc \<and>
     uc_sent sc' = uc_sent sc \<and> ackPending sc' = ackPending sc \<and> ackRecv sc' = ackRecv sc"
proof (induction n sc rule: uc_Read.induct)
  case (1 n sc)
  show ?case
  proof (cases "readBuf sc = [] \<and> map_of (recvBuf sc) (recvNext sc) = Some []")
    case True
    then show ?thesis using "1.IH" [of "[]"] "1.prems" by (simp add: uc_Read.simps [of n sc])
  next
    case False
    then show ?thesis using "1.prems" by (auto simp: uc_Read.simps [of n sc] Let_def split: option.splits if_splits)
  qed
qed

lemma timers_simps [simp]:
  "nextSeq (ackTimerFires sc) = nextSeq sc" "payloadSize (ackTimerFires sc) = payloadSize sc" "inflight (ackTimerFires sc) = inflight sc"
  "recvBuf (ackTimerFires sc) = recvBuf sc" "recvNext (ackTimerFires sc) = recvNext sc" "readBuf (ackTimerFires sc) = readBuf sc"
  "ackPending (ackTimerFires sc) = ackPending sc" "ackRecv (ackTimerFires sc) = ackRecv sc"
  by (auto simp: ackTimerFires_def sendAck_def Let_def)

lemma timers_sent:
  "set (uc_sent (ackTimerFires sc)) \<subseteq> insert (udpFrame udpFrameTypeAck 0 (ackPending sc) []) (set (uc_sent sc))"
  by (auto simp: ackTimerFires_def sendAck_def Let_def)

lemma close_simps [simp]:
  "nextSeq (uc_Close sc) = nextSeq sc" "payloadSize (uc_Close sc) = payloadSize sc" "inflight (uc_Close sc) = inflight sc"
  "recvBuf (uc_Close sc) = recvBuf sc" "recvNext (uc_Close sc) = recvNext sc" "readBuf (uc_Close sc) = readBuf sc"
  "ackPending (uc_Close sc) = ackPending sc" "ackRecv (uc_Close sc) = ackRecv sc"
  by (auto simp: uc_Close_def)

lemma close_sent:
  "set (uc_sent (uc_Close sc)) \<subseteq> insert (udpFrame udpFrameTypeFin 0 (baseSeq sc) []) (set (uc_sent sc))"
  by (auto simp: uc_Close_def sendAck_def Let_def)

lemma concat_length_ge: "\<forall>c\<in>set cs. c \<noteq> [] \<Longrightarrow> length cs \<le> length (concat cs)"
proof (induction cs)
  case (Cons c cs)
  then show ?case by (cases c) auto
qed simp

lemma writeChunk_nonempty: "sender_ok cs x \<Longrightarrow> p \<noteq> [] \<Longrightarrow> fst (writeChunk now p x) \<noteq> []"
  by (auto simp: writeChunk_def Let_def chunkSizeOf_def udpMaxPayload_def udpPayloadLarge_def sender_ok_def)

lemma sender_okI:
  assumes "sender_ok cs x" "nextSeq x' = nextSeq x" "payloadSize x' \<in> {payloadSize x, udpPayloadLarge}"
    "set (inflight x') \<subseteq> set (inflight x)" "\<And>g. g \<in> set (uc_sent x') \<Longrightarrow> g \<in> set (uc_sent x) \<or> wire_ok cs g"
  shows "sender_ok cs x'"
  using assms by (auto simp: sender_ok_def)

lemma perform_sender:
  assumes x: "sender_ok cs x" and p: "perform op x = Some (w, d, x')" and b: "length (concat cs) + length w < 2 ^ 30"
  shows "\<exists>cs'. sender_ok (cs @ cs') x' \<and> concat cs' = w \<and> length cs' \<le> 1"
proof (cases op)
  case (DoChunk now q)
  show ?thesis
  proof (cases "uc_closed x \<or> q = []")
    case False
    with DoChunk p obtain c where c: "writeChunk now q x = (c, x')" "w = c" "q \<noteq> []" by (auto simp: perform_def split: prod.splits)
    have "c \<noteq> []" using writeChunk_nonempty [OF x c(3)] c(1) by (metis fst_conv)
    moreover have "length cs \<le> length (concat cs)" using x by (intro concat_length_ge) (auto simp: sender_ok_def)
    ultimately have "Suc (length cs) < 2 ^ 30" using b c(2) by (cases c) auto
    from writeChunk_ok(1) [OF x c(1,3) this] c(2) show ?thesis by (intro exI [of _ "[c]"]) simp
  qed (use DoChunk p x in \<open>auto simp: perform_def intro: exI [of _ "[]"]\<close>)
next
  case (DoResend now)
  with p have rx: "resendOverdue now (inflight x) x = Some x'" "w = []" by (auto simp: perform_def retransmitLocked_def)
  have io: "\<forall>p\<in>set (inflight x). inflight_ok cs p" using x by (simp add: sender_ok_def)
  note R = resendOverdue_keeps [OF rx(1) subset_refl io io]
  have "wire_ok cs g" if "g \<in> set (uc_sent x')" for g
  proof -
    from R that have "g \<in> set (uc_sent x) \<or> (\<exists>p\<in>set (inflight x). g = if_data (snd p))" by blast
    then show ?thesis using x io inflight_ok_wire by (auto simp: sender_ok_def)
  qed
  with R x \<open>w = []\<close> show ?thesis by (intro exI [of _ "[]"]) (auto simp: sender_ok_def)
next
  case (DoRead n)
  with p uc_Read_sender [of n x] have "nextSeq x' = nextSeq x" "payloadSize x' = payloadSize x" "inflight x' = inflight x" "uc_sent x' = uc_sent x" "w = []"
    by (auto simp: perform_def split: prod.splits)
  with x show ?thesis by (intro exI [of _ "[]"]) (auto simp: sender_ok_def)
next
  case (DoAck now)
  have "sender_ok cs (advanceBase now x)"
  proof (cases "ackRecv x")
    case (Cons a as)
    then show ?thesis using ackLocked_simps(3) [of now a "x\<lparr>ackRecv := as\<rparr>"]
      by (auto simp: advanceBase_def intro!: sender_okI [OF x])
  qed (simp add: advanceBase_def x)
  with DoAck p show ?thesis by (auto simp: perform_def intro: exI [of _ "[]"])
next
  case (DoPacket now g)
  have "sender_ok cs (handlePacket now g x)"
    using handlePacket_sender [of now g x] by (intro sender_okI [OF x]) auto
  with DoPacket p show ?thesis by (auto simp: perform_def intro: exI [of _ "[]"])
next
  case DoAckTimer
  have "sender_ok cs (ackTimerFires x)" using timers_sent [of x] by (intro sender_okI [OF x]) auto
  with DoAckTimer p show ?thesis by (auto simp: perform_def intro: exI [of _ "[]"])
next
  case DoIdle
  have "sender_ok cs (idleExpires x)" using close_sent [of x] x by (auto simp: idleExpires_def intro!: sender_okI [OF x])
  with DoIdle p show ?thesis by (auto simp: perform_def intro: exI [of _ "[]"])
next
  case DoClose
  have "sender_ok cs (uc_Close x)" using close_sent [of x] by (intro sender_okI [OF x]) auto
  with DoClose p show ?thesis by (auto simp: perform_def intro: exI [of _ "[]"])
qed (use p x in \<open>auto simp: perform_def sender_ok_def intro: exI [of _ "[]"]\<close>)

section \<open>What the receiver keeps\<close>

definition receiver_ok :: "bytes list \<Rightarrow> nat \<Rightarrow> bytes \<Rightarrow> udpStreamConn \<Rightarrow> bool" where
  "receiver_ok cs r d y \<longleftrightarrow> r \<le> length cs \<and> recvNext y = of_nat r \<and> d @ readBuf y = concat (take r cs) \<and>
     (\<forall>p\<in>set (recvBuf y). \<exists>s<length cs. fst p = of_nat s \<and> snd p = cs ! s)"

definition frames_ok :: "bytes list \<Rightarrow> bool" where
  "frames_ok cs \<longleftrightarrow> length cs < 2 ^ 30 \<and> (\<forall>c\<in>set cs. c \<noteq> [] \<and> length c < 65536)"

definition uc_received :: "nat \<Rightarrow> udpStreamConn \<Rightarrow> nat \<Rightarrow> bool" where
  "uc_received r y s \<longleftrightarrow> s < r \<or> map_of (recvBuf y) (of_nat s) \<noteq> None"

lemma sender_frames: "sender_ok cs x \<Longrightarrow> frames_ok cs"
  by (simp add: sender_ok_def frames_ok_def)

lemma receiver_ok_mono: "receiver_ok cs r d y \<Longrightarrow> receiver_ok (cs @ cs') r d y"
  unfolding receiver_ok_def by (auto simp: nth_append)

lemma recvBuf_entry:
  assumes "receiver_ok cs r d y" "frames_ok cs" "map_of (recvBuf y) (of_nat s) = Some v" "s < 2 ^ 30"
  shows "s < length cs" "v = cs ! s"
proof -
  obtain t where t: "t < length cs" "(of_nat s :: u32) = of_nat t" "v = cs ! t"
    using assms(1,3) by (force simp: receiver_ok_def dest!: map_of_SomeD)
  moreover have "s = t" using t assms(2,4) by (subst (asm) of_nat_seq_iff) (auto simp: frames_ok_def)
  ultimately show "s < length cs" "v = cs ! s" by simp_all
qed

lemma uc_Read_ok:
  assumes y: "receiver_ok cs r d y" and f: "frames_ok cs" and e: "uc_Read n y = (res, y')"
  shows "\<exists>r'\<ge>r. receiver_ok cs r' (d @ bytesOf res) y' \<and> (\<forall>s<2 ^ 30. uc_received r y s \<longrightarrow> uc_received r' y' s) \<and>
    (0 < n \<and> (readBuf y \<noteq> [] \<or> map_of (recvBuf y) (of_nat r) \<noteq> None) \<longrightarrow> bytesOf res \<noteq> [])"
proof (cases "readBuf y = []")
  case False
  then have "res = ReadData (take n (readBuf y))" "y' = y\<lparr>readBuf := drop n (readBuf y)\<rparr>"
    using e by (simp_all add: uc_Read.simps [of n y])
  with y False show ?thesis by (intro exI [of _ r]) (auto simp: receiver_ok_def uc_received_def bytesOf_def)
next
  case nb: True
  have n: "recvNext y = of_nat r" "r \<le> length cs" "length cs < 2 ^ 30" using y f by (auto simp: receiver_ok_def frames_ok_def)
  show ?thesis
  proof (cases "map_of (recvBuf y) (of_nat r)")
    case None
    then have "y' = y" "bytesOf res = []" using e nb n(1) by (auto simp: uc_Read.simps [of n y] bytesOf_def split: if_splits)
    then show ?thesis using y nb None by auto
  next
    case (Some v)
    note v = recvBuf_entry [OF y f Some]
    have r: "r < length cs" "v = cs ! r" "v \<noteq> []" using v n f by (auto simp: frames_ok_def)
    have nx: "nextOf (of_nat r) = (of_nat (Suc r) :: u32)" using nextOf_nat [of r] r n by simp
    have res: "bytesOf res = take n v" and y': "recvNext y' = of_nat (Suc r)" "readBuf y' = drop n v"
      "recvBuf y' = (if n < length v then recvBuf y else AList.delete (of_nat r) (recvBuf y))"
      using e nb n(1) Some r nx by (auto simp: uc_Read.simps [of n y] bytesOf_def Let_def split: if_splits)
    have "receiver_ok cs (Suc r) (d @ bytesOf res) y'"
      using y nb r by (auto simp: receiver_ok_def res y' take_Suc_conv_app_nth set_alist_delete)
    moreover have "\<forall>s<2 ^ 30. uc_received r y s \<longrightarrow> uc_received (Suc r) y' s"
      using n r of_nat_seq_iff [of _ r] by (auto simp: uc_received_def y' delete_conv')
    moreover have "0 < n \<longrightarrow> bytesOf res \<noteq> []" using r by (simp add: res)
    ultimately show ?thesis by (intro exI [of _ "Suc r"]) auto
  qed
qed

lemma receiver_okI:
  assumes "receiver_ok cs r d y" "recvBuf y' = recvBuf y" "recvNext y' = recvNext y" "readBuf y' = readBuf y"
  shows "\<exists>r'\<ge>r. receiver_ok cs r' (d @ []) y' \<and> (\<forall>s<2 ^ 30. uc_received r y s \<longrightarrow> uc_received r' y' s)"
  using assms by (intro exI [of _ r]) (auto simp: receiver_ok_def uc_received_def)

lemma handleData_ok:
  assumes "receiver_ok cs r d y" "s < length cs"
  shows "receiver_ok cs r d (uc_handleData (of_nat s) (cs ! s) y)"
    "uc_received r y t \<longrightarrow> uc_received r (uc_handleData (of_nat s) (cs ! s) y) t"
  using assms set_alist_update_subset [of "of_nat s" "cs ! s" "recvBuf y"]
  by (auto simp: receiver_ok_def uc_received_def update_conv' dest!: subsetD)

lemma handlePacket_wire:
  assumes "wire_ok cs g" "frames_ok cs"
  obtains s where "s < length cs" "handlePacket now g y = uc_handleData (of_nat s) (cs ! s) (y\<lparr>lastInboundNs := now\<rparr>)"
  | "recvBuf (handlePacket now g y) = recvBuf y" "recvNext (handlePacket now g y) = recvNext y"
    "readBuf (handlePacket now g y) = readBuf y" "ackPending (handlePacket now g y) = ackPending y" "uc_sent (handlePacket now g y) = uc_sent y"
  using assms(1) unfolding wire_ok_def
proof (elim disjE exE conjE)
  fix s a assume s: "s < length cs" and g: "g = udpFrame udpFrameTypeData (of_nat s) a (cs ! s)"
  have "s < 2 ^ 30" "length (cs ! s) < 65536" using assms(2) s by (auto simp: frames_ok_def)
  moreover have "unat (of_nat s :: u32) = s" using calculation(1) by (intro unat_of_nat_small) simp
  then have "(of_nat s :: u32) \<noteq> 0xFFFFFFFF" using calculation(1) by (auto simp del: unat_of_nat)
  ultimately show thesis using that(1) [OF s] handlePacket_frame(1) g by simp
qed (use that(2) in \<open>simp_all add: handlePacket_frame\<close>)

lemma perform_receiver:
  assumes y: "receiver_ok cs r d y" and f: "frames_ok cs" and p: "perform op y = Some (w, bs, y')"
    and g: "\<And>now g. op = DoPacket now g \<Longrightarrow> wire_ok cs g"
  shows "\<exists>r'\<ge>r. receiver_ok cs r' (d @ bs) y' \<and> (\<forall>s<2 ^ 30. uc_received r y s \<longrightarrow> uc_received r' y' s)"
proof (cases op)
  case (DoRead n)
  with p uc_Read_ok [OF y f, of n] show ?thesis by (fastforce simp: perform_def split: prod.splits)
next
  case (DoPacket now g')
  then have e: "bs = []" "y' = handlePacket now g' y" using p by (simp_all add: perform_def)
  from g [OF DoPacket] f show ?thesis
  proof (cases rule: handlePacket_wire [where now = now and y = y])
    case (1 s)
    have "receiver_ok cs r d (y\<lparr>lastInboundNs := now\<rparr>)" "\<And>t. uc_received r (y\<lparr>lastInboundNs := now\<rparr>) t = uc_received r y t"
      using y by (simp_all add: receiver_ok_def uc_received_def)
    with handleData_ok [OF this(1) 1(1)] show ?thesis by (intro exI [of _ r]) (simp add: e 1)
  next
    case 2
    then show ?thesis using receiver_okI [OF y] e by simp
  qed
next
  case (DoChunk now q)
  with p have "bs = []" "recvBuf y' = recvBuf y \<and> recvNext y' = recvNext y \<and> readBuf y' = readBuf y"
    by (auto simp: perform_def writeChunk_def Let_def split: if_splits)
  then show ?thesis using receiver_okI [OF y] by simp
next
  case (DoResend now)
  have "resendOverdue now ps x = Some x' \<Longrightarrow> recvBuf x' = recvBuf x \<and> recvNext x' = recvNext x \<and> readBuf x' = readBuf x" for ps x x'
    by (induction ps arbitrary: x) (auto split: if_splits)
  then have "bs = []" "recvBuf y' = recvBuf y \<and> recvNext y' = recvNext y \<and> readBuf y' = readBuf y"
    using p DoResend by (auto simp: perform_def retransmitLocked_def)
  then show ?thesis using receiver_okI [OF y] by simp
next
  case (DoAck now)
  with p have "bs = []" "recvBuf y' = recvBuf y \<and> recvNext y' = recvNext y \<and> readBuf y' = readBuf y"
    by (auto simp: perform_def advanceBase_def split: list.splits)
  then show ?thesis using receiver_okI [OF y] by simp
qed (use p receiver_okI [OF y] in \<open>auto simp: perform_def idleExpires_def\<close>)

section \<open>A direction of a link\<close>

definition uc_carries :: "udpStreamConn \<Rightarrow> udpStreamConn \<Rightarrow> bytes \<Rightarrow> bytes \<Rightarrow> bool" where
  "uc_carries x y w d \<longleftrightarrow> (length w < 2 ^ 30 \<longrightarrow>
     (\<exists>cs r. sender_ok cs x \<and> concat cs = w \<and> receiver_ok cs r d y))"

lemma carries_send:
  assumes "uc_carries x y w d" "perform op x = Some (w', d', x')"
  shows "uc_carries x' y (w @ w') d"
  unfolding uc_carries_def
proof
  assume b: "length (w @ w') < 2 ^ 30"
  then obtain cs r where cs: "sender_ok cs x" "concat cs = w" "receiver_ok cs r d y" using assms(1) by (auto simp: uc_carries_def)
  then obtain cs' where "sender_ok (cs @ cs') x'" "concat cs' = w'" using perform_sender [OF cs(1) assms(2)] b by auto
  with cs receiver_ok_mono show "\<exists>cs r. sender_ok cs x' \<and> concat cs = w @ w' \<and> receiver_ok cs r d y"
    by (intro exI [of _ "cs @ cs'"] exI [of _ r]) auto
qed

lemma carries_recv:
  assumes "uc_carries x y w d" "perform op y = Some (w', d', y')" "\<And>now g. op = DoPacket now g \<Longrightarrow> g \<in> set (uc_sent x)"
  shows "uc_carries x y' w (d @ d')"
  unfolding uc_carries_def
proof
  assume "length w < 2 ^ 30"
  then obtain cs r where cs: "sender_ok cs x" "concat cs = w" "receiver_ok cs r d y" using assms(1) by (auto simp: uc_carries_def)
  have "\<exists>r'\<ge>r. receiver_ok cs r' (d @ d') y' \<and> (\<forall>s<2 ^ 30. uc_received r y s \<longrightarrow> uc_received r' y' s)"
    using assms(3) cs(1) by (intro perform_receiver [OF cs(3) sender_frames [OF cs(1)] assms(2)]) (auto simp: sender_ok_def)
  with cs show "\<exists>cs r. sender_ok cs x \<and> concat cs = w \<and> receiver_ok cs r (d @ d') y'" by blast
qed

lemma link_carries:
  assumes "link_step\<^sup>*\<^sup>* l l'" "uc_carries (lk_a l) (lk_b l) (lk_wa l) (lk_db l)" "uc_carries (lk_b l) (lk_a l) (lk_wb l) (lk_da l)"
  shows "uc_carries (lk_a l') (lk_b l') (lk_wa l') (lk_db l') \<and> uc_carries (lk_b l') (lk_a l') (lk_wb l') (lk_da l')"
  using assms
proof (induction rule: rtranclp_induct)
  case (step l l')
  from step.hyps(2) step.IH [OF step.prems] show ?case
    by (cases rule: link_step.cases) (auto intro: carries_send carries_recv)
qed simp

lemma carries_prefix: "uc_carries x y w d \<Longrightarrow> length w < 2 ^ 30 \<Longrightarrow> prefix d w"
  unfolding uc_carries_def receiver_ok_def
  by (metis append_take_drop_id concat_append prefixI append.assoc)

lemma newUDPStreamConn_ok:
  "sender_ok [] newUDPStreamConn" "receiver_ok cs 0 [] newUDPStreamConn"
  by (simp_all add: sender_ok_def receiver_ok_def newUDPStreamConn_def)

lemma carries_new: "uc_carries newUDPStreamConn newUDPStreamConn [] []"
  unfolding uc_carries_def using newUDPStreamConn_ok by fastforce

text \<open>
  C5. The stream delivers what was written, in order. Whatever the network loses, duplicates, delays
  and reorders, and however writing, reading, acknowledging, retransmitting, closing and failing of
  the sockets interleave on both sides, the bytes that either application has read are a prefix of
  those the other has written, as long as fewer than \<open>2 ^ 30\<close> bytes were written.
\<close>

theorem udp_delivers_prefix:
  assumes "link_step\<^sup>*\<^sup>* newLink l"
  shows "(length (lk_wa l) < 2 ^ 30 \<longrightarrow> prefix (lk_db l) (lk_wa l)) \<and> (length (lk_wb l) < 2 ^ 30 \<longrightarrow> prefix (lk_da l) (lk_wb l))"
proof -
  have "uc_carries (lk_a l) (lk_b l) (lk_wa l) (lk_db l) \<and> uc_carries (lk_b l) (lk_a l) (lk_wb l) (lk_da l)"
    using assms by (rule link_carries) (simp_all add: newLink_def carries_new)
  then show ?thesis using carries_prefix by blast
qed

section \<open>Acknowledgements\<close>

definition ackOf :: "bytes \<Rightarrow> u32" where
  "ackOf g = dec32 (take 4 (drop 5 g))"

definition acks_upto :: "nat \<Rightarrow> bytes \<Rightarrow> bool" where
  "acks_upto k g \<longleftrightarrow> g ! 0 = udpFrameTypeAck \<longrightarrow> (\<exists>j\<le>k. ackOf g = of_nat j)"

definition acked_ok :: "bytes list \<Rightarrow> nat \<Rightarrow> nat \<Rightarrow> udpStreamConn \<Rightarrow> udpStreamConn \<Rightarrow> bool" where
  \<comment> \<open>all frames up to number \<open>k\<close> have arrived, no acknowledgement says more, and what is not
      acknowledged is kept for retransmission\<close>
  "acked_ok cs r k x y \<longleftrightarrow> length cs \<le> 2 ^ 29 \<and> k < length cs \<and> ackPending y = of_nat k \<and> (\<forall>s\<le>k. uc_received r y s) \<and>
     (\<forall>g\<in>set (uc_sent y). acks_upto k g) \<and> (\<forall>p\<in>set (inflight y). if_data (snd p) ! 0 = udpFrameTypeData) \<and>
     (\<forall>a\<in>set (ackRecv x). \<exists>j\<le>k. a = of_nat j) \<and> (\<forall>s<length cs. s \<le> k \<or> of_nat s \<in> fst ` set (inflight x))"

lemma acks_upto_mono: "acks_upto k g \<Longrightarrow> k \<le> k' \<Longrightarrow> acks_upto k' g"
  unfolding acks_upto_def by (meson order_trans)

lemma acks_upto_frames [simp]:
  "acks_upto k (udpFrame udpFrameTypeFin s a p)" "acks_upto k (udpFrame udpFrameTypeData s a p)"
  "acks_upto k (udpFrame udpFrameTypeAck s (of_nat k) p)"
  by (auto simp: acks_upto_def udpFrame_fields ackOf_def udp_types)

lemma acks_upto_data: "g ! 0 = udpFrameTypeData \<Longrightarrow> acks_upto k g"
  by (simp add: acks_upto_def udp_types)

lemma contiguous_ok:
  assumes "receiver_ok cs r d y" "frames_ok cs" "k < length cs" "\<forall>s\<le>k. uc_received r y s"
  shows "\<exists>k'\<ge>k. contiguous n (recvBuf y) (of_nat k) = of_nat k' \<and> k' < length cs \<and> (\<forall>s\<le>k'. uc_received r y s)"
  using assms(3,4)
proof (induction n arbitrary: k)
  case (Suc n)
  have k: "Suc k < 2 ^ 30" "nextOf (of_nat k) = (of_nat (Suc k) :: u32)"
    using Suc.prems(1) assms(2) nextOf_nat [of k] by (auto simp: frames_ok_def)
  show ?case
  proof (cases "map_of (recvBuf y) (of_nat (Suc k))")
    case None
    with Suc.prems k(2) show ?thesis by (intro exI [of _ k]) simp
  next
    case (Some v)
    have "Suc k < length cs" using recvBuf_entry(1) [OF assms(1,2) Some k(1)] .
    moreover have "\<forall>s\<le>Suc k. uc_received r y s" using Suc.prems(2) Some by (auto simp: le_Suc_eq uc_received_def)
    ultimately obtain k' where "k' \<ge> Suc k" "contiguous n (recvBuf y) (of_nat (Suc k)) = of_nat k'" "k' < length cs" "\<forall>s\<le>k'. uc_received r y s"
      using Suc.IH by blast
    then show ?thesis using k(2) Some by (intro exI [of _ k']) simp
  qed
qed (auto)

lemma handleData_received:
  assumes "receiver_ok cs r d y" "s < length cs" "length cs \<le> 2 ^ 29"
  shows "uc_received r (uc_handleData (of_nat s) (cs ! s) y) s"
  using assms seqBefore_nat [of s r] by (auto simp: uc_received_def receiver_ok_def update_conv')

lemma handleData_ackPending:
  "ackPending (uc_handleData seq p sc) =
     contiguous (length (recvBuf (uc_handleData seq p sc))) (recvBuf (uc_handleData seq p sc))
       (if (seq = ackPending sc \<or> seq = nextOf (ackPending sc)) \<and> seqBefore (ackPending sc) seq then seq else ackPending sc)"
  by (cases "\<not> seqBefore seq (recvNext sc) \<and> map_of (recvBuf sc) seq = None") (auto simp: uc_handleData_def Let_def)

lemma handleData_acked:
  assumes y: "receiver_ok cs r d y" and f: "frames_ok cs" and a: "acked_ok cs r k x y" and s: "s < length cs"
  shows "\<exists>k'\<ge>k. acked_ok cs r k' x (uc_handleData (of_nat s) (cs ! s) y)"
proof -
  let ?y = "uc_handleData (of_nat s) (cs ! s) y"
  have l: "length cs \<le> 2 ^ 29" "k < length cs" "ackPending y = of_nat k" using a by (auto simp: acked_ok_def)
  have y': "receiver_ok cs r d ?y" and rec: "\<forall>t\<le>k. uc_received r ?y t" "uc_received r ?y s"
    using handleData_ok [OF y s] handleData_received [OF y s l(1)] a by (auto simp: acked_ok_def)
  define k1 where "k1 = (if s = Suc k then s else k)"
  have nx: "nextOf (of_nat k) = (of_nat (Suc k) :: u32)" using nextOf_nat [of k] l by simp
  have "(of_nat s :: u32) = of_nat (Suc k) \<longleftrightarrow> s = Suc k" "(of_nat s :: u32) = of_nat k \<longleftrightarrow> s = k"
    using l s by (subst of_nat_seq_iff; simp)+
  then have "(if (of_nat s = (of_nat k :: u32) \<or> of_nat s = nextOf (of_nat k)) \<and> seqBefore (of_nat k) (of_nat s) then of_nat s else of_nat k) = (of_nat k1 :: u32)"
    using seqBefore_nat [of k s] l s unfolding nx k1_def by auto
  then have ap: "ackPending ?y = contiguous (length (recvBuf ?y)) (recvBuf ?y) (of_nat k1)"
    using handleData_ackPending [of "of_nat s" "cs ! s" y] unfolding l(3) by (simp only:)
  have "k1 < length cs" "\<forall>t\<le>k1. uc_received r ?y t" "k \<le> k1" using rec l s by (auto simp: k1_def le_Suc_eq)
  then obtain k' where k': "k' \<ge> k" "ackPending ?y = of_nat k'" "k' < length cs" "\<forall>t\<le>k'. uc_received r ?y t"
    using contiguous_ok [OF y' f, of k1] unfolding ap by (meson order_trans)
  have "\<forall>g\<in>set (uc_sent y). acks_upto k' g" using a k'(1) by (auto simp: acked_ok_def intro: acks_upto_mono)
  then have "\<forall>g\<in>set (uc_sent ?y). acks_upto k' g"
    using subsetD [OF handleData_sent [of "of_nat s" "cs ! s" y]] acks_upto_frames(3) [of k' 0 "[]"] unfolding k'(2) by blast
  moreover have "\<forall>j\<le>k. j \<le> k'" using k'(1) by simp
  ultimately show ?thesis using a k' unfolding acked_ok_def by (intro exI [of _ k']) (auto; meson order_trans)
qed

definition acks_ok :: "nat \<Rightarrow> udpStreamConn \<Rightarrow> bool" where
  "acks_ok k y \<longleftrightarrow> ackPending y = of_nat k \<and> (\<forall>g\<in>set (uc_sent y). acks_upto k g) \<and>
     (\<forall>p\<in>set (inflight y). if_data (snd p) ! 0 = udpFrameTypeData)"

lemma acks_okI:
  assumes "acks_ok k y" "ackPending y' = ackPending y" "set (inflight y') \<subseteq> set (inflight y)"
    "set (uc_sent y') \<subseteq> insert (udpFrame udpFrameTypeAck 0 (ackPending y) []) (insert (udpFrame udpFrameTypeFin 0 b []) (set (uc_sent y)))"
  shows "acks_ok k y'"
proof -
  have "\<forall>g\<in>set (uc_sent y'). acks_upto k g"
    using subsetD [OF assms(4)] assms(1) acks_upto_frames unfolding acks_ok_def by force
  then show ?thesis using assms(1-3) by (auto simp: acks_ok_def)
qed

lemma resendOverdue_acks:
  assumes "resendOverdue now ps y = Some y'" "acks_ok k y" "\<forall>p\<in>set ps. if_data (snd p) ! 0 = udpFrameTypeData"
  shows "acks_ok k y' \<and> fst ` set (inflight y) \<subseteq> fst ` set (inflight y') \<and> ackRecv y' = ackRecv y"
  using assms
proof (induction ps arbitrary: y)
  case (Cons p ps)
  let ?f = "(snd p)\<lparr>sentAt := now\<rparr>"
  let ?y = "(udpSend (if_data (snd p)) y)\<lparr>inflight := AList.update (fst p) ?f (inflight y)\<rparr>"
  have d: "if_data (snd p) ! 0 = udpFrameTypeData" using Cons.prems(3) by simp
  then have y: "acks_ok k ?y" using Cons.prems(2) set_alist_update_subset [of "fst p" ?f "inflight y"]
    by (auto simp: acks_ok_def acks_upto_data dest!: subsetD)
  have keys: "fst ` set (inflight y) \<subseteq> fst ` set (inflight ?y)" by (auto simp: dom_update)
  show ?case
  proof (cases "now - sentAt (snd p) \<ge> rtoNs y")
    case False
    then show ?thesis using Cons.IH [OF _ Cons.prems(2)] Cons.prems by simp
  next
    case True
    show ?thesis
    proof (cases "probePending y \<and> isProbe (snd p)")
      case pr: True
      then have "y' = y" using True Cons.prems(1) by (simp split: if_splits)
      then show ?thesis using Cons.prems(2) by simp
    next
      case False
      then have r: "resendOverdue now ps ?y = Some y'" using Cons.prems(1) True by auto
      have "\<forall>p\<in>set ps. if_data (snd p) ! 0 = udpFrameTypeData" using Cons.prems(3) by simp
      note IH = Cons.IH [OF r y this]
      have "fst ` set (inflight y) \<subseteq> fst ` set (inflight y')"
        by (rule subset_trans [OF keys]) (rule conjunct1 [OF conjunct2 [OF IH]])
      then show ?thesis using IH by simp
    qed
  qed
qed simp

lemma writeChunk_acks:
  assumes "acks_ok k y"
  shows "acks_ok k (snd (writeChunk now p y))"
proof -
  have "acks_ok k (udpSend (udpFrame udpFrameTypeData s b c) (z\<lparr>nextSeq := n, inflight := AList.update s \<lparr>if_data = udpFrame udpFrameTypeData s b c, sentAt = now\<rparr> (inflight z)\<rparr>))"
    if "acks_ok k z" for z s b c n
    using that set_alist_update_subset [of s "\<lparr>if_data = udpFrame udpFrameTypeData s b c, sentAt = now\<rparr>" "inflight z"]
    by (auto simp: acks_ok_def udpFrame_fields dest!: subsetD)
  moreover have "acks_ok k (if probes now p y then y\<lparr>probePending := True, lastProbeAt := Some now\<rparr> else y)"
    using assms by (simp add: acks_ok_def)
  ultimately show ?thesis unfolding writeChunk_def Let_def snd_conv by blast
qed

lemma perform_acks:
  assumes y: "acks_ok k y" and p: "perform op y = Some (w, d, y')" and n: "\<And>now g. op \<noteq> DoPacket now g"
  shows "acks_ok k y'"
proof (cases op)
  case (DoChunk now q)
  then show ?thesis using p y writeChunk_acks [OF y, of now q] by (auto simp: perform_def split: if_splits prod.splits)
next
  case (DoResend now)
  then show ?thesis using p resendOverdue_acks [OF _ y, of now "inflight y"] y by (auto simp: perform_def retransmitLocked_def acks_ok_def)
next
  case (DoRead m)
  with p uc_Read_sender [of m y] have "ackPending y' = ackPending y" "inflight y' = inflight y" "uc_sent y' = uc_sent y"
    by (auto simp: perform_def split: prod.splits)
  then show ?thesis using y by (simp add: acks_ok_def)
next
  case (DoAck now)
  have "acks_ok k (advanceBase now y)"
    using y by (cases "ackRecv y") (auto simp: advanceBase_def acks_ok_def)
  with DoAck p show ?thesis by (simp add: perform_def)
next
  case DoAckTimer
  have "acks_ok k (ackTimerFires y)" using timers_sent [of y] by (intro acks_okI [OF y]) auto
  with DoAckTimer p show ?thesis by (simp add: perform_def)
next
  case DoIdle
  have "acks_ok k (uc_Close y)" using close_sent [of y] by (intro acks_okI [OF y, where b = "baseSeq y"]) auto
  with DoIdle p y show ?thesis by (auto simp: perform_def idleExpires_def)
next
  case DoClose
  have "acks_ok k (uc_Close y)" using close_sent [of y] by (intro acks_okI [OF y, where b = "baseSeq y"]) auto
  with DoClose p show ?thesis by (auto simp: perform_def)
next
  case (DoPacket now g)
  then show ?thesis using n by blast
next
  case (DoPunched b)
  then show ?thesis using p y by (auto simp: perform_def acks_ok_def)
next
  case (DoSocket b)
  then show ?thesis using p y by (auto simp: perform_def acks_ok_def)
qed

lemma acked_recv:
  assumes y: "receiver_ok cs r d y" and f: "frames_ok cs" and a: "acked_ok cs r k x y" and p: "perform op y = Some (w, bs, y')"
    and g: "\<And>now g. op = DoPacket now g \<Longrightarrow> wire_ok cs g"
  shows "\<exists>r' k'. receiver_ok cs r' (d @ bs) y' \<and> acked_ok cs r' k' x y' \<and> (\<forall>s<2 ^ 30. uc_received r y s \<longrightarrow> uc_received r' y' s)"
proof (cases "\<exists>now g. op = DoPacket now g")
  case False
  have "\<exists>r'\<ge>r. receiver_ok cs r' (d @ bs) y' \<and> (\<forall>s<2 ^ 30. uc_received r y s \<longrightarrow> uc_received r' y' s)"
    by (rule perform_receiver [OF y f p]) (rule g, assumption)
  then obtain r' where r': "receiver_ok cs r' (d @ bs) y'" "\<forall>s<2 ^ 30. uc_received r y s \<longrightarrow> uc_received r' y' s"
    by blast
  have "acks_ok k y" using a by (simp add: acks_ok_def acked_ok_def)
  then have "acks_ok k y'" using perform_acks [OF _ p] False by blast
  then have "acked_ok cs r' k x y'" using a r'(2) by (auto simp: acks_ok_def acked_ok_def)
  with r' show ?thesis by blast
next
  case True
  then obtain now g' where op: "op = DoPacket now g'" by blast
  then have e: "bs = []" "y' = handlePacket now g' y" using p by (simp_all add: perform_def)
  let ?y = "y\<lparr>lastInboundNs := now\<rparr>"
  have y0: "receiver_ok cs r d ?y" "acked_ok cs r k x ?y" "\<And>t. uc_received r ?y t = uc_received r y t"
    using y a by (simp_all add: receiver_ok_def acked_ok_def uc_received_def)
  from g [OF op] f show ?thesis
  proof (cases rule: handlePacket_wire [where now = now and y = y])
    case (1 s)
    obtain k' where "acked_ok cs r k' x y'" using handleData_acked [OF y0(1) f y0(2) 1(1)] e 1 by auto
    with handleData_ok [OF y0(1) 1(1)] show ?thesis by (intro exI [of _ r] exI [of _ k']) (simp add: e 1 y0(3))
  next
    case 2
    then have "receiver_ok cs r d y'" "acked_ok cs r k x y'" "\<And>t. uc_received r y' t = uc_received r y t"
      using y a handlePacket_sender(3) [of now g' y] by (simp_all add: e receiver_ok_def acked_ok_def uc_received_def)
    then show ?thesis by (auto simp: e)
  qed
qed

lemma acked_okI:
  assumes "acked_ok cs r k x y" "\<And>a. a \<in> set (ackRecv x') \<Longrightarrow> a \<in> set (ackRecv x) \<or> (\<exists>j\<le>k. a = of_nat j)"
    "\<And>s. s < length cs \<Longrightarrow> k < s \<Longrightarrow> of_nat s \<in> fst ` set (inflight x) \<Longrightarrow> of_nat s \<in> fst ` set (inflight x')"
  shows "acked_ok cs r k x' y"
proof -
  have "s \<le> k \<or> of_nat s \<in> fst ` set (inflight x')" if "s < length cs" for s
  proof (cases "s \<le> k")
    case False
    then have "of_nat s \<in> fst ` set (inflight x)" using assms(1) that unfolding acked_ok_def by blast
    then show ?thesis using assms(3) [OF that] False by simp
  qed simp
  moreover have "\<exists>j\<le>k. b = of_nat j" if "b \<in> set (ackRecv x')" for b
    using assms(1) assms(2) [OF that] unfolding acked_ok_def by blast
  ultimately show ?thesis using assms(1) unfolding acked_ok_def by simp
qed

lemma acked_advance:
  assumes a: "acked_ok cs r k x y"
  shows "acked_ok cs r k (advanceBase now x) y"
proof (cases "ackRecv x")
  case (Cons b bs)
  then obtain j where j: "j \<le> k" "b = of_nat j" using a by (auto simp: acked_ok_def)
  have "seqBefore b (of_nat s)" if "s < length cs" "k < s" for s
    using that j a seqBefore_nat [of j s] by (auto simp: acked_ok_def)
  then show ?thesis using Cons by (intro acked_okI [OF a]) (auto simp: advanceBase_def image_iff)
qed (simp add: advanceBase_def a)

lemma acked_packet:
  assumes a: "acked_ok cs r k x y" and g: "g \<in> set (uc_sent y)"
  shows "acked_ok cs r k (handlePacket now g x) y"
proof (rule acked_okI [OF a])
  have "acks_upto k g" using a g by (simp add: acked_ok_def)
  then show "b \<in> set (ackRecv x) \<or> (\<exists>j\<le>k. b = of_nat j)" if "b \<in> set (ackRecv (handlePacket now g x))" for b
    using that by (auto simp: handlePacket_def Let_def acks_upto_def ackOf_def split: if_splits)
qed (simp add: handlePacket_sender)

lemma acked_send:
  assumes x: "sender_ok cs x" and a: "acked_ok cs r k x y" and p: "perform op x = Some (w, d', x')"
    and g: "\<And>now g. op = DoPacket now g \<Longrightarrow> g \<in> set (uc_sent y)" and b: "length (concat cs) + length w \<le> 2 ^ 29"
  shows "\<exists>cs'. sender_ok (cs @ cs') x' \<and> concat cs' = w \<and> acked_ok (cs @ cs') r k x' y"
proof -
  obtain cs' where cs': "sender_ok (cs @ cs') x'" "concat cs' = w" "length cs' \<le> 1" using perform_sender [OF x p] b by auto
  have none: "acked_ok cs r k x' y \<Longrightarrow> w = [] \<Longrightarrow> ?thesis"
    using cs' by (intro exI [of _ cs']) (auto simp: sender_ok_def)
  have same: ?thesis if "ackRecv x' = ackRecv x" "inflight x' = inflight x" "w = []"
    using that a by (intro none) (simp_all add: acked_ok_def)
  show ?thesis
  proof (cases op)
    case (DoChunk now q)
    show ?thesis
    proof (cases "uc_closed x \<or> q = []")
      case True
      then show ?thesis using a DoChunk p by (intro none) (auto simp: perform_def)
    next
      case False
      with DoChunk p have c: "writeChunk now q x = (w, x')" "q \<noteq> []" by (auto simp: perform_def split: prod.splits)
      have "w \<noteq> []" using writeChunk_nonempty [OF x c(2)] c(1) by (metis fst_conv)
      moreover have "length cs \<le> length (concat cs)" using x by (intro concat_length_ge) (auto simp: sender_ok_def)
      ultimately have l: "Suc (length cs) \<le> 2 ^ 29" using b by (cases w) auto
      note W = writeChunk_ok [OF x c]
      have "acked_ok (cs @ [w]) r k x' y" using a l W(4,9) by (auto simp: acked_ok_def less_Suc_eq)
      then show ?thesis using W(1) l by (intro exI [of _ "[w]"]) simp
    qed
  next
    case (DoResend now)
    have io: "\<forall>p\<in>set (inflight x). inflight_ok cs p" using x by (simp add: sender_ok_def)
    from DoResend p have rx: "resendOverdue now (inflight x) x = Some x'" "w = []" by (auto simp: perform_def retransmitLocked_def)
    note R = resendOverdue_keeps [OF rx(1) subset_refl io io]
    have "acked_ok cs r k x' y" using R by (intro acked_okI [OF a]) auto
    then show ?thesis using rx(2) by (rule none)
  next
    case (DoRead m)
    with p uc_Read_sender [of m x] have "ackRecv x' = ackRecv x" "inflight x' = inflight x" "w = []"
      by (auto simp: perform_def split: prod.splits)
    then show ?thesis by (rule same)
  next
    case (DoAck now)
    then show ?thesis using p acked_advance [OF a, of now] by (intro none) (auto simp: perform_def)
  next
    case (DoPacket now g')
    then show ?thesis using p acked_packet [OF a g, of now g' now] by (intro none) (auto simp: perform_def)
  next
    case DoAckTimer
    then show ?thesis using p by (intro same) (auto simp: perform_def)
  next
    case DoIdle
    then show ?thesis using p by (intro same) (auto simp: perform_def idleExpires_def)
  next
    case DoClose
    then show ?thesis using p by (intro same) (auto simp: perform_def)
  next
    case (DoPunched b)
    then show ?thesis using p by (intro same) (auto simp: perform_def)
  next
    case (DoSocket b)
    then show ?thesis using p by (intro same) (auto simp: perform_def)
  qed
qed

section \<open>Nothing is lost\<close>

definition reliable :: "udp_link \<Rightarrow> bool" where
  "reliable l \<longleftrightarrow> (length (lk_wa l) \<le> 2 ^ 29 \<longrightarrow>
     (\<exists>cs r k. sender_ok cs (lk_a l) \<and> concat cs = lk_wa l \<and> receiver_ok cs r (lk_db l) (lk_b l) \<and> acked_ok cs r k (lk_a l) (lk_b l)))"

lemma reliable_step:
  assumes "link_step l l'" "reliable l"
  shows "reliable l'"
  using assms(1)
proof (cases rule: link_step.cases)
  case (left op w d a')
  show ?thesis unfolding reliable_def
  proof
    assume b: "length (lk_wa l') \<le> 2 ^ 29"
    then have "length (lk_wa l) \<le> 2 ^ 29" using left by simp
    with assms(2) obtain cs r k where I: "sender_ok cs (lk_a l)" "concat cs = lk_wa l" "receiver_ok cs r (lk_db l) (lk_b l)" "acked_ok cs r k (lk_a l) (lk_b l)"
      unfolding reliable_def by blast
    have "\<exists>cs'. sender_ok (cs @ cs') a' \<and> concat cs' = w \<and> acked_ok (cs @ cs') r k a' (lk_b l)"
      using left b by (intro acked_send [OF I(1,4) left(2)]) (auto simp: I(2))
    then obtain cs' where "sender_ok (cs @ cs') a'" "concat cs' = w" "acked_ok (cs @ cs') r k a' (lk_b l)" by blast
    with left I(2) receiver_ok_mono [OF I(3)]
    show "\<exists>cs r k. sender_ok cs (lk_a l') \<and> concat cs = lk_wa l' \<and> receiver_ok cs r (lk_db l') (lk_b l') \<and> acked_ok cs r k (lk_a l') (lk_b l')"
      by (intro exI [of _ "cs @ cs'"] exI [of _ r] exI [of _ k]) simp
  qed
next
  case (right op w d b')
  show ?thesis unfolding reliable_def
  proof
    assume "length (lk_wa l') \<le> 2 ^ 29"
    then have "length (lk_wa l) \<le> 2 ^ 29" using right by simp
    with assms(2) obtain cs r k where I: "sender_ok cs (lk_a l)" "concat cs = lk_wa l" "receiver_ok cs r (lk_db l) (lk_b l)" "acked_ok cs r k (lk_a l) (lk_b l)"
      unfolding reliable_def by blast
    have "\<exists>r' k'. receiver_ok cs r' (lk_db l @ d) b' \<and> acked_ok cs r' k' (lk_a l) b' \<and> (\<forall>s<2 ^ 30. uc_received r (lk_b l) s \<longrightarrow> uc_received r' b' s)"
      using right(3) I(1) by (intro acked_recv [OF I(3) sender_frames [OF I(1)] I(4) right(2)]) (auto simp: sender_ok_def)
    then obtain r' k' where "receiver_ok cs r' (lk_db l @ d) b'" "acked_ok cs r' k' (lk_a l) b'" by blast
    with right I show "\<exists>cs r k. sender_ok cs (lk_a l') \<and> concat cs = lk_wa l' \<and> receiver_ok cs r (lk_db l') (lk_b l') \<and> acked_ok cs r k (lk_a l') (lk_b l')"
      by (intro exI [of _ cs] exI [of _ r'] exI [of _ k']) simp
  qed
qed

primrec uc_drain :: "nat \<Rightarrow> nat \<Rightarrow> udpStreamConn \<Rightarrow> bytes" where
  \<comment> \<open>what up to \<open>n\<close> calls of \<open>Read\<close> with a buffer of \<open>m\<close> bytes return\<close>
  "uc_drain m 0 y = []"
| "uc_drain m (Suc n) y = (case uc_Read m y of (ReadData bs, y') \<Rightarrow> bs @ uc_drain m n y' | _ \<Rightarrow> [])"

lemma drain_complete:
  assumes "receiver_ok cs r d y" "frames_ok cs" "\<And>s. s < length cs \<Longrightarrow> uc_received r y s" "0 < m"
  shows "\<exists>n. d @ uc_drain m n y = concat cs"
  using assms(1,3)
proof (induction "length (concat cs) - length d" arbitrary: r d y rule: less_induct)
  case less
  show ?case
  proof (cases "readBuf y = [] \<and> r = length cs")
    case True
    then show ?thesis using less.prems(1) by (intro exI [of _ 0]) (simp add: receiver_ok_def)
  next
    case False
    obtain res y' where e: "uc_Read m y = (res, y')" by fastforce
    have "readBuf y \<noteq> [] \<or> map_of (recvBuf y) (of_nat r) \<noteq> None"
      using False less.prems(1) less.prems(2) [of r] by (auto simp: receiver_ok_def uc_received_def)
    then obtain r' where r': "receiver_ok cs r' (d @ bytesOf res) y'" "\<forall>s<2 ^ 30. uc_received r y s \<longrightarrow> uc_received r' y' s" "bytesOf res \<noteq> []"
      using uc_Read_ok [OF less.prems(1) assms(2) e] assms(4) by blast
    obtain bs where bs: "res = ReadData bs" "bs \<noteq> []" using r'(3) by (cases res) (auto simp: bytesOf_def)
    have "(d @ bs) @ readBuf y' = concat (take r' cs)" using r'(1) bs by (simp add: receiver_ok_def bytesOf_def)
    then have "length (d @ bs) \<le> length (concat (take r' cs))" by (metis length_append le_add1)
    moreover have "length (concat (take r' cs)) \<le> length (concat cs)" by (metis append_take_drop_id concat_append length_append le_add1)
    ultimately have lt: "length (concat cs) - length (d @ bs) < length (concat cs) - length d" using bs(2) by (cases bs) auto
    have rec: "uc_received r' y' s" if "s < length cs" for s using that less.prems(2) r'(2) assms(2) by (auto simp: frames_ok_def)
    have "receiver_ok cs r' (d @ bs) y'" using r'(1) bs(1) by (simp add: bytesOf_def)
    from less.hyps [OF lt this rec] obtain n where "(d @ bs) @ uc_drain m n y' = concat cs" by blast
    then show ?thesis using e bs(1) by (intro exI [of _ "Suc n"]) simp
  qed
qed

lemma packet_ok:
  assumes y: "receiver_ok cs r d y" and f: "frames_ok cs" and g: "wire_ok cs g"
  shows "receiver_ok cs r d (handlePacket now g y)" "uc_received r y t \<Longrightarrow> uc_received r (handlePacket now g y) t"
proof -
  have y0: "receiver_ok cs r d (y\<lparr>lastInboundNs := now\<rparr>)" "uc_received r (y\<lparr>lastInboundNs := now\<rparr>) t = uc_received r y t"
    using y by (simp_all add: receiver_ok_def uc_received_def)
  have "receiver_ok cs r d (handlePacket now g y) \<and> (uc_received r y t \<longrightarrow> uc_received r (handlePacket now g y) t)"
    using g f
  proof (cases rule: handlePacket_wire [where now = now and y = y])
    case (1 s)
    with handleData_ok [OF y0(1) 1(1)] y0(2) show ?thesis by simp
  next
    case 2
    with y show ?thesis by (simp add: receiver_ok_def uc_received_def)
  qed
  then show "receiver_ok cs r d (handlePacket now g y)" "uc_received r y t \<Longrightarrow> uc_received r (handlePacket now g y) t" by blast+
qed

lemma packet_received:
  assumes "receiver_ok cs r d y" "frames_ok cs" "s < length cs" "length cs \<le> 2 ^ 29"
  shows "uc_received r (handlePacket now (udpFrame udpFrameTypeData (of_nat s) a (cs ! s)) y) s"
proof -
  have s: "length (cs ! s) < 65536" "unat (of_nat s :: u32) = s"
    using assms(2-4) unat_of_nat_small(2) [of s] by (auto simp: frames_ok_def)
  then have "(of_nat s :: u32) \<noteq> 0xFFFFFFFF" using assms(3,4) by (auto simp del: unat_of_nat)
  moreover have "receiver_ok cs r d (y\<lparr>lastInboundNs := now\<rparr>)" using assms(1) by (simp add: receiver_ok_def)
  ultimately show ?thesis using handleData_received [OF _ assms(3,4)] s(1) by (simp add: handlePacket_frame)
qed

lemma packets_ok:
  assumes "receiver_ok cs r d y" "frames_ok cs" "\<forall>g\<in>set gs. wire_ok cs g" "length cs \<le> 2 ^ 29" "s < length cs"
    "uc_received r y s \<or> (\<exists>a. udpFrame udpFrameTypeData (of_nat s) a (cs ! s) \<in> set gs)"
  shows "receiver_ok cs r d (fold (handlePacket now) gs y) \<and> uc_received r (fold (handlePacket now) gs y) s"
  using assms(1,3,6)
proof (induction gs arbitrary: y)
  case (Cons g gs)
  have g: "wire_ok cs g" "\<forall>g\<in>set gs. wire_ok cs g" using Cons.prems(2) by simp_all
  have "uc_received r (handlePacket now g y) s \<or> (\<exists>a. udpFrame udpFrameTypeData (of_nat s) a (cs ! s) \<in> set gs)"
    using Cons.prems(3) packet_ok(2) [OF Cons.prems(1) assms(2) g(1), of s now] packet_received [OF Cons.prems(1) assms(2,5,4)] by auto
  from Cons.IH [OF packet_ok(1) [OF Cons.prems(1) assms(2) g(1)] g(2) this] show ?case by simp
qed simp

lemma first_frame_reliable:
  assumes "p \<noteq> []" "writeChunk t p newUDPStreamConn = (c, a)" "b = handlePacket t' (udpFrame udpFrameTypeData 0 0 c) newUDPStreamConn"
  shows "reliable \<lparr>lk_a = a, lk_b = b, lk_wa = c, lk_wb = [], lk_da = [], lk_db = []\<rparr>"
proof -
  note W = writeChunk_ok [OF newUDPStreamConn_ok(1) assms(2,1)]
  have s: "sender_ok [c] a" "fst ` set (inflight a) = {0}" "ackRecv a = []" using W(1,4,9) by (simp_all add: newUDPStreamConn_def)
  have b: "b = uc_handleData 0 c (newUDPStreamConn\<lparr>lastInboundNs := t'\<rparr>)"
    using s(1) assms(3) by (simp add: handlePacket_frame sender_ok_def)
  have "seqBefore 0 0 = False" "nextOf 0 = 1" using seqBefore_nat [of 0 0] nextOf_nat [of 0] by simp_all
  then have b': "b = newUDPStreamConn\<lparr>lastInboundNs := t', recvBuf := [(0, c)], ackCount := 1, ackTimer := True\<rparr>"
    unfolding b by (simp add: uc_handleData_def countFrame_def newUDPStreamConn_def Let_def)
  have "receiver_ok [c] 0 [] b" by (simp add: b' receiver_ok_def newUDPStreamConn_def)
  moreover have "acked_ok [c] 0 0 a b" using s by (simp add: b' acked_ok_def newUDPStreamConn_def uc_received_def)
  ultimately show ?thesis unfolding reliable_def using s(1) by (intro impI exI [of _ "[c]"] exI [of _ 0]) simp
qed

text \<open>
  C37. Nothing is lost once the first frame has arrived first. From then on, whatever happens to the
  datagrams and however the two sides act, at any time at which at most \<open>2 ^ 29\<close> bytes were written: the
  frames that the sender still keeps for retransmission, delivered in any order and with any other
  datagrams it has sent among them, complete the stream, and reading returns exactly the bytes written.
\<close>

theorem udp_nothing_lost:
  assumes "p \<noteq> []" "writeChunk t p newUDPStreamConn = (c, a)" "b = handlePacket t' (udpFrame udpFrameTypeData 0 0 c) newUDPStreamConn"
    and steps: "link_step\<^sup>*\<^sup>* \<lparr>lk_a = a, lk_b = b, lk_wa = c, lk_wb = [], lk_da = [], lk_db = []\<rparr> l"
    and l: "length (lk_wa l) \<le> 2 ^ 29" and m: "0 < m"
    and gs: "(\<lambda>q. if_data (snd q)) ` set (inflight (lk_a l)) \<subseteq> set gs"
      "set gs \<subseteq> set (uc_sent (lk_a l)) \<union> (\<lambda>q. if_data (snd q)) ` set (inflight (lk_a l))"
  shows "\<exists>n. lk_db l @ uc_drain m n (fold (handlePacket now) gs (lk_b l)) = lk_wa l"
proof -
  have "reliable l" using steps
    by (induction rule: rtranclp_induct) (use first_frame_reliable [OF assms(1-3)] reliable_step in auto)
  with l obtain cs r k where I: "sender_ok cs (lk_a l)" "concat cs = lk_wa l" "receiver_ok cs r (lk_db l) (lk_b l)" "acked_ok cs r k (lk_a l) (lk_b l)"
    unfolding reliable_def by blast
  note f = sender_frames [OF I(1)]
  have w: "\<forall>g\<in>set gs. wire_ok cs g"
    using gs(2) I(1) inflight_ok_wire unfolding sender_ok_def by blast
  have sent: "uc_received r (lk_b l) s \<or> (\<exists>a. udpFrame udpFrameTypeData (of_nat s) a (cs ! s) \<in> set gs)" if s: "s < length cs" for s
  proof (cases "s \<le> k")
    case False
    then obtain q where q: "q \<in> set (inflight (lk_a l))" "fst q = of_nat s" using I(4) s by (auto simp: acked_ok_def)
    then obtain j e where j: "j < length cs" "(of_nat s :: u32) = of_nat j" "if_data (snd q) = udpFrame udpFrameTypeData (of_nat j) e (cs ! j)"
      using I(1) by (auto simp: sender_ok_def inflight_ok_def)
    then have "s = j" using s f by (subst (asm) of_nat_seq_iff) (auto simp: frames_ok_def)
    then show ?thesis using j(3) gs(1) q(1) by (auto simp: image_subset_iff)
  qed (use I(4) in \<open>simp add: acked_ok_def\<close>)
  have cs: "length cs \<le> 2 ^ 29" "k < length cs" using I(4) by (simp_all add: acked_ok_def)
  let ?y = "fold (handlePacket now) gs (lk_b l)"
  have P: "receiver_ok cs r (lk_db l) ?y \<and> uc_received r ?y s" if "s < length cs" for s
    using packets_ok [OF I(3) f w cs(1) that sent [OF that]] .
  then have "receiver_ok cs r (lk_db l) ?y" "\<And>s. s < length cs \<Longrightarrow> uc_received r ?y s" using cs(2) by blast+
  from drain_complete [OF this(1) f this(2) m] show ?thesis unfolding I(2) .
qed

section \<open>Witnesses\<close>

definition demoSender :: udpStreamConn where
  "demoSender = snd (writeChunk 0 [1, 2, 3] newUDPStreamConn)"

definition demoReceiver :: udpStreamConn where
  "demoReceiver = handlePacket 1 (udpFrame udpFrameTypeData 0 0 [1, 2, 3]) newUDPStreamConn"

lemma demo_values:
  "writeChunk 0 [1, 2, 3] newUDPStreamConn = ([1, 2, 3], demoSender)"
  "fst (writeChunk 2 [4] demoSender) = [4]"
  "uc_sent demoSender = [udpFrame udpFrameTypeData 0 0 [1, 2, 3]]"
  "map (\<lambda>q. if_data (snd q)) (inflight (snd (writeChunk 2 [4] demoSender))) = [udpFrame udpFrameTypeData 0 0 [1, 2, 3], udpFrame udpFrameTypeData 1 0 [4]]"
  "fst (uc_Read 2 demoReceiver) = ReadData [1, 2]" "uc_closed demoSender = False"
  by code_simp+

lemma demo_run:
  "link_step\<^sup>*\<^sup>* newLink \<lparr>lk_a = demoSender, lk_b = snd (uc_Read 2 demoReceiver), lk_wa = [1, 2, 3], lk_wb = [], lk_da = [], lk_db = [1, 2]\<rparr>"
proof -
  let ?l1 = "\<lparr>lk_a = demoSender, lk_b = newUDPStreamConn, lk_wa = [1, 2, 3], lk_wb = [], lk_da = [], lk_db = []\<rparr>"
  let ?l2 = "?l1\<lparr>lk_b := demoReceiver\<rparr>"
  have "perform (DoChunk 0 [1, 2, 3]) newUDPStreamConn = Some ([1, 2, 3], [], demoSender)"
    by (simp add: perform_def demo_values(1)) (simp add: newUDPStreamConn_def)
  then have 1: "link_step newLink ?l1" using link_step.left [of "DoChunk 0 [1, 2, 3]" newLink] by (simp add: newLink_def)
  have "perform (DoPacket 1 (udpFrame udpFrameTypeData 0 0 [1, 2, 3])) newUDPStreamConn = Some ([], [], demoReceiver)"
    by (simp add: perform_def demoReceiver_def)
  then have 2: "link_step ?l1 ?l2"
    using link_step.right [of "DoPacket 1 (udpFrame udpFrameTypeData 0 0 [1, 2, 3])" ?l1] by (simp add: demo_values)
  have "perform (DoRead 2) demoReceiver = Some ([], [1, 2], snd (uc_Read 2 demoReceiver))"
    using demo_values(5) by (simp add: perform_def bytesOf_def split_beta)
  then have "link_step ?l2 (?l2\<lparr>lk_b := snd (uc_Read 2 demoReceiver), lk_db := [1, 2]\<rparr>)"
    using link_step.right [of "DoRead 2" ?l2] by simp
  with 1 2 show ?thesis by (simp add: converse_rtranclp_into_rtranclp)
qed

theorem udp_delivers_prefix_witness:
  "\<exists>l. link_step\<^sup>*\<^sup>* newLink l \<and> lk_db l = [1, 2] \<and> prefix (lk_db l) (lk_wa l)"
  using udp_delivers_prefix [OF demo_run] demo_run by force

theorem udp_nothing_lost_witness:
  "\<exists>n. uc_drain 2 n (fold (handlePacket 5) [udpFrame udpFrameTypeData 1 0 [4], udpFrame udpFrameTypeData 0 0 [1, 2, 3]] demoReceiver) = [1, 2, 3, 4]"
proof -
  let ?l = "\<lparr>lk_a = demoSender, lk_b = demoReceiver, lk_wa = [1, 2, 3], lk_wb = [], lk_da = [], lk_db = []\<rparr>"
  have "perform (DoChunk 2 [4]) demoSender = Some ([4], [], snd (writeChunk 2 [4] demoSender))"
    using demo_values(2,6) by (simp add: perform_def split_beta)
  then have "link_step ?l (?l\<lparr>lk_a := snd (writeChunk 2 [4] demoSender), lk_wa := [1, 2, 3, 4]\<rparr>)"
    using link_step.left [of "DoChunk 2 [4]" ?l] by simp
  then have s: "link_step\<^sup>*\<^sup>* ?l (?l\<lparr>lk_a := snd (writeChunk 2 [4] demoSender), lk_wa := [1, 2, 3, 4]\<rparr>)" by (rule r_into_rtranclp)
  have "(\<lambda>q. if_data (snd q)) ` set (inflight (snd (writeChunk 2 [4] demoSender))) =
      set [udpFrame udpFrameTypeData 1 0 [4], udpFrame udpFrameTypeData 0 0 [1, 2, 3]]"
    by (simp only: set_map [symmetric] demo_values(4)) (simp only: list.set insert_commute)
  then show ?thesis
    using udp_nothing_lost [OF _ demo_values(1) demoReceiver_def s, of 2 "[udpFrame udpFrameTypeData 1 0 [4], udpFrame udpFrameTypeData 0 0 [1, 2, 3]]" 5]
    by simp
qed

section \<open>Write, timeouts and failures\<close>

lemma writeChunk_length:
  assumes "payloadSize sc \<in> {udpMaxPayload, udpPayloadLarge}"
  shows "\<exists>m\<ge>40. fst (writeChunk now p sc) = take m p" "payloadSize (snd (writeChunk now p sc)) = payloadSize sc"
    "length (inflight (snd (writeChunk now p sc))) \<le> Suc (length (inflight sc))" "sockErr (snd (writeChunk now p sc)) = sockErr sc"
proof -
  show "\<exists>m\<ge>40. fst (writeChunk now p sc) = take m p"
    using assms by (intro exI [of _ "if probes now p sc then udpPayloadLarge else chunkSizeOf p sc"])
      (auto simp: writeChunk_def Let_def chunkSizeOf_def udpMaxPayload_def udpPayloadLarge_def)
qed (simp_all add: writeChunk_def Let_def length_alist_update)

text \<open>
  \<open>Write\<close> returns without waiting while the window has room: the whole buffer is framed, at most
  one frame for every 40 bytes.
\<close>

lemma writeLoop_returns:
  assumes "payloadSize sc \<in> {udpMaxPayload, udpPayloadLarge}" "\<not> sockErr sc" "length (inflight sc) + (length p + 39) div 40 < udpWindowSize"
  shows "\<exists>sc'. uc_writeLoop n now es p sc = Some ((n + length p, None), sc')"
  using assms
proof (induction "length p" arbitrary: n p sc rule: less_induct)
  case less
  show ?case
  proof (cases "p = []")
    case False
    note W = writeChunk_length [OF less.prems(1), of now p]
    obtain c sc' where c: "writeChunk now p sc = (c, sc')" by fastforce
    obtain m where m: "m \<ge> 40" "c = take m p" using W(1) c by auto
    have q: "length (drop (length c) p) < length p" using m False by (cases p) auto
    have "length (inflight sc') + (length (drop (length c) p) + 39) div 40 < udpWindowSize"
      using W(3) c m less.prems(3) False by (cases p; cases "m < length p") auto
    moreover from this have "waitWindow now now es sc' = Some (None, now, es, sc')" by (simp add: waitWindow.simps)
    moreover have "payloadSize sc' = payloadSize sc" "\<not> sockErr sc'" using W(2,4) c less.prems(2) by simp_all
    ultimately obtain sc'' where "uc_writeLoop (n + length c) now es (drop (length c) p) sc' = Some ((n + length c + length (drop (length c) p), None), sc'')"
      using less.hyps [OF q, of sc'] less.prems(1) by auto
    then show ?thesis using False c less.prems(2) \<open>waitWindow now now es sc' = _\<close> m by (subst uc_writeLoop.simps) auto
  qed (simp add: uc_writeLoop.simps)
qed

lemma uc_Write_returns:
  assumes "\<not> uc_closed sc" "payloadSize sc \<in> {udpMaxPayload, udpPayloadLarge}" "\<not> sockErr sc"
    "length (inflight sc) + (length p + 39) div 40 < udpWindowSize"
  shows "\<exists>sc'. uc_Write now es p sc = Some ((length p, None), sc')"
  using writeLoop_returns [OF assms(2-4), of 0] assms(1) by (simp add: uc_Write_def)

text \<open>
  A probe frame that is not acknowledged within the timeout blocks \<open>retransmitLocked\<close> forever: it
  calls \<open>Close\<close>, which waits for the mutex that the caller holds.
\<close>

lemma probe_timeout_deadlocks:
  assumes "probePending sc" "\<not> uc_done sc" "q \<in> set (inflight sc)" "isProbe (snd q)" "now - sentAt (snd q) \<ge> rtoNs sc"
  shows "retransmitLocked now sc = None"
proof -
  have "q \<in> set qs \<Longrightarrow> probePending z \<Longrightarrow> \<not> uc_done z \<Longrightarrow> rtoNs z = rtoNs sc \<Longrightarrow> resendOverdue now qs z = None" for qs z
    using assms(4,5) by (induction qs arbitrary: z) auto
  then show ?thesis using assms unfolding retransmitLocked_def by blast
qed

text \<open>
  The acknowledgement boundary starts at frame 0 as if it had arrived. When the first frame is lost
  and the second arrives, the receiver acknowledges both, the sender keeps neither, and the reader
  waits for a frame that is never sent again.
\<close>

lemma first_frame_given_up:
  defines "a \<equiv> snd (writeChunk 0 [4] (snd (writeChunk 0 [1, 2, 3] newUDPStreamConn)))"
    and "b \<equiv> ackTimerFires (handlePacket 0 (udpFrame udpFrameTypeData 1 0 [4]) newUDPStreamConn)"
  shows "uc_sent b = [udpFrame udpFrameTypeAck 0 1 []]" "fst (uc_Read 100 b) = ReadBlocks"
    "inflight (advanceBase 1 (handlePacket 1 (udpFrame udpFrameTypeAck 0 1 []) a)) = []"
  unfolding a_def b_def by code_simp+

lemma sampleRTT_bounds:
  assumes "udpRTOMin \<le> rtoNs sc" "rtoNs sc \<le> udpRTOMax"
  shows "udpRTOMin \<le> rtoNs (sampleRTT t sc)" "rtoNs (sampleRTT t sc) \<le> udpRTOMax"
    "125 * 10 ^ 6 \<le> retransmitTick (sampleRTT t sc)" "retransmitTick (sampleRTT t sc) \<le> 500 * 10 ^ 6"
proof -
  define clamp where "clamp z = (let z = (if z < udpRTOMin then udpRTOMin else z) in if z > udpRTOMax then udpRTOMax else z)" for z
  have "rtoNs (sampleRTT t sc) = rtoNs sc \<or> (\<exists>z. rtoNs (sampleRTT t sc) = clamp z)"
  proof (cases "t \<le> 0")
    case False
    then show ?thesis unfolding sampleRTT_def Let_def clamp_def
      by (simp split del: if_split) (rule disjI2, rule exI, rule refl)
  qed (simp add: sampleRTT_def)
  moreover have "udpRTOMin \<le> clamp z" "clamp z \<le> udpRTOMax" for z by (auto simp: clamp_def Let_def udpRTOMin_def udpRTOMax_def)
  ultimately show b: "udpRTOMin \<le> rtoNs (sampleRTT t sc)" "rtoNs (sampleRTT t sc) \<le> udpRTOMax" using assms by auto
  then show "125 * 10 ^ 6 \<le> retransmitTick (sampleRTT t sc)" "retransmitTick (sampleRTT t sc) \<le> 500 * 10 ^ 6"
    by (auto simp: retransmitTick_def Let_def udpRTOMin_def udpRTOMax_def)
qed

lemma funpow_nextOf: "unat ((nextOf ^^ Suc i) k) = (unat k + Suc i) mod 2 ^ 30"
proof -
  have 1: "unat (nextOf k) = (unat k + 1) mod 2 ^ 30" for k :: u32
  proof -
    have "unat (nextOf k) = unat (k + 1) mod 2 ^ 30" by (simp only: nextOf_def unat_mod_distrib unat_udpMaxSeq)
    also have "\<dots> = (unat k + 1) mod 2 ^ 32 mod 2 ^ 30" by (simp add: unat_word_ariths)
    also have "\<dots> = (unat k + 1) mod 2 ^ 30" by (rule mod_mod_cancel) simp
    finally show ?thesis .
  qed
  show ?thesis
  proof (induction i)
    case (Suc i)
    have "unat ((nextOf ^^ Suc (Suc i)) k) = (unat ((nextOf ^^ Suc i) k) + 1) mod 2 ^ 30" using 1 by simp
    also have "\<dots> = (unat k + Suc (Suc i)) mod 2 ^ 30" unfolding Suc.IH by (simp add: mod_Suc_eq)
    finally show ?case .
  qed (use 1 in simp)
qed

text \<open>The size of the map is enough fuel for the walk over the buffered frames.\<close>

lemma contiguous_stops:
  assumes "length buf < 2 ^ 30"
  shows "map_of buf (nextOf (contiguous (length buf) buf k)) = None"
proof (rule ccontr)
  assume S: "map_of buf (nextOf (contiguous (length buf) buf k)) \<noteq> None"
  have "map_of buf (nextOf (contiguous n buf k)) \<noteq> None \<Longrightarrow> \<forall>i\<le>n. map_of buf ((nextOf ^^ Suc i) k) \<noteq> None" for n
  proof (induction n arbitrary: k)
    case (Suc n)
    have n: "map_of buf (nextOf k) \<noteq> None" using Suc.prems by (auto split: if_splits)
    then have I: "\<forall>i\<le>n. map_of buf ((nextOf ^^ Suc i) (nextOf k)) \<noteq> None" using Suc.prems by (intro Suc.IH) simp
    show ?case
    proof (intro allI impI)
      fix i assume "i \<le> Suc n"
      then show "map_of buf ((nextOf ^^ Suc i) k) \<noteq> None" using n I by (cases i) (auto simp: funpow_swap1)
    qed
  qed simp
  with S have "(\<lambda>i. (nextOf ^^ Suc i) k) ` {..length buf} \<subseteq> fst ` set buf" by (fastforce simp: map_of_eq_None_iff)
  moreover have "inj_on (\<lambda>i. (nextOf ^^ Suc i) k) {..length buf}"
  proof (rule inj_onI)
    fix i j assume ij: "i \<in> {..length buf}" "j \<in> {..length buf}" and eq: "(nextOf ^^ Suc i) k = (nextOf ^^ Suc j) k"
    have "(unat k + Suc i) mod 2 ^ 30 = (unat k + Suc j) mod 2 ^ 30" unfolding funpow_nextOf [symmetric] eq ..
    moreover have "i < 2 ^ 30" "j < 2 ^ 30" using ij assms by auto
    moreover have "x = y" if "(unat k + Suc x) mod 2 ^ 30 = (unat k + Suc y) mod 2 ^ 30" "x \<le> y" "y < 2 ^ 30" for x y
    proof (rule ccontr)
      assume "x \<noteq> y"
      moreover have "2 ^ 30 dvd y - x" using that mod_eq_dvd_iff_nat [of "unat k + Suc x" "unat k + Suc y" "2 ^ 30"] by simp
      ultimately have "2 ^ 30 \<le> y - x" using that(2) by (intro dvd_imp_le) auto
      then show False using that(3) by linarith
    qed
    ultimately show "i = j" by (metis nat_le_linear)
  qed
  ultimately have "card {..length buf} \<le> card (fst ` set buf)" by (metis card_image card_mono finite_imageI finite_set)
  moreover have "card (fst ` set buf) \<le> length buf" using card_length [of "map fst buf"] by simp
  ultimately show False by simp
qed

text \<open>
  A call of \<open>Write\<close> is a sequence of the steps above, with the datagrams that arrive while it waits
  among them; what it frames is what it counts, but for a chunk that the socket refused, which is
  framed and not counted.
\<close>

fun runs :: "udp_op list \<Rightarrow> udpStreamConn \<Rightarrow> (bytes \<times> bytes \<times> udpStreamConn) option" where
  "runs [] sc = Some ([], [], sc)"
| "runs (op # ops) sc =
     (case perform op sc of
        None \<Rightarrow> None
      | Some (w, d, sc') \<Rightarrow> map_option (\<lambda>(w', d', sc''). (w @ w', d @ d', sc'')) (runs ops sc'))"

lemma runs_append:
  "runs ops sc = Some (w, d, sc') \<Longrightarrow> runs ops' sc' = Some (w', d', sc'') \<Longrightarrow> runs (ops @ ops') sc = Some (w @ w', d @ d', sc'')"
proof (induction ops arbitrary: sc w d)
  case (Cons op ops)
  then show ?case by (fastforce split: option.splits prod.splits)
qed simp

lemma closed_simps [simp]:
  "uc_closed (udpSend g sc) = uc_closed sc" "uc_closed (countFrame b sc) = uc_closed sc" "uc_closed (uc_handleData s p sc) = uc_closed sc"
  "uc_closed (sampleRTT t sc) = uc_closed sc" "uc_closed (snd (writeChunk now p sc)) = uc_closed sc"
  by (simp_all add: udpSend_def countFrame_def sendAck_def uc_handleData_def sampleRTT_def writeChunk_def Let_def)

lemma closed_keeps:
  "uc_closed (advanceBase t sc) = uc_closed sc" "uc_closed (handlePacket t g sc) = uc_closed sc"
  "retransmitLocked t sc = Some sc' \<Longrightarrow> uc_closed sc' = uc_closed sc"
proof -
  show "uc_closed (advanceBase t sc) = uc_closed sc"
    by (auto simp: advanceBase_def ackLocked_def Let_def split: list.splits)
  show "uc_closed (handlePacket t g sc) = uc_closed sc" by (simp add: handlePacket_def Let_def)
  have "resendOverdue t ps x = Some x' \<Longrightarrow> uc_closed x' = uc_closed x" for ps x x'
  proof (induction ps arbitrary: x)
    case (Cons p ps)
    then show ?case by (fastforce split: if_splits)
  qed simp
  then show "retransmitLocked t sc = Some sc' \<Longrightarrow> uc_closed sc' = uc_closed sc" by (simp add: retransmitLocked_def)
qed

lemma waitWindow_runs:
  "waitWindow st now es sc = Some (e, t, es', sc') \<Longrightarrow> \<exists>ops. runs ops sc = Some ([], [], sc') \<and> uc_closed sc' = uc_closed sc"
proof (induction es arbitrary: now sc)
  case Nil
  then show ?case by (auto simp: waitWindow.simps [of st now "[]"] split: if_splits intro: exI [of _ "[]"])
next
  case (Cons ev es)
  have one: ?case if p: "perform op sc = Some ([], [], x)" "uc_closed x = uc_closed sc" "waitWindow st n es x = Some (e, t, es', sc')" for op x n
  proof -
    obtain ops where "runs ops x = Some ([], [], sc')" "uc_closed sc' = uc_closed x" using Cons.IH [OF p(3)] by blast
    then show ?thesis using p(1,2) by (intro exI [of _ "op # ops"]) simp
  qed
  show ?case
  proof (cases "length (inflight sc) < udpWindowSize \<or> now - st > udpWriteTimeout")
    case True
    then show ?thesis using Cons.prems by (auto simp: waitWindow.simps [of st now "ev # es"] split: if_splits intro: exI [of _ "[]"])
  next
    case F: False
    obtain u v where ev: "ev = (u, v)" by fastforce
    note P = Cons.prems [unfolded ev waitWindow.simps [of st now "(u, v) # es"]]
    show ?thesis
    proof (cases v)
      case WindowAck
      then show ?thesis using P F by (intro one [of "DoAck u" "advanceBase u sc"]) (auto simp: perform_def closed_keeps)
    next
      case (WindowPacket g)
      then show ?thesis using P F by (intro one [of "DoPacket u g" "handlePacket u g sc"]) (auto simp: perform_def closed_keeps)
    next
      case WindowRto
      with P F obtain x where "retransmitLocked u sc = Some x" "waitWindow st u es x = Some (e, t, es', sc')" by (auto split: option.splits)
      then show ?thesis by (intro one [of "DoResend u" x]) (auto simp: perform_def closed_keeps)
    next
      case WindowDone
      then show ?thesis using P F Cons.IH [of now sc] by (auto split: if_splits intro: exI [of _ "[]"])
    qed
  qed
qed

definition writes :: "nat \<Rightarrow> bytes \<Rightarrow> udpStreamConn \<Rightarrow> (nat \<times> udp_write_error option) \<times> udpStreamConn \<Rightarrow> bool" where
  "writes n p sc r \<longleftrightarrow> (case r of ((n', e), sc') \<Rightarrow>
     \<exists>ops w. runs ops sc = Some (w, [], sc') \<and> prefix w p \<and> n \<le> n' \<and> (e \<noteq> Some SocketError \<longrightarrow> length w = n' - n) \<and> (e = None \<longrightarrow> w = p))"

lemma writeLoop_runs:
  assumes "uc_writeLoop n now es p sc = Some r"
  shows "\<not> uc_closed sc \<longrightarrow> writes n p sc r"
proof (rule uc_writeLoop.raw_induct [OF _ assms, where P = "\<lambda>n now es p sc r. \<not> uc_closed sc \<longrightarrow> writes n p sc r"], intro impI)
  fix wl n now es p sc r
  assume IH: "\<And>n now es p sc r. wl n now es p sc = Some r \<Longrightarrow> \<not> uc_closed sc \<longrightarrow> writes n p sc r" and opn: "\<not> uc_closed sc"
    and B: "(if p = [] then Some ((n, None), sc)
      else let (chunk, sc') = writeChunk now p sc
           in if sockErr sc then Some ((n, Some SocketError), sc')
              else case waitWindow now now es sc' of None \<Rightarrow> None
                   | Some (e, t, es', sc'') \<Rightarrow> (case e of None \<Rightarrow> wl (n + length chunk) t es' (drop (length chunk) p) sc''
                        | Some e \<Rightarrow> Some ((n + length chunk, Some e), sc''))) = Some r"
  show "writes n p sc r"
  proof (cases "p = []")
    case True
    then show ?thesis using B by (auto simp: writes_def intro: exI [of _ "[]"])
  next
    case p: False
    obtain c x where c: "writeChunk now p sc = (c, x)" by fastforce
    have pre: "prefix c p" "c @ drop (length c) p = p"
      using c by (auto simp: writeChunk_def Let_def take_is_prefix min_def split: if_splits)
    have one: "runs [DoChunk now p] sc = Some (c, [], x)" "\<not> uc_closed x"
      using p opn c closed_simps(5) [of now p sc] by (simp_all add: perform_def)
    show ?thesis
    proof (cases "sockErr sc")
      case True
      then show ?thesis using B p c pre one(1) unfolding writes_def by (auto simp del: runs.simps)
    next
      case False
      then obtain e t es' y where w: "waitWindow now now es x = Some (e, t, es', y)"
        and r: "(case e of None \<Rightarrow> wl (n + length c) t es' (drop (length c) p) y | Some e \<Rightarrow> Some ((n + length c, Some e), y)) = Some r"
        using B p c by (auto split: option.splits)
      obtain ops where ops: "runs ops x = Some ([], [], y)" "\<not> uc_closed y" using waitWindow_runs [OF w] one(2) by auto
      have R: "runs ([DoChunk now p] @ ops) sc = Some (c @ [], [] @ [], y)" by (rule runs_append [OF one(1) ops(1)])
      show ?thesis
      proof (cases e)
        case (Some e')
        then have "r = ((n + length c, Some e'), y)" using r by simp
        then show ?thesis unfolding writes_def using R pre(1)
          by (simp del: runs.simps) (intro exI [of _ "DoChunk now p # ops"] exI [of _ c], simp del: runs.simps)
      next
        case None
        obtain n' e' z where z: "r = ((n', e'), z)" by (metis prod.exhaust)
        have "writes (n + length c) (drop (length c) p) y r" using IH r None ops(2) by auto
        then obtain ops' w' where o: "runs ops' y = Some (w', [], z)" "prefix w' (drop (length c) p)" "n + length c \<le> n'"
          "e' \<noteq> Some SocketError \<longrightarrow> length w' = n' - (n + length c)" "e' = None \<longrightarrow> w' = drop (length c) p"
          unfolding writes_def z by auto
        have "prefix (c @ w') p" using o(2) pre(2) by (metis same_prefix_prefix)
        moreover have "e' = None \<longrightarrow> c @ w' = p" using o(5) pre(2) by simp
        ultimately show ?thesis using runs_append [OF R o(1)] o(3,4) unfolding writes_def z
          by (simp del: runs.simps) (intro exI [of _ "DoChunk now p # ops @ ops'"] exI [of _ "c @ w'"], auto simp del: runs.simps)
      qed
    qed
  qed
qed

end
