(* ===== verification/Identity.thy ===== *)
theory Identity
  imports Prelude
begin

text \<open>
  Node identities (\<open>src/internal/identity/identity.go\<close>): an Ed25519 key pair in hexadecimal, signing
  and verifying. The signature scheme is a parameter; its length checks, which panic, are part of the
  model. \<open>encoding/hex\<close> is written out. The PEM files of \<open>pem.go\<close> are not modelled.
\<close>

section \<open>Hexadecimal\<close>

definition hextable :: string where "hextable = ''0123456789abcdef''"

primrec EncodeToString :: "bytes \<Rightarrow> string" where
  "EncodeToString [] = []"
| "EncodeToString (b # bs) = hextable ! unat (drop_bit 4 b) # hextable ! unat (take_bit 4 b) # EncodeToString bs"

definition fromHexChar :: "char \<Rightarrow> nat option" where
  "fromHexChar c =
     (let n = of_char c :: nat
      in if 48 \<le> n \<and> n \<le> 57 then Some (n - 48)
         else if 97 \<le> n \<and> n \<le> 102 then Some (n - 97 + 10)
         else if 65 \<le> n \<and> n \<le> 70 then Some (n - 65 + 10)
         else None)"

fun DecodeString :: "string \<Rightarrow> bytes option" where
  "DecodeString [] = Some []"
| "DecodeString [_] = None"
| "DecodeString (p # q # s) =
     (case (fromHexChar p, fromHexChar q) of
        (Some a, Some b) \<Rightarrow> map_option ((#) (of_nat (16 * a + b))) (DecodeString s)
      | _ \<Rightarrow> None)"

lemma fromHexChar_hextable: "n < 16 \<Longrightarrow> fromHexChar (hextable ! n) = Some n"
proof -
  assume "n < 16"
  moreover have "\<forall>n\<in>set [0..<16]. fromHexChar (hextable ! n) = Some n" by code_simp
  ultimately show ?thesis by auto
qed

lemma DecodeString_EncodeToString [simp]: "DecodeString (EncodeToString bs) = Some bs"
proof (induction bs)
  case (Cons b bs)
  have "unat b < 256" using unsigned_less [of b, where ?'a = nat] by simp
  moreover from this have "unat (drop_bit 4 b) = unat b div 16" "unat (take_bit 4 b) = unat b mod 16"
    unfolding unsigned_drop_bit_eq unsigned_take_bit_eq by (simp_all add: drop_bit_eq_div take_bit_eq_mod)
  ultimately show ?case using Cons by (simp add: fromHexChar_hextable)
qed simp

lemma length_EncodeToString [simp]: "length (EncodeToString bs) = 2 * length bs"
  by (induction bs) auto

lemma EncodeToString_inj: "EncodeToString a = EncodeToString b \<longleftrightarrow> a = b"
  by (metis DecodeString_EncodeToString option.inject)

section \<open>Identities\<close>

definition KeyLen :: nat where "KeyLen = 32"
definition PrivKeyLen :: nat where "PrivKeyLen = 64"

record Identity =
  PrivateKey :: string
  PublicKey :: string

datatype identity_error = KeyGeneration | DecodeKey | InvalidKeyLength nat

definition GenerateIdentity :: "(bytes \<times> bytes) option \<Rightarrow> (identity_error, Identity) res" where
  \<comment> \<open>the key pair that \<open>ed25519.GenerateKey\<close> returns, public key first\<close>
  "GenerateIdentity kp =
     (case kp of
        None \<Rightarrow> err KeyGeneration
      | Some (pub, priv) \<Rightarrow> ok \<lparr>PrivateKey = EncodeToString priv, PublicKey = EncodeToString pub\<rparr>)"

definition PublicKeyFromPrivateHex :: "string \<Rightarrow> (identity_error, string) res" where
  \<comment> \<open>\<open>PrivateKey.Public\<close> is the second half of the private key\<close>
  "PublicKeyFromPrivateHex privHex =
     (case DecodeString privHex of
        None \<Rightarrow> err DecodeKey
      | Some priv \<Rightarrow> guard (length priv \<noteq> PrivKeyLen) (InvalidKeyLength (length priv)) (ok (EncodeToString (drop 32 priv))))"

definition IdentityFromHex :: "string \<Rightarrow> (identity_error, Identity) res" where
  "IdentityFromHex privHex =
     (case DecodeString privHex of
        None \<Rightarrow> err DecodeKey
      | Some priv \<Rightarrow>
          guard (length priv \<noteq> PrivKeyLen) (InvalidKeyLength (length priv))
          (ok \<lparr>PrivateKey = privHex, PublicKey = EncodeToString (drop 32 priv)\<rparr>))"

definition id_Sign :: "(bytes \<Rightarrow> bytes \<Rightarrow> bytes) \<Rightarrow> Identity \<Rightarrow> bytes \<Rightarrow> (identity_error, string) res" where
  \<comment> \<open>\<open>ed25519.Sign\<close> panics on a private key of another length\<close>
  "id_Sign edSign i data =
     (case DecodeString (PrivateKey i) of
        None \<Rightarrow> err DecodeKey
      | Some priv \<Rightarrow> if length priv \<noteq> PrivKeyLen then Inl Panic else ok (EncodeToString (edSign priv data)))"

definition id_Verify :: "(bytes \<Rightarrow> bytes \<Rightarrow> bytes \<Rightarrow> bool) \<Rightarrow> string \<Rightarrow> bytes \<Rightarrow> string \<Rightarrow> (identity_error, bool) res" where
  \<comment> \<open>\<open>ed25519.Verify\<close> panics on a public key of another length\<close>
  "id_Verify edVerify pubKeyHex data sigHex =
     (case DecodeString pubKeyHex of
        None \<Rightarrow> ok False
      | Some pub \<Rightarrow>
          (case DecodeString sigHex of
             None \<Rightarrow> ok False
           | Some sig \<Rightarrow> if length pub \<noteq> KeyLen then Inl Panic else ok (edVerify pub data sig)))"

text \<open>A hexadecimal public key of the wrong length, from whichever source, makes \<open>Verify\<close> panic.\<close>

lemma Verify_panics: "length pub \<noteq> 32 \<Longrightarrow> id_Verify edVerify (EncodeToString pub) data (EncodeToString sig) = Inl Panic"
  by (simp add: id_Verify_def KeyLen_def)

lemma Verify_bytes: "length pub = 32 \<Longrightarrow> id_Verify edVerify (EncodeToString pub) data (EncodeToString sig) = ok (edVerify pub data sig)"
  by (simp add: id_Verify_def KeyLen_def)

lemma sign_then_verify:
  assumes "IdentityFromHex h = ok i" "DecodeString h = Some priv" "\<And>m. edVerify (drop 32 priv) m (edSign priv m)"
  shows "\<exists>s. id_Sign edSign i m = ok s \<and> id_Verify edVerify (PublicKey i) m s = ok True"
  using assms by (auto simp: IdentityFromHex_def id_Sign_def id_Verify_def res_iffs PrivKeyLen_def KeyLen_def)

lemma identity_key_agrees: "IdentityFromHex h = ok i \<Longrightarrow> PublicKeyFromPrivateHex h = ok (PublicKey i) \<and> PrivateKey i = h"
  by (auto simp: IdentityFromHex_def PublicKeyFromPrivateHex_def res_iffs split: option.splits)

end
