(* ===== verification/Secure_Session.thy ===== *)
theory Secure_Session
  imports Identity "HOL-Library.Sublist"
begin

text \<open>
  The session layer: the authenticated key exchange (\<open>src/internal/session/key_exchange.go\<close>) with its
  replay cache (\<open>nonce.go\<close>), the derivation of the session keys (\<open>src/internal/crypto/keys.go\<close>) and the
  encrypted connection that uses them (\<open>secure_conn.go\<close>). X25519, HKDF, SHA-256, Ed25519 and AES-GCM are
  parameters. A connection is the bytes still to come; deadlines, and the identity that the exchange
  returns beside an error, are not modelled.
\<close>

section \<open>Encrypted connections\<close>

definition sc_NonceSize :: nat where "sc_NonceSize = 12"
definition TagSize :: nat where "TagSize = 16"
definition sc_KeySize :: nat where "sc_KeySize = 32"
definition MaxMessageSize :: nat where "MaxMessageSize = 65535 - TagSize"

datatype sc_error =
    InvalidKey | MessageTooLarge | ConnClosed | AuthenticationFailed | ReplayDetected u64 u64 | ShortBuffer | ConnRead io_error | ConnWrite

record SecureConn =
  sendAEAD :: bytes
  recvAEAD :: bytes
  sendNonce :: u64
  recvNonce :: u64
  sc_closed :: bool
  sc_wire :: bytes

definition NewSecureConn :: "bytes \<Rightarrow> bytes \<Rightarrow> (sc_error, SecureConn) res" where
  "NewSecureConn sendKey recvKey =
     guard (length sendKey \<noteq> sc_KeySize) InvalidKey
     (guard (length recvKey \<noteq> sc_KeySize) InvalidKey
     (ok \<lparr>sendAEAD = sendKey, recvAEAD = recvKey, sendNonce = 0, recvNonce = 0, sc_closed = False, sc_wire = []\<rparr>))"

definition nonceFromUint64 :: "u64 \<Rightarrow> bytes" where
  \<comment> \<open>the nonce that \<open>Write\<close> has allocated with zeros, filled in\<close>
  "nonceFromUint64 v = replicate 4 0 @ put64 v"

definition nonceToUint64 :: "bytes \<Rightarrow> u64" where
  "nonceToUint64 nonce = dec64 (drop 4 nonce)"

definition sealFrame :: "(bytes \<Rightarrow> bytes \<Rightarrow> bytes \<Rightarrow> bytes) \<Rightarrow> bytes \<Rightarrow> u64 \<Rightarrow> bytes \<Rightarrow> bytes" where
  "sealFrame seal key n p =
     (let nonce = nonceFromUint64 n; ciphertext = seal key nonce p
      in put16 (of_nat (length ciphertext)) @ nonce @ ciphertext)"

definition sc_Write ::
    "(bytes \<Rightarrow> bytes \<Rightarrow> bytes \<Rightarrow> bytes) \<Rightarrow> bool \<Rightarrow> bytes \<Rightarrow> SecureConn \<Rightarrow> (sc_error, nat) res \<times> SecureConn" where
  \<comment> \<open>\<open>wr\<close>: whether the transport takes the record\<close>
  "sc_Write seal wr p sc =
     (if length p > MaxMessageSize then (err MessageTooLarge, sc)
      else if sc_closed sc then (err ConnClosed, sc)
      else let frame = sealFrame seal (sendAEAD sc) (sendNonce sc) p;
               sc = sc\<lparr>sendNonce := sendNonce sc + 1\<rparr>
           in if \<not> wr then (err ConnWrite, sc) else (ok (length p), sc\<lparr>sc_wire := sc_wire sc @ frame\<rparr>))"

definition readField :: "bytes \<Rightarrow> nat \<Rightarrow> (io_error + bytes) \<times> bytes" where
  \<comment> \<open>\<open>io.ReadFull\<close>, which has consumed the rest of the stream when it fails\<close>
  "readField st n =
     (if n \<le> length st then (Inr (take n st), drop n st) else (Inl (if st = [] then EOF else UnexpectedEOF), []))"

definition sc_Read ::
    "(bytes \<Rightarrow> bytes \<Rightarrow> bytes \<Rightarrow> bytes option) \<Rightarrow> nat \<Rightarrow> bytes \<Rightarrow> SecureConn \<Rightarrow> (bytes \<times> sc_error option) \<times> bytes \<times> SecureConn" where
  \<comment> \<open>into a buffer of \<open>cap\<close> bytes: what was copied with the error, the rest of the stream, the connection\<close>
  "sc_Read opn cap st sc =
     (if sc_closed sc then (([], Some ConnClosed), st, sc)
      else case readField st 2 of
             (Inl e, st) \<Rightarrow> (([], Some (ConnRead e)), st, sc)
           | (Inr lenBuf, st) \<Rightarrow>
             (case readField st sc_NonceSize of
                (Inl e, st) \<Rightarrow> (([], Some (ConnRead e)), st, sc)
              | (Inr nonceBuf, st) \<Rightarrow>
                  let nonce = nonceToUint64 nonceBuf
                  in if nonce \<noteq> recvNonce sc then (([], Some (ReplayDetected nonce (recvNonce sc))), st, sc)
                     else let sc = sc\<lparr>recvNonce := recvNonce sc + 1\<rparr>
                          in case readField st (unat (dec16 lenBuf)) of
                               (Inl e, st) \<Rightarrow> (([], Some (ConnRead e)), st, sc)
                             | (Inr ciphertext, st) \<Rightarrow>
                                 (case opn (recvAEAD sc) nonceBuf ciphertext of
                                    None \<Rightarrow> (([], Some AuthenticationFailed), st, sc)
                                  | Some plaintext \<Rightarrow>
                                      ((take cap plaintext, if cap < length plaintext then Some ShortBuffer else None), st, sc))))"

definition sc_Close :: "SecureConn \<Rightarrow> SecureConn" where
  "sc_Close sc = sc\<lparr>sc_closed := True\<rparr>"

definition SetKeys :: "bytes \<Rightarrow> bytes \<Rightarrow> SecureConn \<Rightarrow> (sc_error, unit) res \<times> SecureConn" where
  "SetKeys sendKey recvKey sc =
     (if length sendKey \<noteq> sc_KeySize \<or> length recvKey \<noteq> sc_KeySize then (err InvalidKey, sc)
      else (ok (), sc\<lparr>sendAEAD := sendKey, recvAEAD := recvKey\<rparr>))"

section \<open>Session keys\<close>

record SessionKeys =
  SendKey :: bytes
  RecvKey :: bytes
  sk_Nonce :: bytes

definition sc_ascii :: "string \<Rightarrow> bytes" where
  "sc_ascii s = map of_char s"

definition DeriveSessionKeys :: "(bytes \<Rightarrow> bytes \<Rightarrow> bytes) \<Rightarrow> bytes \<Rightarrow> bool \<Rightarrow> bytes \<Rightarrow> SessionKeys" where
  \<comment> \<open>\<open>hkdf secret info\<close>: the output stream\<close>
  "DeriveSessionKeys hkdf sharedSecret role identityBinding =
     (let info = sc_ascii ''meshdesk-v2-session'' @ (if length identityBinding \<ge> 8 then take 8 identityBinding else []);
          reader = hkdf sharedSecret info;
          key1 = take sc_KeySize reader; key2 = take sc_KeySize (drop sc_KeySize reader);
          nonce = take sc_NonceSize (drop (2 * sc_KeySize) reader)
      in if role then \<lparr>SendKey = key1, RecvKey = key2, sk_Nonce = nonce\<rparr>
         else \<lparr>SendKey = key2, RecvKey = key1, sk_Nonce = nonce\<rparr>)"

section \<open>Replay cache\<close>

definition MaxNonceCache :: int where "MaxNonceCache = 1024"

record nonceCache =
  seen :: "(bytes \<times> int) list"
  order :: "bytes list"
  nc_max :: int

definition newNonceCache :: "int \<Rightarrow> nonceCache" where
  "newNonceCache n = \<lparr>seen = [], order = [], nc_max = (if n \<le> 0 then MaxNonceCache else n)\<rparr>"

definition checkAndRecord :: "int \<Rightarrow> bytes \<Rightarrow> nonceCache \<Rightarrow> bool \<times> nonceCache" where
  "checkAndRecord now nonce c =
     (if map_of (seen c) nonce \<noteq> None then (False, c)
      else let c = (if int (length (order c)) \<ge> nc_max c
                    then c\<lparr>seen := AList.delete (hd (order c)) (seen c), order := tl (order c)\<rparr> else c)
           in (True, c\<lparr>seen := AList.update nonce now (seen c), order := order c @ [nonce]\<rparr>))"

section \<open>Key exchange\<close>

definition msg1Size :: nat where "msg1Size = 160"
definition msg2Size :: nat where "msg2Size = 128"

datatype kx_error =
    KxRandom | KxEcdh | KxIdentity | KxSign | KxIo | KeyExchangeTimeout | ProtocolViolation | SignatureInvalid

datatype conn_error = ConnTimeout | ConnEOF | ConnFailed

definition wrapTimeout :: "conn_error \<Rightarrow> kx_error" where
  "wrapTimeout e = (case e of ConnTimeout \<Rightarrow> KeyExchangeTimeout | ConnEOF \<Rightarrow> ProtocolViolation | ConnFailed \<Rightarrow> KxIo)"

definition domainInitiator :: bytes where "domainInitiator = sc_ascii ''meshdesk-v2-kx-initiator''"
definition domainResponder :: bytes where "domainResponder = sc_ascii ''meshdesk-v2-kx-responder''"

definition buildInitiatorSignPayload :: "bytes \<Rightarrow> bytes \<Rightarrow> bytes" where
  "buildInitiatorSignPayload ephPub nonce = domainInitiator @ ephPub @ nonce"

definition buildResponderSignPayload :: "bytes \<Rightarrow> bytes \<Rightarrow> bytes \<Rightarrow> bytes" where
  "buildResponderSignPayload peerEphPub ourEphPub nonce = domainResponder @ peerEphPub @ ourEphPub @ nonce"

definition computeIdentityBinding :: "(bytes \<Rightarrow> bytes) \<Rightarrow> bytes \<Rightarrow> bytes \<Rightarrow> bytes" where
  "computeIdentityBinding sha256 sigInitiator sigResponder = take 32 (sha256 (sigInitiator @ sigResponder))"

record kx_crypto =
  x25519 :: "bytes \<Rightarrow> bytes \<Rightarrow> bytes option"
  basepoint :: bytes
  edSign :: "bytes \<Rightarrow> bytes \<Rightarrow> bytes"
  edVerify :: "bytes \<Rightarrow> bytes \<Rightarrow> bytes \<Rightarrow> bool"
  sha256 :: "bytes \<Rightarrow> bytes"
  hkdf :: "bytes \<Rightarrow> bytes \<Rightarrow> bytes"

definition generateX25519Keypair :: "kx_crypto \<Rightarrow> bytes \<Rightarrow> (kx_error, (bytes \<times> bytes) \<times> bytes) res" where
  \<comment> \<open>from the random source; the pair and what the source still holds\<close>
  "generateX25519Keypair K rnd =
     (if length rnd < 32 then err KxRandom
      else case x25519 K (take 32 rnd) (basepoint K) of
             None \<Rightarrow> err KxEcdh
           | Some pub \<Rightarrow> ok ((take 32 rnd, take 32 (pub @ replicate 32 0)), drop 32 rnd))"

definition signBytes :: "kx_crypto \<Rightarrow> Identity \<Rightarrow> bytes \<Rightarrow> (kx_error, bytes) res" where
  "signBytes K i payload =
     (case id_Sign (edSign K) i payload of
        Inl Panic \<Rightarrow> Inl Panic
      | Inl _ \<Rightarrow> err KxSign
      | Inr sigHex \<Rightarrow>
          (case DecodeString sigHex of
             None \<Rightarrow> err KxSign
           | Some sig \<Rightarrow> guard (length sig \<noteq> 64) KxSign (ok sig)))"

definition identityBytes :: "Identity \<Rightarrow> (kx_error, bytes) res" where
  "identityBytes i =
     (case DecodeString (PublicKey i) of
        None \<Rightarrow> err KxIdentity
      | Some b \<Rightarrow> guard (length b \<noteq> 32) KxIdentity (ok b))"

definition verifySig :: "kx_crypto \<Rightarrow> bytes \<Rightarrow> bytes \<Rightarrow> bytes \<Rightarrow> (kx_error, unit) res" where
  "verifySig K pub payload sig =
     (case id_Verify (edVerify K) (EncodeToString pub) payload (EncodeToString sig) of
        Inr True \<Rightarrow> ok () | Inl Panic \<Rightarrow> Inl Panic | _ \<Rightarrow> err SignatureInvalid)"

definition ecdh :: "kx_crypto \<Rightarrow> bytes \<Rightarrow> bytes \<Rightarrow> (kx_error, bytes) res" where
  "ecdh K priv pub = (case x25519 K priv pub of None \<Rightarrow> err KxEcdh | Some s \<Rightarrow> ok s)"

definition clientHello :: "kx_crypto \<Rightarrow> bytes \<Rightarrow> Identity \<Rightarrow> (kx_error, bytes \<times> bytes \<times> bytes \<times> bytes \<times> bytes) res" where
  \<comment> \<open>the ephemeral pair, the nonce, the signature and the first message\<close>
  "clientHello K rnd i =
     and_then (generateX25519Keypair K rnd) (\<lambda>((ephPriv, ephPub), rnd).
     guard (length rnd < 32) KxRandom
     (let nonce = take 32 rnd in
     and_then (identityBytes i) (\<lambda>idPub.
     and_then (signBytes K i (buildInitiatorSignPayload ephPub nonce)) (\<lambda>sig.
     ok (ephPriv, ephPub, nonce, sig, idPub @ ephPub @ nonce @ sig)))))"

definition connWrite :: "conn_error option \<Rightarrow> (kx_error, unit) res" where
  "connWrite wr = (case wr of None \<Rightarrow> ok () | Some e \<Rightarrow> err (wrapTimeout e))"

definition ClientKeyExchange ::
    "kx_crypto \<Rightarrow> conn_error option \<Rightarrow> (bytes \<Rightarrow> bytes) \<Rightarrow> conn_error \<Rightarrow> bytes \<Rightarrow> Identity \<Rightarrow>
       (kx_error, SessionKeys) res \<times> string" where
  \<comment> \<open>\<open>wr\<close>: how writing fails; \<open>peer\<close>: the bytes that come back for a message; \<open>fin\<close>: how reading ends after them.
      The string is the peer's key, empty while it is not known\<close>
  "ClientKeyExchange K wr peer fin rnd i =
     (case and_then (clientHello K rnd i) (\<lambda>(ephPriv, ephPub, nonce, sig, msg1).
           and_then (connWrite wr) (\<lambda>_.
           and_then (readFull (\<lambda>_. wrapTimeout fin) (peer msg1) msg2Size) (\<lambda>(msg2, _).
           ok (ephPriv, ephPub, nonce, sig, msg2)))) of
        Inl e \<Rightarrow> (Inl e, [])
      | Inr (ephPriv, ephPub, nonce, sig, msg2) \<Rightarrow>
          let peerIdentityPub = take 32 msg2; peerEphPub = take 32 (drop 32 msg2); peerSig = drop 64 msg2 in
          (and_then (verifySig K peerIdentityPub (buildResponderSignPayload ephPub peerEphPub nonce) peerSig) (\<lambda>_.
           and_then (ecdh K ephPriv peerEphPub) (\<lambda>sharedSecret.
           ok (DeriveSessionKeys (hkdf K) sharedSecret True (computeIdentityBinding (sha256 K) sig peerSig)))),
           EncodeToString peerIdentityPub))"

definition ServerKeyExchange ::
    "kx_crypto \<Rightarrow> int \<Rightarrow> conn_error option \<Rightarrow> conn_error \<Rightarrow> bytes \<Rightarrow> Identity \<Rightarrow> bytes \<Rightarrow> nonceCache \<Rightarrow>
       ((kx_error, SessionKeys) res \<times> string) \<times> bytes \<times> nonceCache" where
  \<comment> \<open>the result, what was written to the connection, and the cache afterwards\<close>
  "ServerKeyExchange K now wr fin rnd i st c =
     (case readFull (\<lambda>_. wrapTimeout fin) st msg1Size of
        Inl e \<Rightarrow> ((Inl e, []), [], c)
      | Inr (msg1, _) \<Rightarrow>
          let peerIdentityPub = take 32 msg1; peerEphPub = take 32 (drop 32 msg1); nonce = take 32 (drop 64 msg1); peerSig = drop 96 msg1;
              peerIdentityHex = EncodeToString peerIdentityPub
          in case verifySig K peerIdentityPub (buildInitiatorSignPayload peerEphPub nonce) peerSig of
               Inl e \<Rightarrow> ((Inl e, peerIdentityHex), [], c)
             | Inr _ \<Rightarrow>
                 let (fresh, c) = checkAndRecord now nonce c
                 in if \<not> fresh then ((err ProtocolViolation, peerIdentityHex), [], c)
                    else case and_then (generateX25519Keypair K rnd) (\<lambda>((ephPriv, ephPub), _).
                              and_then (identityBytes i) (\<lambda>idPub.
                              and_then (signBytes K i (buildResponderSignPayload peerEphPub ephPub nonce)) (\<lambda>sig.
                              and_then (connWrite wr) (\<lambda>_.
                              ok (ephPriv, idPub @ ephPub @ sig, sig))))) of
                           Inl e \<Rightarrow> ((Inl e, peerIdentityHex), [], c)
                         | Inr (ephPriv, msg2, sig) \<Rightarrow>
                             ((and_then (ecdh K ephPriv peerEphPub) (\<lambda>sharedSecret.
                                ok (DeriveSessionKeys (hkdf K) sharedSecret False (computeIdentityBinding (sha256 K) peerSig sig))),
                               peerIdentityHex), msg2, c))"

section \<open>Records\<close>

lemma nonce_simps [simp]: "length (nonceFromUint64 v) = 12" "nonceToUint64 (nonceFromUint64 v) = v"
  by (simp_all add: nonceFromUint64_def nonceToUint64_def)

definition aead_ok :: "(bytes \<Rightarrow> bytes \<Rightarrow> bytes \<Rightarrow> bytes) \<Rightarrow> (bytes \<Rightarrow> bytes \<Rightarrow> bytes \<Rightarrow> bytes option) \<Rightarrow> bool" where
  "aead_ok seal opn \<longleftrightarrow> (\<forall>k n p. opn k n (seal k n p) = Some p \<and> length (seal k n p) = length p + 16)"

lemma readField_append: "n = length xs \<Longrightarrow> readField (xs @ rest) n = (Inr xs, rest)"
  by (simp add: readField_def)

lemma sc_Read_sealFrame:
  assumes "aead_ok seal opn" "\<not> sc_closed sc" "length p \<le> MaxMessageSize" "length p \<le> cap"
  shows "sc_Read opn cap (sealFrame seal (recvAEAD sc) (recvNonce sc) p @ rest) sc = ((p, None), rest, sc\<lparr>recvNonce := recvNonce sc + 1\<rparr>)"
proof -
  let ?n = "nonceFromUint64 (recvNonce sc)"
  let ?c = "seal (recvAEAD sc) ?n p"
  have c: "length ?c = length p + 16" "opn (recvAEAD sc) ?n ?c = Some p" using assms(1) by (simp_all add: aead_ok_def)
  have l: "unat (of_nat (length ?c) :: u16) = length ?c"
    using assms(3) c(1) by (intro unat_of_nat_small) (simp add: MaxMessageSize_def TagSize_def)
  have "readField (put16 (of_nat (length ?c)) @ ?n @ ?c @ rest) 2 = (Inr (put16 (of_nat (length ?c))), ?n @ ?c @ rest)"
    "readField (?n @ ?c @ rest) sc_NonceSize = (Inr ?n, ?c @ rest)" "readField (?c @ rest) (length ?c) = (Inr ?c, rest)"
    by (simp_all add: readField_append sc_NonceSize_def)
  then show ?thesis using assms(2,4) c(2) l by (simp add: sc_Read_def sealFrame_def Let_def del: unat_of_nat)
qed

primrec sc_writes :: "(bytes \<Rightarrow> bytes \<Rightarrow> bytes \<Rightarrow> bytes) \<Rightarrow> bytes list \<Rightarrow> SecureConn \<Rightarrow> SecureConn" where
  "sc_writes seal [] sc = sc"
| "sc_writes seal (p # ps) sc = sc_writes seal ps (snd (sc_Write seal True p sc))"

primrec sc_reads ::
    "(bytes \<Rightarrow> bytes \<Rightarrow> bytes \<Rightarrow> bytes option) \<Rightarrow> nat \<Rightarrow> nat \<Rightarrow> bytes \<Rightarrow> SecureConn \<Rightarrow> (bytes \<times> sc_error option) list" where
  "sc_reads opn cap 0 st sc = []"
| "sc_reads opn cap (Suc k) st sc = (case sc_Read opn cap st sc of (r, st', sc') \<Rightarrow> r # sc_reads opn cap k st' sc')"

lemma sc_writes_wire:
  assumes "\<not> sc_closed sc" "\<forall>p\<in>set ps. length p \<le> MaxMessageSize"
  shows "\<exists>w. sc_wire (sc_writes seal ps sc) = sc_wire sc @ w \<and>
    (aead_ok seal opn \<and> \<not> sc_closed r \<and> recvAEAD r = sendAEAD sc \<and> recvNonce r = sendNonce sc \<and> MaxMessageSize \<le> cap \<longrightarrow>
      sc_reads opn cap (length ps) (w @ rest) r = map (\<lambda>p. (p, None)) ps)"
  using assms
proof (induction ps arbitrary: sc r)
  case (Cons p ps)
  let ?f = "sealFrame seal (sendAEAD sc) (sendNonce sc) p"
  let ?sc = "snd (sc_Write seal True p sc)"
  have sc: "?sc = sc\<lparr>sendNonce := sendNonce sc + 1, sc_wire := sc_wire sc @ ?f\<rparr>"
    using Cons.prems by (simp add: sc_Write_def Let_def)
  obtain w where w: "sc_wire (sc_writes seal ps ?sc) = sc_wire ?sc @ w" "aead_ok seal opn \<and> \<not> sc_closed (r\<lparr>recvNonce := recvNonce r + 1\<rparr>) \<and>
      recvAEAD (r\<lparr>recvNonce := recvNonce r + 1\<rparr>) = sendAEAD ?sc \<and> recvNonce (r\<lparr>recvNonce := recvNonce r + 1\<rparr>) = sendNonce ?sc \<and> MaxMessageSize \<le> cap \<longrightarrow>
      sc_reads opn cap (length ps) (w @ rest) (r\<lparr>recvNonce := recvNonce r + 1\<rparr>) = map (\<lambda>p. (p, None)) ps"
    using Cons.IH [of ?sc "r\<lparr>recvNonce := recvNonce r + 1\<rparr>"] Cons.prems sc by auto
  have "sc_reads opn cap (length (p # ps)) ((?f @ w) @ rest) r = map (\<lambda>p. (p, None)) (p # ps)"
    if "aead_ok seal opn \<and> \<not> sc_closed r \<and> recvAEAD r = sendAEAD sc \<and> recvNonce r = sendNonce sc \<and> MaxMessageSize \<le> cap"
    using that w(2) sc_Read_sealFrame [of seal opn r p cap "w @ rest"] Cons.prems(2) by (simp add: sc)
  then show ?case using w(1) by (intro exI [of _ "?f @ w"]) (simp add: sc)
qed (simp)

section \<open>No replay\<close>

lemma sc_Read_cases:
  assumes "sc_Read opn cap st sc = ((p, e), st', sc')"
  shows "sc_closed sc' = sc_closed sc \<and> recvAEAD sc' = recvAEAD sc \<and>
    (recvNonce sc' = recvNonce sc \<and> e \<noteq> None \<or> recvNonce sc' = recvNonce sc + 1 \<and>
      (e = None \<longrightarrow> (\<exists>n c. opn (recvAEAD sc) n c = Some p \<and> nonceToUint64 n = recvNonce sc)))"
  using assms by (auto simp: sc_Read_def Let_def split: if_splits sum.splits option.splits prod.splits)

lemma sc_reads_sub:
  assumes auth: "\<And>n c p. opn key n c = Some p \<Longrightarrow> \<exists>i<length ms. n = nonceFromUint64 (s + of_nat i) \<and> p = ms ! i"
    and ms: "length ms \<le> 2 ^ 64"
  shows "recvAEAD r = key \<Longrightarrow> recvNonce r = s + of_nat t \<Longrightarrow> t + k \<le> 2 ^ 64 \<Longrightarrow>
    subseq (map fst (filter (\<lambda>x. snd x = None) (sc_reads opn cap k st r))) (drop t ms) \<and>
    ((\<forall>x\<in>set (sc_reads opn cap k st r). snd x = None) \<longrightarrow> map fst (sc_reads opn cap k st r) = take k (drop t ms))"
proof (induction k arbitrary: t st r)
  case (Suc k)
  obtain p e st' r' where R: "sc_Read opn cap st r = ((p, e), st', r')" by (metis prod.exhaust)
  note C = sc_Read_cases [OF R]
  have sub: "subseq xs (drop (Suc t) ms) \<Longrightarrow> subseq xs (drop t ms)" for xs
    by (metis drop_Suc subseq_order.order_trans suffix_imp_subseq suffix_drop drop_drop plus_1_eq_Suc)
  consider (same) "recvNonce r' = recvNonce r" "e \<noteq> None" | (fail) "recvNonce r' = recvNonce r + 1" "e \<noteq> None"
    | (accept) n c where "recvNonce r' = recvNonce r + 1" "e = None" "opn key n c = Some p" "nonceToUint64 n = recvNonce r"
    using C Suc.prems(1) by blast
  then show ?case
  proof cases
    case same
    then show ?thesis using Suc.IH [of r' t st'] Suc.prems C R by auto
  next
    case fail
    then show ?thesis using Suc.IH [of r' "Suc t" st'] Suc.prems C R sub by (auto simp: add.commute add.left_commute)
  next
    case accept
    obtain i where i: "i < length ms" "n = nonceFromUint64 (s + of_nat i)" "p = ms ! i" using auth [OF accept(3)] by blast
    then have "s + of_nat i = recvNonce r" using accept(4) by simp
    then have "(of_nat i :: u64) = of_nat t" using Suc.prems(2) by simp
    moreover have "i < 2 ^ 64" "t < 2 ^ 64" using i ms Suc.prems(3) by simp_all
    then have "unat (of_nat i :: u64) = i" "unat (of_nat t :: u64) = t" by (simp_all add: unat_of_nat)
    ultimately have "i = t" by metis
    then have d: "drop t ms = p # drop (Suc t) ms" using i by (simp add: Cons_nth_drop_Suc)
    have "recvNonce r' = s + of_nat (Suc t)" using accept(1) Suc.prems(2) by (simp add: add.commute add.left_commute)
    with Suc.IH [of r' "Suc t" st'] Suc.prems(1,3) C have
      "subseq (map fst (filter (\<lambda>x. snd x = None) (sc_reads opn cap k st' r'))) (drop (Suc t) ms)"
      "(\<forall>x\<in>set (sc_reads opn cap k st' r'). snd x = None) \<longrightarrow> map fst (sc_reads opn cap k st' r') = take k (drop (Suc t) ms)"
      by simp_all
    then show ?thesis unfolding d using R accept(2) by simp
  qed
qed simp

section \<open>Key exchange\<close>

definition kx_ok :: "kx_crypto \<Rightarrow> bool" where
  \<comment> \<open>Diffie-Hellman commutes, and the primitives return values of their documented lengths\<close>
  "kx_ok K \<longleftrightarrow>
     (\<forall>a b pa pb. x25519 K a (basepoint K) = Some pa \<and> x25519 K b (basepoint K) = Some pb \<longrightarrow>
        length pa = 32 \<and> x25519 K a pb = x25519 K b pa) \<and>
     (\<forall>k m. length (edSign K k m) = 64) \<and> (\<forall>s i. 64 \<le> length (hkdf K s i))"

lemma kx_okD:
  assumes "kx_ok K"
  shows "length (edSign K k m) = 64" "64 \<le> length (hkdf K s i)"
  using assms unfolding kx_ok_def by blast+

definition identity_ok :: "kx_crypto \<Rightarrow> Identity \<Rightarrow> bool" where
  "identity_ok K i \<longleftrightarrow> (\<exists>priv. length priv = 64 \<and> PrivateKey i = EncodeToString priv \<and>
     PublicKey i = EncodeToString (drop 32 priv) \<and> (\<forall>m. edVerify K (drop 32 priv) m (edSign K priv m)))"

lemma identity_exchange:
  assumes "kx_ok K" "identity_ok K i"
  obtains pub sign where "length pub = 32" "PublicKey i = EncodeToString pub" "identityBytes i = ok pub"
    "\<And>m. signBytes K i m = ok (sign m)" "\<And>m. length (sign m) = 64" "\<And>m. verifySig K pub m (sign m) = ok ()"
proof -
  obtain priv where p: "length priv = 64" "PrivateKey i = EncodeToString priv" "PublicKey i = EncodeToString (drop 32 priv)"
    "\<forall>m. edVerify K (drop 32 priv) m (edSign K priv m)" using assms(2) by (auto simp: identity_ok_def)
  note kx_okD(1) [OF assms(1)]
  then show thesis using p that [of "drop 32 priv" "edSign K priv"]
    by (simp add: identityBytes_def signBytes_def id_Sign_def verifySig_def id_Verify_def PrivKeyLen_def KeyLen_def)
qed

lemma keypair_ok:
  assumes "kx_ok K" "32 \<le> length rnd" "x25519 K (take 32 rnd) (basepoint K) = Some pub"
  shows "generateX25519Keypair K rnd = ok ((take 32 rnd, pub), drop 32 rnd)" "length pub = 32"
proof -
  show "length pub = 32" using assms(1,3) unfolding kx_ok_def by blast
  then show "generateX25519Keypair K rnd = ok ((take 32 rnd, pub), drop 32 rnd)"
    using assms(2,3) by (simp add: generateX25519Keypair_def)
qed

lemma keys_complementary:
  "SendKey (DeriveSessionKeys h s True b) = RecvKey (DeriveSessionKeys h s False b)"
  "RecvKey (DeriveSessionKeys h s True b) = SendKey (DeriveSessionKeys h s False b)"
  by (simp_all add: DeriveSessionKeys_def Let_def)

lemma keys_length:
  assumes "kx_ok K"
  shows "length (SendKey (DeriveSessionKeys (hkdf K) s r b)) = 32 \<and> length (RecvKey (DeriveSessionKeys (hkdf K) s r b)) = 32"
proof -
  note L = kx_okD(2) [OF assms]
  have *: "min (length (hkdf K s i)) 32 = 32" "min (length (hkdf K s i) - 32) 32 = 32" for i
    using L [of s i] by linarith+
  show ?thesis unfolding DeriveSessionKeys_def Let_def sc_KeySize_def
    by (cases r) (simp_all only: if_True if_False SessionKeys.simps length_take length_drop * simp_thms)
qed

lemma exchange_agrees:
  assumes K: "kx_ok K" and ids: "identity_ok K idC" "identity_ok K idS"
    and rnd: "64 \<le> length rndC" "32 \<le> length rndS"
    and pubs: "x25519 K (take 32 rndC) (basepoint K) = Some pC" "x25519 K (take 32 rndS) (basepoint K) = Some pS"
    and shared: "x25519 K (take 32 rndC) pS = Some secret"
    and fresh: "map_of (seen c) (take 32 (drop 32 rndC)) = None"
  shows "\<exists>eph pub nonce sig msg1 msg2 c' b. clientHello K rndC idC = ok (eph, pub, nonce, sig, msg1) \<and>
    ServerKeyExchange K now None finS rndS idS msg1 c = ((ok (DeriveSessionKeys (hkdf K) secret False b), PublicKey idC), msg2, c') \<and>
    ClientKeyExchange K None (\<lambda>m. fst (snd (ServerKeyExchange K now None finS rndS idS m c))) finC rndC idC =
      (ok (DeriveSessionKeys (hkdf K) secret True b), PublicKey idS)"
proof -
  obtain iC sC where C: "length iC = 32" "PublicKey idC = EncodeToString iC" "identityBytes idC = ok iC"
    "\<And>m. signBytes K idC m = ok (sC m)" "\<And>m. length (sC m) = 64" "\<And>m. verifySig K iC m (sC m) = ok ()"
    using identity_exchange [OF K ids(1)] by blast
  obtain iS sS where S: "length iS = 32" "PublicKey idS = EncodeToString iS" "identityBytes idS = ok iS"
    "\<And>m. signBytes K idS m = ok (sS m)" "\<And>m. length (sS m) = 64" "\<And>m. verifySig K iS m (sS m) = ok ()"
    using identity_exchange [OF K ids(2)] by blast
  have kC: "generateX25519Keypair K rndC = ok ((take 32 rndC, pC), drop 32 rndC)" "length pC = 32"
    using keypair_ok [OF K _ pubs(1)] rnd by auto
  have kS: "generateX25519Keypair K rndS = ok ((take 32 rndS, pS), drop 32 rndS)" "length pS = 32"
    using keypair_ok [OF K _ pubs(2)] rnd by auto
  have sh: "x25519 K (take 32 rndS) pC = Some secret" using K pubs shared unfolding kx_ok_def by metis
  let ?n = "take 32 (drop 32 rndC)"
  let ?s1 = "sC (buildInitiatorSignPayload pC ?n)" and ?s2 = "sS (buildResponderSignPayload pC pS ?n)"
  let ?m1 = "iC @ pC @ ?n @ ?s1" and ?m2 = "iS @ pS @ ?s2"
  have n: "length ?n = 32" using rnd by simp
  have hello: "clientHello K rndC idC = ok (take 32 rndC, pC, ?n, ?s1, ?m1)"
    using rnd kC C by (simp add: clientHello_def Let_def guard_def)
  have m1: "readFull (\<lambda>_. wrapTimeout finS) ?m1 msg1Size = ok (?m1, [])" "take 32 ?m1 = iC" "take 32 (drop 32 ?m1) = pC"
    "take 32 (drop 64 ?m1) = ?n" "drop 96 ?m1 = ?s1"
    using C(1,5) kC(2) n by (simp_all add: readFull_def msg1Size_def)
  have m2: "readFull (\<lambda>_. wrapTimeout finC) ?m2 msg2Size = ok (?m2, [])" "take 32 ?m2 = iS" "take 32 (drop 32 ?m2) = pS" "drop 64 ?m2 = ?s2"
    using S(1,5) kS(2) by (simp_all add: readFull_def msg2Size_def)
  obtain c' where c': "checkAndRecord now ?n c = (True, c')" using fresh by (auto simp: checkAndRecord_def Let_def)
  let ?b = "computeIdentityBinding (sha256 K) ?s1 ?s2"
  have srv: "ServerKeyExchange K now None finS rndS idS ?m1 c = ((ok (DeriveSessionKeys (hkdf K) secret False ?b), PublicKey idC), ?m2, c')"
    unfolding ServerKeyExchange_def m1 and_then_simps prod.case C(6) sum.case Let_def c' if_False simp_thms
    by (simp add: kS S C ecdh_def sh connWrite_def)
  have "ClientKeyExchange K None (\<lambda>m. fst (snd (ServerKeyExchange K now None finS rndS idS m c))) finC rndC idC =
      (ok (DeriveSessionKeys (hkdf K) secret True ?b), PublicKey idS)"
    unfolding ClientKeyExchange_def hello and_then_simps prod.case srv fst_conv snd_conv connWrite_def option.case m2 sum.case Let_def S(6)
    by (simp add: S ecdh_def shared)
  with hello srv show ?thesis by blast
qed


section \<open>Replay window\<close>

definition nonceCache_ok :: "nonceCache \<Rightarrow> bool" where
  "nonceCache_ok c \<longleftrightarrow> fst ` set (seen c) = set (order c) \<and> distinct (order c) \<and> 0 < nc_max c \<and> int (length (order c)) \<le> nc_max c"

lemma newNonceCache_ok: "nonceCache_ok (newNonceCache n)"
  by (simp add: nonceCache_ok_def newNonceCache_def MaxNonceCache_def)

lemma fresh_iff: "nonceCache_ok c \<Longrightarrow> map_of (seen c) x = None \<longleftrightarrow> x \<notin> set (order c)"
  by (simp add: map_of_eq_None_iff nonceCache_ok_def)

lemma dom_update_keys: "fst ` set (AList.update k v al) = insert k (fst ` set al)"
  using dom_update [of k v al] by (simp add: dom_map_of_conv_image_fst)

lemma dom_delete_keys: "fst ` set (AList.delete k al) = fst ` set al - {k}"
  by (auto simp: set_alist_delete)

lemma checkAndRecord_spec:
  assumes ok: "nonceCache_ok c" and r: "checkAndRecord now x c = (f, c')"
  shows "f \<longleftrightarrow> x \<notin> set (order c)" "nonceCache_ok c'" "nc_max c' = nc_max c"
    "order c' = (if f then drop (Suc (length (order c)) - nat (nc_max c)) (order c @ [x]) else order c)"
proof -
  note fresh = fresh_iff [OF ok, of x]
  show f: "f \<longleftrightarrow> x \<notin> set (order c)" using r fresh by (auto simp: checkAndRecord_def Let_def split: if_splits)
  have "nonceCache_ok c' \<and> nc_max c' = nc_max c \<and>
    order c' = (if f then drop (Suc (length (order c)) - nat (nc_max c)) (order c @ [x]) else order c)"
  proof (cases "f")
    case False
    then have "checkAndRecord now x c = (False, c)" using f fresh by (auto simp: checkAndRecord_def)
    with r ok False show ?thesis by simp
  next
    case True
    then have new: "map_of (seen c) x = None" using f fresh by simp
    show ?thesis
    proof (cases "int (length (order c)) < nc_max c")
      case room: True
      then have "checkAndRecord now x c = (True, c\<lparr>seen := AList.update x now (seen c), order := order c @ [x]\<rparr>)"
        using new by (simp add: checkAndRecord_def)
      then have c': "c' = c\<lparr>seen := AList.update x now (seen c), order := order c @ [x]\<rparr>" using r by simp
      show ?thesis using ok f True room unfolding c' by (auto simp: nonceCache_ok_def dom_update_keys)
    next
      case evict: False
      then obtain h t where ht: "order c = h # t" using ok by (cases "order c") (auto simp: nonceCache_ok_def)
      have "checkAndRecord now x c = (True, c\<lparr>seen := AList.update x now (AList.delete h (seen c)), order := t @ [x]\<rparr>)"
        using new evict ht by (simp add: checkAndRecord_def)
      then have c': "c' = c\<lparr>seen := AList.update x now (AList.delete h (seen c)), order := t @ [x]\<rparr>" using r by simp
      have "Suc (length (order c)) - nat (nc_max c) = 1" using ok evict unfolding nonceCache_ok_def by linarith
      then show ?thesis using ok f True ht unfolding c' by (auto simp: nonceCache_ok_def dom_update_keys dom_delete_keys)
    qed
  qed
  then show "nonceCache_ok c'" "nc_max c' = nc_max c"
    "order c' = (if f then drop (Suc (length (order c)) - nat (nc_max c)) (order c @ [x]) else order c)" by blast+
qed

primrec recordAll :: "(int \<times> bytes) list \<Rightarrow> nonceCache \<Rightarrow> bytes list \<times> nonceCache" where
  \<comment> \<open>the nonces accepted of a sequence of first messages\<close>
  "recordAll [] c = ([], c)"
| "recordAll (x # xs) c =
     (case checkAndRecord (fst x) (snd x) c of (fresh, c) \<Rightarrow>
      case recordAll xs c of (acc, c) \<Rightarrow> ((if fresh then [snd x] else []) @ acc, c))"

lemma drop_drop_append: "k = length xs - n \<Longrightarrow> drop (length (drop k xs) + length ys - n) (drop k xs @ ys) = drop (length xs + length ys - n) (xs @ ys)"
proof (cases "length xs \<le> n")
  case False
  assume "k = length xs - n"
  with False have "length (drop k xs) + length ys - n + k = length xs + length ys - n" "k \<le> length xs" by auto
  then show ?thesis by (metis (no_types) drop_append drop_drop diff_is_0_eq drop0)
qed simp

lemma recordAll_window:
  "nonceCache_ok c \<Longrightarrow> recordAll xs c = (acc, c') \<Longrightarrow>
   nonceCache_ok c' \<and> nc_max c' = nc_max c \<and>
   order c' = drop (length (order c) + length acc - nat (nc_max c)) (order c @ acc)"
proof (induction xs arbitrary: c acc)
  case Nil
  then show ?case by (auto simp: nonceCache_ok_def)
next
  case (Cons x xs)
  obtain f c1 where 1: "checkAndRecord (fst x) (snd x) c = (f, c1)" by fastforce
  obtain a1 where 2: "recordAll xs c1 = (a1, c')" "acc = (if f then [snd x] else []) @ a1"
    using Cons.prems(2) 1 by (auto split: prod.splits)
  note S = checkAndRecord_spec [OF Cons.prems(1) 1]
  note I = Cons.IH [OF S(2) 2(1)]
  show ?case
  proof (cases f)
    case True
    let ?xs = "order c @ [snd x]"
    have "order c1 = drop (length ?xs - nat (nc_max c)) ?xs" using S(4) True by simp
    then show ?thesis using I S(3) True 2(2) drop_drop_append [OF refl, of ?xs "nat (nc_max c)" a1] by simp
  qed (use I S 2(2) in simp)
qed

lemma replay_refused:
  \<comment> \<open>a first message whose nonce is among the last \<open>max\<close> accepted ones gets no answer and no keys\<close>
  assumes "nonceCache_ok c" "recordAll xs c = (acc, c')" "take 32 (drop 64 (take 160 st)) \<in> set (drop (length acc - nat (nc_max c)) acc)"
  shows "\<exists>e s. ServerKeyExchange K now wr fin rnd i st c' = ((Inl e, s), [], c')"
proof -
  let ?n = "take 32 (drop 64 (take 160 st))"
  note W = recordAll_window [OF assms(1,2)]
  have "suffix (drop (length acc - nat (nc_max c)) acc) (order c')"
  proof -
    have "drop (length (order c) + length acc - nat (nc_max c)) (order c @ acc) =
      drop (length (order c) + length acc - nat (nc_max c)) (order c) @ drop (length acc - nat (nc_max c)) acc
      \<or> drop (length acc - nat (nc_max c)) acc = acc \<and> (\<exists>k. order c' = drop k (order c) @ acc)"
      using W by (cases "nat (nc_max c) \<le> length acc") auto
    then show ?thesis using W by (auto simp: suffix_def)
  qed
  then have "?n \<in> set (order c')" using assms(3) set_mono_suffix by blast
  then obtain t where "map_of (seen c') ?n = Some t" using fresh_iff W by blast
  then have r: "checkAndRecord now ?n c' = (False, c')" by (simp add: checkAndRecord_def)
  show ?thesis
  proof (cases "160 \<le> length st \<and> verifySig K (take 32 st) (buildInitiatorSignPayload (take 32 (drop 32 (take 160 st))) ?n) (drop 96 (take 160 st)) = ok ()")
    case True
    then have "ServerKeyExchange K now wr fin rnd i st c' = ((err ProtocolViolation, EncodeToString (take 32 st)), [], c')"
      using r by (simp add: ServerKeyExchange_def readFull_def msg1Size_def)
    then show ?thesis by blast
  next
    case False
    then show ?thesis by (auto simp: ServerKeyExchange_def readFull_def msg1Size_def Let_def split: sum.split)
  qed
qed

section \<open>The properties\<close>

lemma NewSecureConn_keys:
  assumes "kx_ok K"
  shows "NewSecureConn (SendKey (DeriveSessionKeys (hkdf K) s r b)) (RecvKey (DeriveSessionKeys (hkdf K) s r b)) =
    ok \<lparr>sendAEAD = SendKey (DeriveSessionKeys (hkdf K) s r b), recvAEAD = RecvKey (DeriveSessionKeys (hkdf K) s r b),
      sendNonce = 0, recvNonce = 0, sc_closed = False, sc_wire = []\<rparr>"
  using keys_length [OF assms, of s r b] by (simp add: NewSecureConn_def guard_def sc_KeySize_def)

lemma new_conns_transfer:
  assumes "NewSecureConn s1 r1 = ok a" "NewSecureConn r1 s1 = ok b" "aead_ok seal opn"
    "\<forall>p\<in>set ps. length p \<le> MaxMessageSize" "MaxMessageSize \<le> cap"
  shows "sc_reads opn cap (length ps) (sc_wire (sc_writes seal ps a)) b = map (\<lambda>p. (p, None)) ps"
proof -
  have ab: "a = \<lparr>sendAEAD = s1, recvAEAD = r1, sendNonce = 0, recvNonce = 0, sc_closed = False, sc_wire = []\<rparr>"
    "b = \<lparr>sendAEAD = r1, recvAEAD = s1, sendNonce = 0, recvNonce = 0, sc_closed = False, sc_wire = []\<rparr>"
    using assms(1,2) by (auto simp: NewSecureConn_def guard_def split: if_splits)
  show ?thesis using sc_writes_wire [of a ps seal opn b cap "[]"] assms(3-5) by (auto simp: ab)
qed

text \<open>C6. A session between two honest nodes works end to end.  When the initiator runs
  \<open>ClientKeyExchange\<close> against a responder running \<open>ServerKeyExchange\<close>, with a nonce the responder's cache does not
  hold, both succeed, each learns the other's identity key, and the derived keys open a secure connection at both ends.
  Whatever sequence of messages of at most \<open>MaxMessageSize\<close> bytes either end writes, the other end reads exactly
  that sequence with no error.  The hypotheses on the primitives are that Diffie-Hellman commutes, that outputs have
  their documented lengths, that each identity's signatures verify under its key and that the cipher decrypts what it sealed.\<close>

theorem secure_session_end_to_end:
  assumes K: "kx_ok K" and ids: "identity_ok K idC" "identity_ok K idS" and aead: "aead_ok seal opn"
    and rnd: "64 \<le> length rndC" "32 \<le> length rndS"
    and dh: "x25519 K (take 32 rndC) (basepoint K) = Some pC" "x25519 K (take 32 rndS) (basepoint K) = Some pS"
      "x25519 K (take 32 rndC) pS = Some secret"
    and fresh: "map_of (seen c) (take 32 (drop 32 rndC)) = None"
    and sizes: "\<forall>p\<in>set ps \<union> set qs. length p \<le> MaxMessageSize" "MaxMessageSize \<le> cap"
  shows "\<exists>kc ks hello a b.
    ClientKeyExchange K None (\<lambda>m. fst (snd (ServerKeyExchange K now None finS rndS idS m c))) finC rndC idC = (ok kc, PublicKey idS) \<and>
    clientHello K rndC idC = ok hello \<and>
    fst (ServerKeyExchange K now None finS rndS idS (snd (snd (snd (snd hello)))) c) = (ok ks, PublicKey idC) \<and>
    NewSecureConn (SendKey kc) (RecvKey kc) = ok a \<and> NewSecureConn (SendKey ks) (RecvKey ks) = ok b \<and>
    sc_reads opn cap (length ps) (sc_wire (sc_writes seal ps a)) b = map (\<lambda>p. (p, None)) ps \<and>
    sc_reads opn cap (length qs) (sc_wire (sc_writes seal qs b)) a = map (\<lambda>p. (p, None)) qs"
proof -
  obtain eph pub nonce sig m1 m2 c' bd where X: "clientHello K rndC idC = ok (eph, pub, nonce, sig, m1)"
    "ServerKeyExchange K now None finS rndS idS m1 c = ((ok (DeriveSessionKeys (hkdf K) secret False bd), PublicKey idC), m2, c')"
    "ClientKeyExchange K None (\<lambda>m. fst (snd (ServerKeyExchange K now None finS rndS idS m c))) finC rndC idC =
      (ok (DeriveSessionKeys (hkdf K) secret True bd), PublicKey idS)"
    using exchange_agrees [OF K ids rnd dh fresh] by blast
  let ?kc = "DeriveSessionKeys (hkdf K) secret True bd" and ?ks = "DeriveSessionKeys (hkdf K) secret False bd"
  obtain a b where ab: "NewSecureConn (SendKey ?kc) (RecvKey ?kc) = ok a" "NewSecureConn (SendKey ?ks) (RecvKey ?ks) = ok b"
    using NewSecureConn_keys [OF K] by blast
  note ba = ab [unfolded keys_complementary]
  have "sc_reads opn cap (length ps) (sc_wire (sc_writes seal ps a)) b = map (\<lambda>p. (p, None)) ps"
    by (rule new_conns_transfer [OF ba(1) ba(2) aead _ sizes(2)]) (use sizes(1) in blast)
  moreover have "sc_reads opn cap (length qs) (sc_wire (sc_writes seal qs b)) a = map (\<lambda>p. (p, None)) qs"
    by (rule new_conns_transfer [OF ba(2) ba(1) aead _ sizes(2)]) (use sizes(1) in blast)
  ultimately show ?thesis using X ab
    by (intro exI [of _ ?kc] exI [of _ ?ks] exI [of _ "(eph, pub, nonce, sig, m1)"] exI [of _ a] exI [of _ b]) simp
qed

definition toy_crypto :: kx_crypto where
  "toy_crypto = \<lparr>x25519 = \<lambda>a b. Some (replicate 32 (hd a * hd b)), basepoint = replicate 32 1,
     edSign = \<lambda>_ _. replicate 64 0, edVerify = \<lambda>_ _ _. True, sha256 = \<lambda>m. take 32 (m @ replicate 32 0),
     hkdf = \<lambda>s _. s @ replicate 76 7\<rparr>"

definition toy_identity :: Identity where
  "toy_identity = \<lparr>PrivateKey = EncodeToString (replicate 64 5), PublicKey = EncodeToString (replicate 32 5)\<rparr>"

definition toy_seal :: "bytes \<Rightarrow> bytes \<Rightarrow> bytes \<Rightarrow> bytes" where
  "toy_seal k n p = p @ replicate 16 (hd k)"

definition toy_open :: "bytes \<Rightarrow> bytes \<Rightarrow> bytes \<Rightarrow> bytes option" where
  "toy_open k n c = (if length c < 16 \<or> drop (length c - 16) c \<noteq> replicate 16 (hd k) then None else Some (take (length c - 16) c))"

lemma toy_laws: "kx_ok toy_crypto" "identity_ok toy_crypto toy_identity" "aead_ok toy_seal toy_open"
proof -
  show "kx_ok toy_crypto" by (simp add: kx_ok_def toy_crypto_def mult.commute)
  show "identity_ok toy_crypto toy_identity" unfolding identity_ok_def
    by (rule exI [of _ "replicate 64 5"]) (simp add: toy_crypto_def toy_identity_def)
  show "aead_ok toy_seal toy_open" by (simp add: aead_ok_def toy_seal_def toy_open_def)
qed

theorem secure_session_end_to_end_witness:
  "\<exists>kc ks hello a b.
    ClientKeyExchange toy_crypto None (\<lambda>m. fst (snd (ServerKeyExchange toy_crypto 0 None ConnEOF (replicate 32 2) toy_identity m (newNonceCache 0))))
      ConnTimeout (replicate 64 3) toy_identity = (ok kc, PublicKey toy_identity) \<and>
    clientHello toy_crypto (replicate 64 3) toy_identity = ok hello \<and>
    fst (ServerKeyExchange toy_crypto 0 None ConnEOF (replicate 32 2) toy_identity (snd (snd (snd (snd hello)))) (newNonceCache 0)) = (ok ks, PublicKey toy_identity) \<and>
    NewSecureConn (SendKey kc) (RecvKey kc) = ok a \<and> NewSecureConn (SendKey ks) (RecvKey ks) = ok b \<and>
    sc_reads toy_open 65535 (length [[1, 2, 3 :: 8 word], []]) (sc_wire (sc_writes toy_seal [[1, 2, 3], []] a)) b = map (\<lambda>p. (p, None)) [[1, 2, 3], []] \<and>
    sc_reads toy_open 65535 (length [[9 :: 8 word]]) (sc_wire (sc_writes toy_seal [[9]] b)) a = map (\<lambda>p. (p, None)) [[9]]"
  by (rule secure_session_end_to_end [where pC = "replicate 32 3" and pS = "replicate 32 2" and secret = "replicate 32 6"])
    (simp_all add: toy_laws newNonceCache_def MaxMessageSize_def TagSize_def, simp_all add: toy_crypto_def)

text \<open>C38. No record is accepted twice, out of order or under another record's number.  Let \<open>ms\<close> be the messages that
  the peer sealed under the receiving key with consecutive nonces from the receiver's counter on, and suppose nothing
  else opens under that key.  Whatever bytes the network delivers, over any number of calls of \<open>Read\<close> up to the wrap of
  the 64-bit counter, the messages returned without error are a subsequence of \<open>ms\<close>.  If no call failed they are
  exactly the first messages of \<open>ms\<close>, with none missing.\<close>

theorem secure_no_replay:
  assumes "\<And>n c p. opn (recvAEAD r) n c = Some p \<Longrightarrow> \<exists>i<length ms. n = nonceFromUint64 (recvNonce r + of_nat i) \<and> p = ms ! i"
    and "length ms \<le> 2 ^ 64" "k \<le> 2 ^ 64"
  shows "subseq (map fst (filter (\<lambda>x. snd x = None) (sc_reads opn cap k st r))) ms \<and>
    ((\<forall>x\<in>set (sc_reads opn cap k st r). snd x = None) \<longrightarrow> map fst (sc_reads opn cap k st r) = take k ms)"
  using sc_reads_sub [of opn "recvAEAD r" ms "recvNonce r" r 0 k cap st] assms by simp

definition toy_receiver :: SecureConn where
  "toy_receiver = \<lparr>sendAEAD = [1], recvAEAD = [2], sendNonce = 0, recvNonce = 5, sc_closed = False, sc_wire = []\<rparr>"

definition toy_open_once :: "bytes \<Rightarrow> bytes \<Rightarrow> bytes \<Rightarrow> bytes option" where
  "toy_open_once k n c = (if n = nonceFromUint64 5 \<and> c = [7, 0] then Some [7] else None)"

theorem secure_no_replay_witness:
  "subseq (map fst (filter (\<lambda>x. snd x = None) (sc_reads toy_open_once 8 2 (concat (replicate 2 ([0, 2] @ nonceFromUint64 5 @ [7, 0]))) toy_receiver))) [[7]] \<and>
   sc_reads toy_open_once 8 2 (concat (replicate 2 ([0, 2] @ nonceFromUint64 5 @ [7, 0]))) toy_receiver =
     [([7], None), ([], Some (ReplayDetected 5 6))]"
proof (rule conjI)
  have "toy_open_once k n c = Some p \<Longrightarrow> \<exists>i<length [[7]]. n = nonceFromUint64 (recvNonce toy_receiver + of_nat i) \<and> p = [[7]] ! i" for k n c p
    by (simp add: toy_open_once_def toy_receiver_def split: if_splits)
  then show "subseq (map fst (filter (\<lambda>x. snd x = None) (sc_reads toy_open_once 8 2 (concat (replicate 2 ([0, 2] @ nonceFromUint64 5 @ [7, 0]))) toy_receiver))) [[7]]"
    using secure_no_replay [of toy_open_once toy_receiver "[[7]]" 2 8] by simp
  show "sc_reads toy_open_once 8 2 (concat (replicate 2 ([0, 2] @ nonceFromUint64 5 @ [7, 0]))) toy_receiver =
     [([7], None), ([], Some (ReplayDetected 5 6))]" by code_simp
qed

end
