(* ===== verification/Audit_Log.thy ===== *)
theory Audit_Log
  imports Identity "HOL-Library.Sublist"
begin

text \<open>
  The audit log (\<open>src/internal/auth/audit.go\<close>, \<open>audit_helpers.go\<close>): one JSON line per decision, chained by
  sequence numbers and the hash of the line before, with rotation, recovery of the chain at a restart
  and verification. JSON, SHA-256 and the format of times are parameters, collected in a record. A log
  on disk is a table of files: number 0 is the log, number \<open>i\<close> its backup \<open>i\<close>. A write may fail after
  some bytes, and the calls that look at a file or open one may fail.
\<close>

section \<open>Entries and lines\<close>

record AuditEntry =
  ae_Sequence :: u64
  ae_PrevHash :: string
  ae_Timestamp :: string
  ae_SourcePeer :: string
  ae_SourceIP :: string
  ae_RequestedCapability :: string
  ae_TargetResource :: string
  ae_Result :: string
  ae_Reason :: string

record audit_env =
  jsonMarshal :: "AuditEntry \<Rightarrow> bytes option"
  jsonUnmarshal :: "bytes \<Rightarrow> AuditEntry option"
  minimalEntry :: "AuditEntry \<Rightarrow> bytes"
  sha256sum :: "bytes \<Rightarrow> bytes"
  rfc3339 :: "int \<Rightarrow> string"

definition DefaultAuditMaxBytes :: int where "DefaultAuditMaxBytes = 100 * 1024 * 1024"
definition DefaultAuditMaxRotates :: nat where "DefaultAuditMaxRotates = 5"

definition hashEntry :: "audit_env \<Rightarrow> bytes \<Rightarrow> string" where
  "hashEntry E data = EncodeToString (sha256sum E data)"

fun splitNewline :: "bytes \<Rightarrow> bytes list" where
  \<comment> \<open>\<open>bytes.Split\<close> at each newline\<close>
  "splitNewline [] = [[]]"
| "splitNewline (c # cs) =
     (if c = 10 then [] # splitNewline cs else (c # hd (splitNewline cs)) # tl (splitNewline cs))"

definition splitLines :: "bytes \<Rightarrow> bytes list" where
  "splitLines data =
     (if data = [] then []
      else splitNewline (if last data = 10 then butlast data else data))"

definition spaces :: "bytes list" where
  \<comment> \<open>white space in UTF-8\<close>
  "spaces = [[9], [10], [11], [12], [13], [32], [0xC2, 0x85], [0xC2, 0xA0], [0xE1, 0x9A, 0x80]] @
     map (\<lambda>b. [0xE2, 0x80, b]) [0x80, 0x81, 0x82, 0x83, 0x84, 0x85, 0x86, 0x87, 0x88, 0x89, 0x8A, 0xA8, 0xA9, 0xAF] @
     [[0xE2, 0x81, 0x9F], [0xE3, 0x80, 0x80]]"

lemma find_space: "find (\<lambda>w. length w \<le> n \<and> P w) spaces = Some w \<Longrightarrow> n - length w < n"
proof -
  assume "find (\<lambda>w. length w \<le> n \<and> P w) spaces = Some w"
  then have "w \<in> set spaces" "length w \<le> n" by (auto simp: find_Some_iff)
  moreover from this have "w \<noteq> []" by (auto simp: spaces_def)
  ultimately show ?thesis by (metis diff_less length_greater_0_conv order_less_le_trans)
qed

function trimLeft :: "bytes \<Rightarrow> bytes" where
  "trimLeft bs =
     (case find (\<lambda>w. length w \<le> length bs \<and> take (length w) bs = w) spaces of None \<Rightarrow> bs | Some w \<Rightarrow> trimLeft (drop (length w) bs))"
  by pat_completeness auto
termination
  by (relation "measure length") (auto dest!: find_space)

function trimRight :: "bytes \<Rightarrow> bytes" where
  "trimRight bs =
     (case find (\<lambda>w. length w \<le> length bs \<and> drop (length bs - length w) bs = w) spaces of
        None \<Rightarrow> bs | Some w \<Rightarrow> trimRight (take (length bs - length w) bs))"
  by pat_completeness auto
termination
  by (relation "measure length") (auto dest!: find_space)

declare trimLeft.simps [simp del] trimRight.simps [simp del]

definition trimSpace :: "bytes \<Rightarrow> bytes" where
  "trimSpace data = trimRight (trimLeft data)"

section \<open>Writers and rotation\<close>

record audit_io =
  io_fail :: "nat option"
  io_stat :: bool
  io_open :: bool

record rotator =
  r_maxBytes :: int
  r_maxBackups :: nat
  r_files :: "(nat \<times> bytes) list"
  r_open :: bool

definition fileOf :: "nat \<Rightarrow> (nat \<times> bytes) list \<Rightarrow> bytes" where
  "fileOf i fs = (case map_of fs i of None \<Rightarrow> [] | Some d \<Rightarrow> d)"

primrec shiftBackups :: "nat \<Rightarrow> nat \<Rightarrow> (nat \<times> bytes) list \<Rightarrow> (nat \<times> bytes) list" where
  "shiftBackups m 0 fs = fs"
| "shiftBackups m (Suc i) fs =
     shiftBackups m i
       (case map_of fs (Suc i) of
          None \<Rightarrow> fs
        | Some d \<Rightarrow> if Suc i = m then AList.delete (Suc i) fs
                    else AList.update (Suc (Suc i)) d (AList.delete (Suc i) fs))"

definition maybeRotate :: "audit_io \<Rightarrow> rotator \<Rightarrow> rotator" where
  "maybeRotate io r =
     (if \<not> r_open r \<or> r_maxBytes r \<le> 0 \<or> \<not> io_stat io \<or> int (length (fileOf 0 (r_files r))) < r_maxBytes r then r
      else let fs = shiftBackups (r_maxBackups r) (r_maxBackups r) (r_files r);
               fs = (case map_of fs 0 of None \<Rightarrow> fs | Some d \<Rightarrow> AList.update 1 d (AList.delete 0 fs))
           in if io_open io then r\<lparr>r_files := AList.update 0 [] fs\<rparr> else r\<lparr>r_files := fs, r_open := False\<rparr>)"

definition rot_Write :: "audit_io \<Rightarrow> bytes \<Rightarrow> rotator \<Rightarrow> rotator" where
  "rot_Write io p r =
     (if \<not> r_open r then r
      else case io_fail io of
             Some n \<Rightarrow> r\<lparr>r_files := AList.update 0 (fileOf 0 (r_files r) @ take n p) (r_files r)\<rparr>
           | None \<Rightarrow> maybeRotate io (r\<lparr>r_files := AList.update 0 (fileOf 0 (r_files r) @ p) (r_files r)\<rparr>))"

datatype audit_writer = NoWriter | PlainWriter bytes | Rotating rotator

definition writerWrite :: "audit_io \<Rightarrow> bytes \<Rightarrow> audit_writer \<Rightarrow> audit_writer" where
  "writerWrite io p w =
     (case w of
        NoWriter \<Rightarrow> NoWriter
      | PlainWriter d \<Rightarrow> PlainWriter (d @ (case io_fail io of None \<Rightarrow> p | Some n \<Rightarrow> take n p))
      | Rotating r \<Rightarrow> Rotating (rot_Write io p r))"

section \<open>The logger\<close>

record AuditLogger =
  al_writer :: audit_writer
  al_sequence :: u64
  al_prevHash :: string

definition NewAuditLogger :: AuditLogger where
  "NewAuditLogger = \<lparr>al_writer = PlainWriter [], al_sequence = 0, al_prevHash = []\<rparr>"

definition scanChain :: "audit_env \<Rightarrow> bytes option \<Rightarrow> (u64 \<times> string) option" where
  "scanChain E file =
     (case file of
        None \<Rightarrow> None
      | Some data \<Rightarrow>
          fold (\<lambda>line found. let line = trimSpace line in
                  if line = [] then found
                  else case jsonUnmarshal E line of None \<Rightarrow> found | Some entry \<Rightarrow> Some (ae_Sequence entry, hashEntry E line))
            (splitLines data) None)"

primrec scanBackups :: "audit_env \<Rightarrow> (nat \<times> bytes) list \<Rightarrow> nat list \<Rightarrow> (u64 \<times> string) option" where
  "scanBackups E fs [] = None"
| "scanBackups E fs (i # is) = (case scanChain E (map_of fs i) of None \<Rightarrow> scanBackups E fs is | Some x \<Rightarrow> Some x)"

definition recoverChain :: "audit_env \<Rightarrow> (nat \<times> bytes) list \<Rightarrow> AuditLogger \<Rightarrow> AuditLogger" where
  "recoverChain E fs a =
     (case scanBackups E fs (0 # [1..<Suc DefaultAuditMaxRotates]) of
        None \<Rightarrow> a
      | Some (seq, hash) \<Rightarrow> a\<lparr>al_sequence := seq, al_prevHash := hash\<rparr>)"

definition NewAuditFileLogger :: "audit_env \<Rightarrow> audit_io \<Rightarrow> (nat \<times> bytes) list \<Rightarrow> AuditLogger option" where
  "NewAuditFileLogger E io fs =
     (if \<not> io_open io then None
      else Some (recoverChain E fs (NewAuditLogger\<lparr>al_writer := PlainWriter (fileOf 0 fs)\<rparr>)))"

definition NewAuditFileLoggerWithRotation ::
    "audit_env \<Rightarrow> audit_io \<Rightarrow> (nat \<times> bytes) list \<Rightarrow> int \<Rightarrow> int \<Rightarrow> AuditLogger option" where
  "NewAuditFileLoggerWithRotation E io fs maxBytes maxBackups =
     (if \<not> io_open io then None
      else let r = \<lparr>r_maxBytes = (if maxBytes \<le> 0 then DefaultAuditMaxBytes else maxBytes),
                     r_maxBackups = (if maxBackups \<le> 0 then DefaultAuditMaxRotates else nat maxBackups),
                     r_files = AList.update 0 (fileOf 0 fs) fs, r_open = True\<rparr>
           in Some (recoverChain E (r_files r) (NewAuditLogger\<lparr>al_writer := Rotating r\<rparr>)))"

definition al_Log :: "audit_env \<Rightarrow> audit_io \<Rightarrow> int \<Rightarrow> AuditEntry \<Rightarrow> AuditLogger \<Rightarrow> AuditLogger" where
  "al_Log E io now entry a =
     (if al_writer a = NoWriter then a
      else let entry = (if ae_Timestamp entry = [] then entry\<lparr>ae_Timestamp := rfc3339 E now\<rparr> else entry);
               seq = al_sequence a + 1;
               entry = entry\<lparr>ae_Sequence := seq, ae_PrevHash := al_prevHash a\<rparr>;
               data = (case jsonMarshal E entry of None \<Rightarrow> minimalEntry E entry | Some d \<Rightarrow> d)
           in \<lparr>al_writer = writerWrite io (data @ [10]) (al_writer a), al_sequence = seq, al_prevHash = hashEntry E data\<rparr>)"

section \<open>Verification\<close>

datatype chain_error = ReadLog | ParseError nat | PrevHashMismatch nat | SequenceMismatch nat

fun verifyLines :: "audit_env \<Rightarrow> nat \<Rightarrow> string \<Rightarrow> u64 \<Rightarrow> bytes list \<Rightarrow> (chain_error, unit) res" where
  "verifyLines E i expectedPrev expectedSeq [] = ok ()"
| "verifyLines E i expectedPrev expectedSeq (line # lines) =
     (let line = trimSpace line in
      if line = [] then verifyLines E (Suc i) expectedPrev expectedSeq lines
      else case jsonUnmarshal E line of
             None \<Rightarrow> err (ParseError (Suc i))
           | Some entry \<Rightarrow>
               if ae_PrevHash entry \<noteq> expectedPrev then err (PrevHashMismatch (Suc i))
               else if ae_Sequence entry \<noteq> expectedSeq then err (SequenceMismatch (Suc i))
               else verifyLines E (Suc i) (hashEntry E line) (expectedSeq + 1) lines)"

definition VerifyHashChain :: "audit_env \<Rightarrow> bytes option \<Rightarrow> (chain_error, unit) res" where
  "VerifyHashChain E file =
     (case file of None \<Rightarrow> err ReadLog | Some data \<Rightarrow> verifyLines E 0 [] 1 (splitLines data))"

section \<open>The lines of a log\<close>

definition logLines :: "bytes \<Rightarrow> bytes list" where
  "logLines data = filter (\<lambda>l. l \<noteq> []) (map trimSpace (splitLines data))"

primrec chainFrom :: "audit_env \<Rightarrow> string \<Rightarrow> u64 \<Rightarrow> bytes list \<Rightarrow> bool" where
  "chainFrom E prev seq [] = True"
| "chainFrom E prev seq (l # ls) =
     (case jsonUnmarshal E l of
        None \<Rightarrow> False
      | Some entry \<Rightarrow> ae_PrevHash entry = prev \<and> ae_Sequence entry = seq \<and> chainFrom E (hashEntry E l) (seq + 1) ls)"

definition lastHash :: "audit_env \<Rightarrow> string \<Rightarrow> bytes list \<Rightarrow> string" where
  "lastHash E prev ls = (if ls = [] then prev else hashEntry E (last ls))"

lemma verifyLines_chain:
  "verifyLines E i prev seq ls = ok () \<longleftrightarrow> chainFrom E prev seq (filter (\<lambda>l. l \<noteq> []) (map trimSpace ls))"
  by (induction E i prev seq ls rule: verifyLines.induct) (auto simp: Let_def split: option.splits)

lemma VerifyHashChain_iff: "VerifyHashChain E (Some data) = ok () \<longleftrightarrow> chainFrom E [] 1 (logLines data)"
  by (simp add: VerifyHashChain_def verifyLines_chain logLines_def)

lemma chainFrom_snoc:
  "chainFrom E prev seq (ls @ [l]) \<longleftrightarrow> chainFrom E prev seq ls \<and>
     (\<exists>entry. jsonUnmarshal E l = Some entry \<and> ae_PrevHash entry = lastHash E prev ls \<and> ae_Sequence entry = seq + of_nat (length ls))"
  by (induction ls arbitrary: prev seq) (auto simp: lastHash_def add.assoc split: option.splits)

lemma lastHash_snoc [simp]: "lastHash E prev (ls @ [l]) = hashEntry E l" "lastHash E prev [] = prev"
  by (simp_all add: lastHash_def)

lemma hashEntry_nonempty: "sha256sum E l \<noteq> [] \<Longrightarrow> hashEntry E l \<noteq> []"
  unfolding hashEntry_def using length_EncodeToString [of "sha256sum E l"] by (metis length_0_conv mult_eq_0_iff zero_neq_numeral)

lemma chain_unique:
  assumes "\<And>d. sha256sum E d \<noteq> []"
  shows "chainFrom E [] 1 as \<Longrightarrow> chainFrom E [] 1 bs \<Longrightarrow> lastHash E [] as = lastHash E [] bs \<Longrightarrow>
    inj_on (sha256sum E) (set as \<union> set bs) \<Longrightarrow> as = bs"
proof (induction as arbitrary: bs rule: rev_induct)
  case Nil
  then show ?case using hashEntry_nonempty [OF assms] by (cases bs rule: rev_cases) (auto dest: sym)
next
  case (snoc a as)
  have "bs \<noteq> []" using snoc.prems(3) hashEntry_nonempty [OF assms] by auto
  then obtain bs' b where b: "bs = bs' @ [b]" by (cases bs rule: rev_cases) auto
  have "sha256sum E a = sha256sum E b" using snoc.prems(3) unfolding b by (simp add: hashEntry_def EncodeToString_inj)
  then have ab: "a = b" by (rule inj_onD [OF snoc.prems(4)]) (simp_all add: b)
  have "lastHash E [] as = lastHash E [] bs'" using snoc.prems(1,2) unfolding ab b chainFrom_snoc by auto
  moreover have "inj_on (sha256sum E) (set as \<union> set bs')" using snoc.prems(4) unfolding b by (rule inj_on_subset) auto
  ultimately have "as = bs'" using snoc.IH [of bs'] snoc.prems(1,2) unfolding b by (simp add: chainFrom_snoc)
  then show ?case by (simp add: b ab)
qed


lemma splitNewline_nonempty [simp]: "splitNewline xs \<noteq> []"
  by (cases xs) simp_all

lemma splitNewline_append: "splitNewline (xs @ 10 # ys) = splitNewline xs @ splitNewline ys"
  by (induction xs) (simp_all add: hd_append tl_append2)

lemma splitNewline_single: "10 \<notin> set xs \<Longrightarrow> splitNewline xs = [xs]"
  by (induction xs) auto

definition json_line :: "bytes \<Rightarrow> bool" where
  \<comment> \<open>an object on one line\<close>
  "json_line l \<longleftrightarrow> l \<noteq> [] \<and> hd l = 123 \<and> last l = 125 \<and> 10 \<notin> set l"

lemma spaces_ends: "w \<in> set spaces \<Longrightarrow> w \<noteq> [] \<and> hd w \<noteq> 123 \<and> last w \<noteq> 125"
  by (auto simp: spaces_def)

lemma trimSpace_json_line: "json_line l \<Longrightarrow> trimSpace l = l"
proof -
  assume l: "json_line l"
  have "find (\<lambda>w. length w \<le> length l \<and> take (length w) l = w) spaces = None"
    unfolding find_None_iff using l spaces_ends by (metis hd_take json_line_def length_greater_0_conv)
  moreover have "find (\<lambda>w. length w \<le> length l \<and> drop (length l - length w) l = w) spaces = None"
    unfolding find_None_iff using l spaces_ends by (metis drop_eq_Nil json_line_def last_drop not_le)
  ultimately show ?thesis by (simp add: trimSpace_def trimLeft.simps [of l] trimRight.simps [of l])
qed

lemma logLines_append:
  assumes "d = [] \<or> last d = 10" "json_line l"
  shows "logLines (d @ l @ [10]) = logLines d @ [l]"
proof -
  have "splitLines (d @ l @ [10]) = splitLines d @ [l]"
  proof (cases d rule: rev_cases)
    case Nil
    then show ?thesis using assms(2) by (simp add: splitLines_def splitNewline_single json_line_def butlast_append)
  next
    case (snoc e x)
    then have "splitLines (d @ l @ [10]) = splitNewline (e @ 10 # l)" "splitLines d = splitNewline e"
      using assms by (simp_all add: splitLines_def butlast_append)
    then show ?thesis using assms(2) by (simp add: splitNewline_append splitNewline_single json_line_def)
  qed
  then show ?thesis using assms(2) by (simp add: logLines_def trimSpace_json_line json_line_def)
qed

section \<open>Writing the log\<close>

definition json_ok :: "audit_env \<Rightarrow> bool" where
  \<comment> \<open>\<open>json.Marshal\<close> of an entry is an object on one line, and reading it back gives the number and the hash,
      whose characters are hexadecimal digits\<close>
  "json_ok E \<longleftrightarrow> (\<forall>e. set (ae_PrevHash e) \<subseteq> set hextable \<longrightarrow>
     (\<exists>l e'. jsonMarshal E e = Some l \<and> json_line l \<and> jsonUnmarshal E l = Some e' \<and>
        ae_Sequence e' = ae_Sequence e \<and> ae_PrevHash e' = ae_PrevHash e))"

lemma EncodeToString_hex: "set (EncodeToString bs) \<subseteq> set hextable"
proof (induction bs)
  case (Cons b bs)
  have "unat b < 256" using unsigned_less [of b, where ?'a = nat] by simp
  moreover from this have "unat (drop_bit 4 b) = unat b div 16" "unat (take_bit 4 b) = unat b mod 16"
    unfolding unsigned_drop_bit_eq unsigned_take_bit_eq by (simp_all add: drop_bit_eq_div take_bit_eq_mod)
  ultimately have "unat (drop_bit 4 b) < length hextable" "unat (take_bit 4 b) < length hextable" by (simp_all add: hextable_def)
  then show ?case using Cons nth_mem by fastforce
qed simp

lemma lastHash_hex: "set (lastHash E [] ls) \<subseteq> set hextable"
  by (simp add: lastHash_def hashEntry_def EncodeToString_hex)

definition log_ok :: "audit_env \<Rightarrow> bytes \<Rightarrow> AuditLogger \<Rightarrow> bool" where
  "log_ok E d a \<longleftrightarrow> al_writer a = PlainWriter d \<and> (d = [] \<or> last d = 10) \<and> chainFrom E [] 1 (logLines d) \<and>
     al_sequence a = of_nat (length (logLines d)) \<and> al_prevHash a = lastHash E [] (logLines d)"

definition allOK :: audit_io where
  "allOK = \<lparr>io_fail = None, io_stat = True, io_open = True\<rparr>"

definition stamped :: "audit_env \<Rightarrow> int \<Rightarrow> AuditEntry \<Rightarrow> AuditEntry" where
  "stamped E now e = (if ae_Timestamp e = [] then e\<lparr>ae_Timestamp := rfc3339 E now\<rparr> else e)"

lemma al_Log_ok:
  assumes "json_ok E" "log_ok E d a"
  shows "\<exists>l. log_ok E (d @ l @ [10]) (al_Log E allOK now e a) \<and> logLines (d @ l @ [10]) = logLines d @ [l] \<and>
    jsonMarshal E ((stamped E now e)\<lparr>ae_Sequence := al_sequence a + 1, ae_PrevHash := al_prevHash a\<rparr>) = Some l"
proof -
  let ?e = "(stamped E now e)\<lparr>ae_Sequence := al_sequence a + 1, ae_PrevHash := al_prevHash a\<rparr>"
  have "set (ae_PrevHash ?e) \<subseteq> set hextable" using assms(2) lastHash_hex by (simp add: log_ok_def)
  then obtain l e' where l: "jsonMarshal E ?e = Some l" "json_line l" "jsonUnmarshal E l = Some e'"
    "ae_Sequence e' = ae_Sequence ?e" "ae_PrevHash e' = ae_PrevHash ?e" using assms(1) unfolding json_ok_def by blast
  have a: "al_Log E allOK now e a = \<lparr>al_writer = PlainWriter (d @ l @ [10]), al_sequence = al_sequence a + 1, al_prevHash = hashEntry E l\<rparr>"
    using assms(2) l(1) unfolding al_Log_def stamped_def [symmetric] Let_def
    by (simp add: log_ok_def writerWrite_def allOK_def)
  have L: "logLines (d @ l @ [10]) = logLines d @ [l]" using assms(2) l(2) by (intro logLines_append) (simp_all add: log_ok_def)
  have "log_ok E (d @ l @ [10]) (al_Log E allOK now e a)" using assms(2) l(3-5) unfolding a
    by (simp add: log_ok_def L chainFrom_snoc add.commute)
  with L l(1) show ?thesis by blast
qed

section \<open>Restarts and rotation\<close>

lemma scanChain_lines:
  "scanChain E (Some data) =
     fold (\<lambda>l found. case jsonUnmarshal E l of None \<Rightarrow> found | Some entry \<Rightarrow> Some (ae_Sequence entry, hashEntry E l)) (logLines data) None"
proof -
  have "fold (\<lambda>line found. let line = trimSpace line in
          if line = [] then found
          else case jsonUnmarshal E line of None \<Rightarrow> found | Some entry \<Rightarrow> Some (ae_Sequence entry, hashEntry E line)) ls x =
        fold (\<lambda>l found. case jsonUnmarshal E l of None \<Rightarrow> found | Some entry \<Rightarrow> Some (ae_Sequence entry, hashEntry E l))
          (filter (\<lambda>l. l \<noteq> []) (map trimSpace ls)) x" for ls x
    by (induction ls arbitrary: x) (simp_all add: Let_def)
  then show ?thesis by (simp add: scanChain_def logLines_def)
qed

lemma scanChain_chain:
  assumes "chainFrom E [] 1 (logLines data)"
  shows "scanChain E (Some data) =
    (if logLines data = [] then None else Some (of_nat (length (logLines data)), lastHash E [] (logLines data)))"
proof -
  have "chainFrom E [] 1 ls \<Longrightarrow> fold (\<lambda>l found. case jsonUnmarshal E l of None \<Rightarrow> found | Some entry \<Rightarrow> Some (ae_Sequence entry, hashEntry E l)) ls None =
      (if ls = [] then None else Some (of_nat (length ls), lastHash E [] ls))" for ls
    by (induction ls rule: rev_induct) (auto simp: chainFrom_snoc)
  then show ?thesis using assms by (simp add: scanChain_lines)
qed

lemma restart_ok:
  assumes "log_ok E d a"
  shows "NewAuditFileLogger E allOK [(0, d)] = Some a"
proof -
  have c: "chainFrom E [] 1 (logLines d)" and a: "a = \<lparr>al_writer = PlainWriter d, al_sequence = of_nat (length (logLines d)), al_prevHash = lastHash E [] (logLines d)\<rparr>"
    using assms by (simp_all add: log_ok_def)
  have none: "scanBackups E [(0, d)] js = None" if "0 \<notin> set js" for js
    using that by (induction js) (auto simp: scanChain_def)
  have "scanBackups E [(0, d)] (0 # [1..<Suc DefaultAuditMaxRotates]) = scanChain E (Some d)"
    using none [of "[1..<Suc DefaultAuditMaxRotates]"] by (simp split: option.splits del: upt_Suc)
  then show ?thesis
    unfolding NewAuditFileLogger_def recoverChain_def
    by (simp add: allOK_def scanChain_chain [OF c] fileOf_def NewAuditLogger_def a del: scanBackups.simps upt_Suc)
qed

datatype audit_step = LogEntry int AuditEntry | Restart

definition audit_do :: "audit_env \<Rightarrow> audit_step \<Rightarrow> AuditLogger \<Rightarrow> AuditLogger" where
  "audit_do E s a =
     (case s of
        LogEntry now e \<Rightarrow> al_Log E allOK now e a
      | Restart \<Rightarrow> (case al_writer a of PlainWriter d \<Rightarrow> (case NewAuditFileLogger E allOK [(0, d)] of None \<Rightarrow> a | Some a' \<Rightarrow> a') | _ \<Rightarrow> a))"

fun requested :: "audit_env \<Rightarrow> audit_step list \<Rightarrow> AuditEntry list" where
  "requested E [] = []"
| "requested E (LogEntry now e # ss) = stamped E now e # requested E ss"
| "requested E (Restart # ss) = requested E ss"

definition unnumbered :: "AuditEntry \<Rightarrow> AuditEntry" where
  "unnumbered e = e\<lparr>ae_Sequence := 0, ae_PrevHash := []\<rparr>"

lemma unnumbered_update: "unnumbered (e\<lparr>ae_Sequence := n, ae_PrevHash := h\<rparr>) = unnumbered e"
  by (simp add: unnumbered_def)

lemma audit_do_log: "audit_do E (LogEntry now e) a = al_Log E allOK now e a"
  by (simp add: audit_do_def)

lemma audit_do_restart: "log_ok E d a \<Longrightarrow> audit_do E Restart a = a"
  using restart_ok [of E d a] by (auto simp: audit_do_def log_ok_def)

lemma requested_append: "requested E (xs @ ys) = requested E xs @ requested E ys"
  by (induction E xs rule: requested.induct) auto

lemma audit_run_ok:
  assumes "json_ok E"
  shows "\<exists>d es. log_ok E d (fold (audit_do E) ss NewAuditLogger) \<and> map Some (logLines d) = map (jsonMarshal E) es \<and>
    map unnumbered es = map unnumbered (requested E ss) \<and> map ae_Sequence es = map of_nat [1..<Suc (length es)]"
proof (induction ss rule: rev_induct)
  case Nil
  have "logLines [] = []" by (simp add: logLines_def splitLines_def)
  then have "log_ok E [] NewAuditLogger" by (simp add: log_ok_def NewAuditLogger_def)
  then show ?case using \<open>logLines [] = []\<close> by (intro exI [of _ "[]"]) simp
next
  case (snoc s ss)
  let ?a = "fold (audit_do E) ss NewAuditLogger"
  obtain d es where I: "log_ok E d ?a" "map Some (logLines d) = map (jsonMarshal E) es"
    "map unnumbered es = map unnumbered (requested E ss)" "map ae_Sequence es = map of_nat [1..<Suc (length es)]" using snoc.IH by blast
  show ?case
  proof (cases s)
    case (LogEntry now e)
    obtain l where l: "log_ok E (d @ l @ [10]) (al_Log E allOK now e ?a)" "logLines (d @ l @ [10]) = logLines d @ [l]"
      "jsonMarshal E ((stamped E now e)\<lparr>ae_Sequence := al_sequence ?a + 1, ae_PrevHash := al_prevHash ?a\<rparr>) = Some l"
      using al_Log_ok [OF assms I(1)] by blast
    have len: "length (logLines d) = length es" using I(2) by (metis length_map)
    let ?e = "(stamped E now e)\<lparr>ae_Sequence := al_sequence ?a + 1, ae_PrevHash := al_prevHash ?a\<rparr>"
    have "ae_Sequence ?e = of_nat (Suc (length es))" using I(1) len by (simp add: log_ok_def)
    then show ?thesis using I l LogEntry
      by (intro exI [of _ "d @ l @ [10]"] exI [of _ "es @ [?e]"]) (simp add: audit_do_log requested_append unnumbered_update)
  next
    case Restart
    then show ?thesis using I audit_do_restart [OF I(1)]
      by (intro exI [of _ d] exI [of _ es]) (simp add: requested_append)
  qed
qed


text \<open>
  Rotation moves every file one number up, drops the oldest backup and starts an empty log; together the
  files keep everything but the oldest backup.
\<close>

lemma shiftBackups_files:
  "k \<le> m \<Longrightarrow> (k < m \<longrightarrow> map_of fs (Suc k) = None) \<Longrightarrow>
   map_of (shiftBackups m k fs) j =
     (if j = 0 \<or> Suc k < j then map_of fs j else if j = 1 \<and> 0 < k then None
      else if k = m \<and> j = Suc m then map_of fs j else if k = 0 then map_of fs j else map_of fs (j - 1))"
proof (induction k arbitrary: fs)
  case (Suc k)
  let ?fs = "case map_of fs (Suc k) of None \<Rightarrow> fs
        | Some d \<Rightarrow> if Suc k = m then AList.delete (Suc k) fs else AList.update (Suc (Suc k)) d (AList.delete (Suc k) fs)"
  have fs: "map_of ?fs i = (if i = Suc k then None else if i = Suc (Suc k) \<and> Suc k < m then map_of fs (Suc k) else map_of fs i)" for i
    using Suc.prems by (cases "map_of fs (Suc k)"; cases "Suc k = m") (simp_all add: delete_conv' update_conv')
  have IH: "map_of (shiftBackups m k ?fs) j =
     (if j = 0 \<or> Suc k < j then map_of ?fs j else if j = 1 \<and> 0 < k then None
      else if k = m \<and> j = Suc m then map_of ?fs j else if k = 0 then map_of ?fs j else map_of ?fs (j - 1))"
    using Suc.IH [of ?fs] Suc.prems(1) fs [of "Suc k"] by simp
  consider "j = 0" | "j = 1" | "1 < j" "j < Suc (Suc k)" | "j = Suc (Suc k)" | "Suc (Suc k) < j" by linarith
  then show ?case unfolding shiftBackups.simps IH fs using Suc.prems(1) by cases auto
qed simp

lemma maybeRotate_files:
  assumes "r_open r" "0 < r_maxBytes r" "io_stat io" "io_open io" "r_maxBytes r \<le> int (length (fileOf 0 (r_files r)))" "0 < r_maxBackups r"
  shows "fileOf 0 (r_files (maybeRotate io r)) = []"
    "i < r_maxBackups r \<Longrightarrow> fileOf (Suc i) (r_files (maybeRotate io r)) = fileOf i (r_files r)"
proof -
  let ?m = "r_maxBackups r"
  let ?fs = "shiftBackups ?m ?m (r_files r)"
  obtain d where d: "map_of (r_files r) 0 = Some d" using assms(2,5) by (cases "map_of (r_files r) 0") (auto simp: fileOf_def)
  note S = shiftBackups_files [of ?m ?m "r_files r"]
  have r: "r_files (maybeRotate io r) = AList.update 0 [] (AList.update 1 d (AList.delete 0 ?fs))"
    using assms d S [of 0] by (simp add: maybeRotate_def Let_def)
  show "fileOf 0 (r_files (maybeRotate io r)) = []" by (simp add: r fileOf_def update_conv')
  show "fileOf (Suc i) (r_files (maybeRotate io r)) = fileOf i (r_files r)" if "i < ?m"
    using that d S [of "Suc i"] by (cases i) (auto simp: r fileOf_def update_conv' delete_conv')
qed

text \<open>
  The verification of one file expects the chain to start in it. The first line of a log after a
  rotation continues the chain of its backup, so from the first rotation on the log is reported as
  broken.
\<close>

lemma rotated_log_refused:
  assumes "json_ok E" "\<And>d. sha256sum E d \<noteq> []" "al_prevHash a = hashEntry E l0"
    and l: "jsonMarshal E ((stamped E now e)\<lparr>ae_Sequence := al_sequence a + 1, ae_PrevHash := al_prevHash a\<rparr>) = Some l"
  shows "VerifyHashChain E (Some (l @ [10])) = err (PrevHashMismatch 1)"
proof -
  let ?e = "(stamped E now e)\<lparr>ae_Sequence := al_sequence a + 1, ae_PrevHash := al_prevHash a\<rparr>"
  have "set (ae_PrevHash ?e) \<subseteq> set hextable" using assms(3) by (simp add: hashEntry_def EncodeToString_hex)
  then obtain e' where e': "json_line l" "jsonUnmarshal E l = Some e'" "ae_PrevHash e' = ae_PrevHash ?e"
    using assms(1) l unfolding json_ok_def by (metis option.inject)
  have "splitLines (l @ [10]) = [l]" using e'(1) by (simp add: splitLines_def splitNewline_single json_line_def)
  then show ?thesis using e' assms(3) hashEntry_nonempty [OF assms(2), of l0] trimSpace_json_line [OF e'(1)]
    by (simp add: VerifyHashChain_def json_line_def)
qed

section \<open>The properties\<close>


text \<open>C40. The chain makes tampering evident.  If two files verify and end in a line with the same hash, which is what
  the logger holds in memory, then they have the same lines: no line was changed, inserted, removed or moved, unless two
  of the lines collide under the hash.\<close>

theorem audit_tamper_evident:
  assumes "VerifyHashChain E (Some a) = ok ()" "VerifyHashChain E (Some b) = ok ()"
    and "lastHash E [] (logLines a) = lastHash E [] (logLines b)"
    and "inj_on (sha256sum E) (set (logLines a) \<union> set (logLines b))" "\<And>d. sha256sum E d \<noteq> []"
  shows "logLines a = logLines b"
  by (rule chain_unique [OF assms(5) assms(1,2) [unfolded VerifyHashChain_iff] assms(3,4)])


definition toy_digit :: "char \<Rightarrow> byte" where
  "toy_digit c = (case fromHexChar c of None \<Rightarrow> 0 | Some n \<Rightarrow> of_nat n + 16)"

definition toy_char :: "byte \<Rightarrow> char" where
  "toy_char b = hextable ! (unat b - 16)"

definition toy_env :: audit_env where
  "toy_env = \<lparr>jsonMarshal = \<lambda>e. Some ([123] @ map toy_digit (ae_PrevHash e) @ [44] @ map toy_digit (EncodeToString (put64 (ae_Sequence e))) @ [125]),
     jsonUnmarshal = \<lambda>l. let m = butlast (tl l); p = takeWhile (\<lambda>b. b \<noteq> 44) m
        in map_option (\<lambda>n. \<lparr>ae_Sequence = dec64 n, ae_PrevHash = map toy_char p, ae_Timestamp = [], ae_SourcePeer = [], ae_SourceIP = [],
             ae_RequestedCapability = [], ae_TargetResource = [], ae_Result = [], ae_Reason = []\<rparr>)
           (DecodeString (map toy_char (drop (Suc (length p)) m))),
     minimalEntry = \<lambda>_. [123, 125], sha256sum = \<lambda>d. 1 # d, rfc3339 = \<lambda>_. ''now''\<rparr>"

lemma toy_digits: "set h \<subseteq> set hextable \<Longrightarrow> map toy_char (map toy_digit h) = h \<and> 10 \<notin> toy_digit ` set h \<and> 44 \<notin> toy_digit ` set h"
proof -
  have "\<forall>c\<in>set hextable. toy_char (toy_digit c) = c \<and> toy_digit c \<noteq> 10 \<and> toy_digit c \<noteq> 44" by code_simp
  then show "set h \<subseteq> set hextable \<Longrightarrow> ?thesis" by (induction h) auto
qed

lemma toy_env_ok: "json_ok toy_env"
  unfolding json_ok_def
proof (intro allI impI)
  fix e :: AuditEntry
  assume "set (ae_PrevHash e) \<subseteq> set hextable"
  note P = toy_digits [OF this] and S = toy_digits [OF EncodeToString_hex, of "put64 (ae_Sequence e)"]
  let ?p = "map toy_digit (ae_PrevHash e)" and ?q = "map toy_digit (EncodeToString (put64 (ae_Sequence e)))"
  have "takeWhile (\<lambda>b. b \<noteq> 44) (?p @ [44] @ ?q) = ?p" using P by (subst takeWhile_append2) (auto simp: image_iff)
  then have "jsonUnmarshal toy_env ([123] @ ?p @ [44] @ ?q @ [125]) =
      Some \<lparr>ae_Sequence = ae_Sequence e, ae_PrevHash = ae_PrevHash e, ae_Timestamp = [], ae_SourcePeer = [], ae_SourceIP = [],
             ae_RequestedCapability = [], ae_TargetResource = [], ae_Result = [], ae_Reason = []\<rparr>"
    using P S by (simp add: toy_env_def Let_def butlast_append del: map_map)
  then show "\<exists>l e'. jsonMarshal toy_env e = Some l \<and> json_line l \<and> jsonUnmarshal toy_env l = Some e' \<and>
      ae_Sequence e' = ae_Sequence e \<and> ae_PrevHash e' = ae_PrevHash e"
    using P S by (intro exI [of _ "[123] @ ?p @ [44] @ ?q @ [125]"]) (auto simp: toy_env_def json_line_def)
qed

definition toy_entry :: AuditEntry where
  "toy_entry = \<lparr>ae_Sequence = 0, ae_PrevHash = [], ae_Timestamp = [], ae_SourcePeer = ''p'', ae_SourceIP = [],
     ae_RequestedCapability = ''relay'', ae_TargetResource = [], ae_Result = ''allow'', ae_Reason = ''explicit_allow''\<rparr>"


definition toy_log :: bytes where
  "toy_log = [123, 44] @ replicate 15 16 @ [17, 125, 10]"

lemma trimSpace_Nil: "trimSpace [] = []"
proof -
  have "find (\<lambda>w. length w \<le> length ([] :: bytes) \<and> P w) spaces = None" for P
    using spaces_ends by (auto simp: find_None_iff)
  then show ?thesis by (simp add: trimSpace_def trimLeft.simps [of "[]"] trimRight.simps [of "[]"])
qed

lemma toy_log_lines:
  "logLines toy_log = [butlast toy_log]" "logLines ([10] @ toy_log) = [butlast toy_log]" "chainFrom toy_env [] 1 [butlast toy_log]"
proof -
  have l: "json_line (butlast toy_log)" "toy_log = butlast toy_log @ [10]" by code_simp+
  have "logLines [] = []" "logLines [10] = []" by (simp_all add: logLines_def splitLines_def trimSpace_Nil)
  then show "logLines toy_log = [butlast toy_log]" "logLines ([10] @ toy_log) = [butlast toy_log]"
    using logLines_append [OF _ l(1), of "[]"] logLines_append [OF _ l(1), of "[10]"] l(2) by simp_all
  show "chainFrom toy_env [] 1 [butlast toy_log]" by code_simp
qed

theorem audit_tamper_evident_witness:
  "VerifyHashChain toy_env (Some toy_log) = ok () \<and> VerifyHashChain toy_env (Some ([10] @ toy_log)) = ok () \<and>
   logLines ([10] @ toy_log) = logLines toy_log \<and> logLines toy_log \<noteq> []"
proof -
  have v: "VerifyHashChain toy_env (Some toy_log) = ok ()" "VerifyHashChain toy_env (Some ([10] @ toy_log)) = ok ()"
    unfolding VerifyHashChain_iff toy_log_lines by (rule toy_log_lines)+
  have "logLines ([10] @ toy_log) = logLines toy_log"
    by (rule audit_tamper_evident [OF v(2,1)]) (simp_all add: toy_log_lines [unfolded append.simps] toy_env_def)
  with v show ?thesis by (simp add: toy_log_lines)
qed

end
