(* ===== verification/Authorization.thy ===== *)
theory Authorization
  imports Audit_Log
begin

text \<open>
  Capability-based authorisation (\<open>src/internal/auth\<close>: \<open>capabilities.go\<close>, \<open>engine.go\<close>, \<open>capability.go\<close>,
  \<open>nonce.go\<close>, \<open>revocation.go\<close> and the checkers): the engine that decides every request of a peer, with its
  audit trail and its callback for denials, the challenge for binary upgrades and signed revocations.
  Go maps with the value true are lists of their keys. \<open>filepath.Clean\<close> is written out for Unix paths.
\<close>

section \<open>Capabilities\<close>

definition CapSSHProxy :: string where "CapSSHProxy = ''ssh_proxy''"
definition CapFileTransfer :: string where "CapFileTransfer = ''file_transfer''"
definition CapMonitorRead :: string where "CapMonitorRead = ''monitor_read''"
definition CapMonitorWrite :: string where "CapMonitorWrite = ''monitor_write''"
definition CapServiceManage :: string where "CapServiceManage = ''service_manage''"
definition CapBinaryUpgrade :: string where "CapBinaryUpgrade = ''binary_upgrade''"
definition CapRelay :: string where "CapRelay = ''relay''"
definition CapExit :: string where "CapExit = ''exit''"

definition AllCapabilities :: "string list" where
  "AllCapabilities =
     [CapSSHProxy, CapFileTransfer, CapMonitorRead, CapMonitorWrite, CapServiceManage, CapBinaryUpgrade, CapRelay, CapExit]"

definition IsValidCapability :: "string \<Rightarrow> bool" where
  "IsValidCapability cap \<longleftrightarrow> cap \<in> set AllCapabilities"

section \<open>Paths\<close>

fun splitSlash :: "string \<Rightarrow> string list" where
  "splitSlash [] = [[]]"
| "splitSlash (c # cs) =
     (if c = CHR ''/'' then [] # splitSlash cs else (c # hd (splitSlash cs)) # tl (splitSlash cs))"

fun joinSlash :: "string list \<Rightarrow> string" where
  "joinSlash [] = []"
| "joinSlash [c] = c"
| "joinSlash (c # cs) = c @ CHR ''/'' # joinSlash cs"

definition pushPart :: "bool \<Rightarrow> string \<Rightarrow> string list \<Rightarrow> string list" where
  \<comment> \<open>the elements kept so far are in reverse\<close>
  "pushPart rooted c st =
     (if c = [] \<or> c = ''.'' then st
      else if c = ''..'' then
        (case st of
           [] \<Rightarrow> if rooted then [] else [''..'']
         | t # ts \<Rightarrow> if t = ''..'' then ''..'' # st else ts)
      else c # st)"

definition cleanParts :: "bool \<Rightarrow> string list \<Rightarrow> string list" where
  "cleanParts rooted cs = rev (fold (pushPart rooted) cs [])"

definition isRooted :: "string \<Rightarrow> bool" where
  "isRooted p \<longleftrightarrow> p \<noteq> [] \<and> hd p = CHR ''/''"

definition partsOf :: "string \<Rightarrow> string list" where
  "partsOf p = cleanParts (isRooted p) (splitSlash p)"

definition Clean :: "string \<Rightarrow> string" where
  "Clean p =
     (let out = (if isRooted p then ''/'' else []) @ joinSlash (partsOf p)
      in if out = [] then ''.'' else out)"

primrec strContains :: "string \<Rightarrow> string \<Rightarrow> bool" where
  "strContains sub [] \<longleftrightarrow> sub = []"
| "strContains sub (c # cs) \<longleftrightarrow> take (length sub) (c # cs) = sub \<or> strContains sub cs"

definition hasPrefix :: "string \<Rightarrow> string \<Rightarrow> bool" where
  "hasPrefix s p \<longleftrightarrow> take (length p) s = p"

definition pathWithinPrefix :: "string \<Rightarrow> string \<Rightarrow> bool" where
  "pathWithinPrefix resource pre =
     (let cleanResource = Clean resource; cleanPrefix = Clean pre
      in if strContains ''..'' cleanResource then False
         else if cleanResource = cleanPrefix then True
         else hasPrefix cleanResource (cleanPrefix @ ''/''))"

section \<open>The engine\<close>

record PeerConfig =
  pc_PublicKey :: string
  pc_Capabilities :: "string list"
  pc_ServiceManage :: "string list"
  pc_FileTransferPaths :: "string list"
  pc_MonitorScopes :: "string list"

record PeerGrant =
  pg_PeerID :: string
  pg_Capabilities :: "string list"
  pg_ServiceScopes :: "string list"
  pg_FileTransferPaths :: "string list"
  pg_MonitorScopes :: "string list"
  pg_GrantedAt :: int

record AuthResult =
  ar_Allowed :: bool
  ar_Reason :: string
  ar_Capability :: string
  ar_Resource :: string
  ar_SourcePeer :: string
  ar_SourceIP :: string
  ar_Timestamp :: int

record RevocationEntry =
  re_PeerID :: string
  re_RevokedBy :: string
  re_RevokedAt :: int
  re_Signature :: string
  re_Reason :: string

record CapabilityEngine =
  grants :: "(string \<times> PeerGrant) list"
  revoked :: "(string \<times> RevocationEntry) list"
  audit :: "AuditLogger option"
  denyCB :: bool
  denials :: "AuthResult list"

definition LoadPeerConfig :: "int \<Rightarrow> PeerConfig \<Rightarrow> CapabilityEngine \<Rightarrow> CapabilityEngine" where
  "LoadPeerConfig now peer e =
     (let grant = \<lparr>pg_PeerID = pc_PublicKey peer, pg_Capabilities = fold List.insert (pc_Capabilities peer) [],
                    pg_ServiceScopes = fold List.insert (pc_ServiceManage peer) [],
                    pg_FileTransferPaths = pc_FileTransferPaths peer, pg_MonitorScopes = pc_MonitorScopes peer, pg_GrantedAt = now\<rparr>
      in e\<lparr>grants := AList.update (pc_PublicKey peer) grant (grants e)\<rparr>)"

definition NewCapabilityEngine :: "int \<Rightarrow> PeerConfig list \<Rightarrow> AuditLogger option \<Rightarrow> CapabilityEngine" where
  "NewCapabilityEngine now peers al =
     fold (\<lambda>peer e. if pc_Capabilities peer = [] then e else LoadPeerConfig now peer e) peers
       \<lparr>grants = [], revoked = [], audit = al, denyCB = False, denials = []\<rparr>"

definition allowDeny :: "bool \<Rightarrow> string" where
  "allowDeny allowed = (if allowed then ''allow'' else ''deny'')"

definition logAudit :: "audit_env \<Rightarrow> audit_io \<Rightarrow> AuthResult \<Rightarrow> CapabilityEngine \<Rightarrow> CapabilityEngine" where
  \<comment> \<open>the calls of the callback are recorded in \<open>denials\<close>\<close>
  "logAudit E io result e =
     (let entry = \<lparr>ae_Sequence = 0, ae_PrevHash = [], ae_Timestamp = rfc3339 E (ar_Timestamp result), ae_SourcePeer = ar_SourcePeer result,
                    ae_SourceIP = ar_SourceIP result, ae_RequestedCapability = ar_Capability result, ae_TargetResource = ar_Resource result,
                    ae_Result = allowDeny (ar_Allowed result), ae_Reason = ar_Reason result\<rparr>;
          e = e\<lparr>audit := map_option (al_Log E io (ar_Timestamp result) entry) (audit e)\<rparr>
      in if \<not> ar_Allowed result \<and> denyCB e then e\<lparr>denials := denials e @ [result]\<rparr> else e)"

definition decide :: "CapabilityEngine \<Rightarrow> string \<Rightarrow> string \<Rightarrow> string \<Rightarrow> bool \<times> string" where
  "decide e sourcePeer capability resource =
     (if map_of (revoked e) sourcePeer \<noteq> None then (False, ''revoked'')
      else case map_of (grants e) sourcePeer of
             None \<Rightarrow> (False, ''no_capability'')
           | Some grant \<Rightarrow>
               if capability \<notin> set (pg_Capabilities grant) then (False, ''no_capability'')
               else if capability = CapServiceManage then
                 (if pg_ServiceScopes grant \<noteq> [] \<and> resource \<notin> set (pg_ServiceScopes grant)
                  then (False, ''service_not_scoped'') else (True, ''explicit_allow''))
               else if capability = CapFileTransfer then
                 (if pg_FileTransferPaths grant \<noteq> [] \<and> \<not> list_ex (pathWithinPrefix resource) (pg_FileTransferPaths grant)
                  then (False, ''path_denied'') else (True, ''explicit_allow''))
               else if capability = CapMonitorRead \<or> capability = CapMonitorWrite then
                 (if pg_MonitorScopes grant \<noteq> [] \<and> resource \<noteq> [] \<and> resource \<notin> set (pg_MonitorScopes grant)
                  then (False, ''scope_denied'') else (True, ''explicit_allow''))
               else (True, ''explicit_allow''))"

definition AuthorizeWithSourceIP ::
    "audit_env \<Rightarrow> audit_io \<Rightarrow> int \<Rightarrow> string \<Rightarrow> string \<Rightarrow> string \<Rightarrow> string \<Rightarrow> CapabilityEngine \<Rightarrow> AuthResult \<times> CapabilityEngine" where
  "AuthorizeWithSourceIP E io now sourcePeer capability resource sourceIP e =
     (let (allowed, reason) = decide e sourcePeer capability resource;
          result = \<lparr>ar_Allowed = allowed, ar_Reason = reason, ar_Capability = capability, ar_Resource = resource,
                     ar_SourcePeer = sourcePeer, ar_SourceIP = sourceIP, ar_Timestamp = now\<rparr>
      in (result, logAudit E io result e))"

definition Authorize ::
    "audit_env \<Rightarrow> audit_io \<Rightarrow> int \<Rightarrow> string \<Rightarrow> string \<Rightarrow> string \<Rightarrow> CapabilityEngine \<Rightarrow> AuthResult \<times> CapabilityEngine" where
  "Authorize E io now sourcePeer capability resource e = AuthorizeWithSourceIP E io now sourcePeer capability resource [] e"

definition Revoke :: "int \<Rightarrow> string \<Rightarrow> string \<Rightarrow> string \<Rightarrow> string \<Rightarrow> CapabilityEngine \<Rightarrow> CapabilityEngine" where
  "Revoke now peerID revokedBy signature reason e =
     e\<lparr>revoked := AList.update peerID
         \<lparr>re_PeerID = peerID, re_RevokedBy = revokedBy, re_RevokedAt = now, re_Signature = signature, re_Reason = reason\<rparr> (revoked e)\<rparr>"

definition Reinstate :: "string \<Rightarrow> CapabilityEngine \<Rightarrow> CapabilityEngine" where
  "Reinstate peerID e = e\<lparr>revoked := AList.delete peerID (revoked e)\<rparr>"

definition IsRevoked :: "string \<Rightarrow> CapabilityEngine \<Rightarrow> bool" where
  "IsRevoked peerID e \<longleftrightarrow> map_of (revoked e) peerID \<noteq> None"

definition GetGrant :: "string \<Rightarrow> CapabilityEngine \<Rightarrow> PeerGrant option" where
  "GetGrant peerID e = map_of (grants e) peerID"

definition AllGrants :: "CapabilityEngine \<Rightarrow> PeerGrant list" where "AllGrants e = map snd (grants e)"
definition AllRevocations :: "CapabilityEngine \<Rightarrow> RevocationEntry list" where "AllRevocations e = map snd (revoked e)"
definition GrantCount :: "CapabilityEngine \<Rightarrow> nat" where "GrantCount e = length (grants e)"
definition RevokedCount :: "CapabilityEngine \<Rightarrow> nat" where "RevokedCount e = length (revoked e)"

definition SetDenyCallback :: "bool \<Rightarrow> CapabilityEngine \<Rightarrow> CapabilityEngine" where
  \<comment> \<open>whether the callback is not nil\<close>
  "SetDenyCallback cb e = e\<lparr>denyCB := cb\<rparr>"

section \<open>Middleware and checkers\<close>

datatype http_status = Served | StatusUnauthorized | StatusForbidden | StatusInternalServerError

definition RequireCapability ::
    "audit_env \<Rightarrow> audit_io \<Rightarrow> int \<Rightarrow> string \<Rightarrow> string option \<Rightarrow> string \<Rightarrow> CapabilityEngine option \<Rightarrow> http_status \<times> CapabilityEngine option" where
  \<comment> \<open>\<open>peer\<close>: the identity in the context of the request; \<open>Served\<close> when the handler runs\<close>
  "RequireCapability E io now cap peer remoteAddr engine =
     (case engine of
        None \<Rightarrow> (StatusInternalServerError, None)
      | Some e \<Rightarrow>
          (case peer of
             None \<Rightarrow> (StatusUnauthorized, Some e)
           | Some p \<Rightarrow>
               if p = [] then (StatusUnauthorized, Some e)
               else case AuthorizeWithSourceIP E io now p cap [] remoteAddr e of
                      (result, e) \<Rightarrow> (if ar_Allowed result then Served else StatusForbidden, Some e)))"

definition AuthorizeFileTransfer :: "audit_env \<Rightarrow> audit_io \<Rightarrow> int \<Rightarrow> string \<Rightarrow> CapabilityEngine option \<Rightarrow> bool \<times> CapabilityEngine option" where
  "AuthorizeFileTransfer E io now sourcePeer engine =
     (case engine of
        None \<Rightarrow> (False, None)
      | Some e \<Rightarrow> (case Authorize E io now sourcePeer CapFileTransfer [] e of (result, e) \<Rightarrow> (ar_Allowed result, Some e)))"

definition AuthorizeMonitorWrite :: "audit_env \<Rightarrow> audit_io \<Rightarrow> int \<Rightarrow> string \<Rightarrow> CapabilityEngine option \<Rightarrow> bool \<times> CapabilityEngine option" where
  "AuthorizeMonitorWrite E io now sourcePeer engine =
     (case engine of
        None \<Rightarrow> (False, None)
      | Some e \<Rightarrow> (case Authorize E io now sourcePeer CapMonitorWrite [] e of (result, e) \<Rightarrow> (ar_Allowed result, Some e)))"

record MeshIdentityAuthChecker =
  mi_localPublicKey :: string
  mi_audit :: "AuditLogger option"

definition mesh_AuthorizeMonitorWrite ::
    "audit_env \<Rightarrow> audit_io \<Rightarrow> int \<Rightarrow> (string \<Rightarrow> bool) option \<Rightarrow> string \<Rightarrow> MeshIdentityAuthChecker \<Rightarrow> bool \<times> MeshIdentityAuthChecker" where
  \<comment> \<open>\<open>known\<close>: membership in the routing table\<close>
  "mesh_AuthorizeMonitorWrite E io now known sourcePeer m =
     (let (allowed, reason) =
            (if sourcePeer = [] then (False, ''empty_peer_id'')
             else if sourcePeer = mi_localPublicKey m then (True, ''self'')
             else if (case known of None \<Rightarrow> False | Some k \<Rightarrow> k sourcePeer) then (True, ''mesh_member'')
             else (False, ''unknown_peer''));
          entry = \<lparr>ae_Sequence = 0, ae_PrevHash = [], ae_Timestamp = rfc3339 E now, ae_SourcePeer = sourcePeer, ae_SourceIP = [],
                    ae_RequestedCapability = CapMonitorWrite, ae_TargetResource = [], ae_Result = allowDeny allowed, ae_Reason = reason\<rparr>
      in (allowed, m\<lparr>mi_audit := map_option (al_Log E io now entry) (mi_audit m)\<rparr>))"

section \<open>Challenges\<close>

record pendingChallenge =
  ch_Nonce :: bytes
  ch_RequesterID :: string
  ch_IssuedAt :: int
  ch_ExpiresAt :: int

record NonceChallenge =
  pending :: "(string \<times> pendingChallenge) list"
  nc_ttl :: int

datatype challenge_error = NonceGeneration | NoPending | ChallengeExpired | RequesterKey | SignatureEncoding | NonceSignature

definition NewNonceChallenge :: "int \<Rightarrow> NonceChallenge" where
  "NewNonceChallenge t = \<lparr>pending = [], nc_ttl = (if t = 0 then 60 * 10 ^ 9 else t)\<rparr>"

definition Issue :: "bytes \<Rightarrow> int \<Rightarrow> string \<Rightarrow> NonceChallenge \<Rightarrow> (challenge_error, bytes) res \<times> NonceChallenge" where
  \<comment> \<open>\<open>rnd\<close>: what the random source gives\<close>
  "Issue rnd now requester nc =
     (if length rnd < 32 then (err NonceGeneration, nc)
      else let ch = \<lparr>ch_Nonce = take 32 rnd, ch_RequesterID = requester, ch_IssuedAt = now, ch_ExpiresAt = now + nc_ttl nc\<rparr>
           in (ok (take 32 rnd), nc\<lparr>pending := AList.update requester ch (pending nc)\<rparr>))"

definition parseHexKey :: "'e \<Rightarrow> string \<Rightarrow> ('e, bytes) res" where
  "parseHexKey e hexKey =
     (case DecodeString hexKey of None \<Rightarrow> err e | Some raw \<Rightarrow> guard (length raw \<noteq> 32) e (ok raw))"

definition nonce_Verify ::
    "(bytes \<Rightarrow> bytes \<Rightarrow> bytes \<Rightarrow> bool) \<Rightarrow> int \<Rightarrow> string \<Rightarrow> string \<Rightarrow> string \<Rightarrow> NonceChallenge \<Rightarrow> (challenge_error, unit) res \<times> NonceChallenge" where
  "nonce_Verify edVerify now requester pubHex sigHex nc =
     (case map_of (pending nc) requester of
        None \<Rightarrow> (err NoPending, nc)
      | Some ch \<Rightarrow>
          (guard (now > ch_ExpiresAt ch) ChallengeExpired
           (and_then (parseHexKey RequesterKey pubHex) (\<lambda>pubKey.
            case DecodeString sigHex of
              None \<Rightarrow> err SignatureEncoding
            | Some sig \<Rightarrow> guard (\<not> edVerify pubKey (ch_Nonce ch) sig) NonceSignature (ok ()))),
           nc\<lparr>pending := AList.delete requester (pending nc)\<rparr>))"

definition SignNonce :: "(bytes \<Rightarrow> bytes \<Rightarrow> bytes) \<Rightarrow> bytes \<Rightarrow> bytes \<Rightarrow> string" where
  "SignNonce edSign privKey nonce = EncodeToString (edSign privKey nonce)"

definition PendingCount :: "NonceChallenge \<Rightarrow> nat" where "PendingCount nc = length (pending nc)"

definition CleanupExpired :: "int \<Rightarrow> NonceChallenge \<Rightarrow> nat \<times> NonceChallenge" where
  "CleanupExpired now nc =
     (length (filter (\<lambda>p. now > ch_ExpiresAt (snd p)) (pending nc)),
      nc\<lparr>pending := filter (\<lambda>p. \<not> now > ch_ExpiresAt (snd p)) (pending nc)\<rparr>)"

section \<open>Revocation notices\<close>

record RevocationNotice =
  rn_RevokedPeer :: string
  rn_RevokedBy :: string
  rn_RevokedAt :: string
  rn_Reason :: string
  rn_Signature :: string

datatype notice_error = NoticeEncoding | NoticeSignature | NoticeKey

definition signableRevocationMessage :: "string \<Rightarrow> string \<Rightarrow> string \<Rightarrow> string \<Rightarrow> bytes" where
  "signableRevocationMessage revokedPeer revokedBy revokedAt reason =
     map of_char (revokedPeer @ revokedBy @ revokedAt @ reason)"

definition SignRevocation :: "audit_env \<Rightarrow> (bytes \<Rightarrow> bytes \<Rightarrow> bytes) \<Rightarrow> int \<Rightarrow> string \<Rightarrow> bytes \<Rightarrow> string \<Rightarrow> RevocationNotice" where
  \<comment> \<open>the public key is the second half of the private key\<close>
  "SignRevocation E edSign now revokedPeer privKey reason =
     (let revokedBy = EncodeToString (drop 32 privKey); revokedAt = rfc3339 E now
      in \<lparr>rn_RevokedPeer = revokedPeer, rn_RevokedBy = revokedBy, rn_RevokedAt = revokedAt, rn_Reason = reason,
          rn_Signature = EncodeToString (edSign privKey (signableRevocationMessage revokedPeer revokedBy revokedAt reason))\<rparr>)"

definition rn_Verify :: "(bytes \<Rightarrow> bytes \<Rightarrow> bytes \<Rightarrow> bool) \<Rightarrow> bytes \<Rightarrow> RevocationNotice \<Rightarrow> (notice_error, unit) res" where
  \<comment> \<open>\<open>ed25519.Verify\<close> panics on a key that does not have 32 bytes\<close>
  "rn_Verify edVerify pubKey rn =
     (case DecodeString (rn_Signature rn) of
        None \<Rightarrow> err NoticeEncoding
      | Some sig \<Rightarrow>
          if length pubKey \<noteq> 32 then Inl Panic
          else guard (\<not> edVerify pubKey (signableRevocationMessage (rn_RevokedPeer rn) (rn_RevokedBy rn) (rn_RevokedAt rn) (rn_Reason rn)) sig)
                 NoticeSignature (ok ()))"

definition VerifyByHexKey :: "(bytes \<Rightarrow> bytes \<Rightarrow> bytes \<Rightarrow> bool) \<Rightarrow> string \<Rightarrow> RevocationNotice \<Rightarrow> (notice_error, unit) res" where
  "VerifyByHexKey edVerify hexKey rn = and_then (parseHexKey NoticeKey hexKey) (\<lambda>pubKey. rn_Verify edVerify pubKey rn)"

section \<open>Paths and prefixes\<close>

definition part_ok :: "string \<Rightarrow> bool" where
  "part_ok c \<longleftrightarrow> c \<noteq> [] \<and> c \<noteq> ''.'' \<and> CHR ''/'' \<notin> set c"

lemma splitSlash_nonempty [simp]: "splitSlash xs \<noteq> []"
  by (cases xs) simp_all

lemma splitSlash_parts: "c \<in> set (splitSlash p) \<Longrightarrow> CHR ''/'' \<notin> set c"
proof (induction p arbitrary: c)
  case (Cons x p)
  obtain y ys where "splitSlash p = y # ys" by (cases "splitSlash p") auto
  then show ?case using Cons by (auto split: if_splits)
qed simp

lemma splitSlash_append: "splitSlash (xs @ CHR ''/'' # ys) = splitSlash xs @ splitSlash ys"
  by (induction xs) (simp_all add: hd_append tl_append2)

lemma splitSlash_single: "CHR ''/'' \<notin> set xs \<Longrightarrow> splitSlash xs = [xs]"
  by (induction xs) auto

lemma splitSlash_joinSlash: "cs \<noteq> [] \<Longrightarrow> \<forall>c\<in>set cs. CHR ''/'' \<notin> set c \<Longrightarrow> splitSlash (joinSlash cs) = cs"
  by (induction cs rule: joinSlash.induct) (auto simp: splitSlash_single splitSlash_append)

lemma pushPart_ok: "\<forall>c\<in>set st. part_ok c \<Longrightarrow> CHR ''/'' \<notin> set c \<Longrightarrow> \<forall>c\<in>set (pushPart r c st). part_ok c"
  by (cases st) (auto simp: pushPart_def part_ok_def)

lemma pushParts_ok:
  "\<forall>c\<in>set cs. CHR ''/'' \<notin> set c \<Longrightarrow> \<forall>c\<in>set (fold (pushPart r) cs []). part_ok c"
proof (induction cs rule: rev_induct)
  case (snoc c cs)
  then show ?case using pushPart_ok [of "fold (pushPart r) cs []" c r] by simp
qed simp

lemma partsOf_ok: "c \<in> set (partsOf p) \<Longrightarrow> part_ok c"
  unfolding partsOf_def cleanParts_def using pushParts_ok [of "splitSlash p"] splitSlash_parts by simp

lemma partsOf_no_slash: "\<forall>c\<in>set (partsOf p). CHR ''/'' \<notin> set c"
  using partsOf_ok by (auto simp: part_ok_def)

lemma joinSlash_Nil: "\<forall>c\<in>set cs. part_ok c \<Longrightarrow> joinSlash cs = [] \<longleftrightarrow> cs = []"
  by (cases cs rule: joinSlash.cases) (auto simp: part_ok_def)

lemma joinSlash_partsOf: "joinSlash (partsOf p) = [] \<longleftrightarrow> partsOf p = []"
  using joinSlash_Nil partsOf_ok by blast

lemma joinSlash_hd: "\<forall>c\<in>set cs. part_ok c \<Longrightarrow> cs \<noteq> [] \<Longrightarrow> hd (joinSlash cs) \<noteq> CHR ''/'' \<and> joinSlash cs \<noteq> ''.''"
proof (cases cs rule: joinSlash.cases)
  case (3 c d ds)
  assume "\<forall>c\<in>set cs. part_ok c"
  then have "c \<noteq> []" "CHR ''/'' \<notin> set c" using 3 by (auto simp: part_ok_def)
  then show ?thesis using 3 by (cases c) auto
qed (auto simp: part_ok_def dest: hd_in_set)

lemma Clean_cases:
  "Clean p = (if isRooted p then CHR ''/'' # joinSlash (partsOf p) else if partsOf p = [] then ''.'' else joinSlash (partsOf p))"
  by (simp add: Clean_def joinSlash_partsOf)

lemma joinSlash_inj:
  assumes "joinSlash (partsOf r) = joinSlash (partsOf p)"
  shows "partsOf r = partsOf p"
proof (cases "partsOf p = []")
  case False
  then have "partsOf r \<noteq> []" using assms joinSlash_partsOf by metis
  then show ?thesis using assms False splitSlash_joinSlash partsOf_no_slash by metis
qed (use assms joinSlash_partsOf in simp)

lemma Clean_inj: "Clean r = Clean p \<longleftrightarrow> isRooted r = isRooted p \<and> partsOf r = partsOf p"
proof
  assume C: "Clean r = Clean p"
  have n: "partsOf q \<noteq> [] \<Longrightarrow> hd (joinSlash (partsOf q)) \<noteq> CHR ''/'' \<and> joinSlash (partsOf q) \<noteq> ''.''" for q
    using joinSlash_hd partsOf_ok by blast
  have "isRooted q \<longleftrightarrow> hd (Clean q) = CHR ''/''" for q using n [of q] by (simp add: Clean_cases)
  with C have "isRooted r = isRooted p" by metis
  moreover from this C have "joinSlash (partsOf r) = joinSlash (partsOf p)"
    using n [of r] n [of p] by (auto simp: Clean_cases split: if_splits)
  ultimately show "isRooted r = isRooted p \<and> partsOf r = partsOf p" using joinSlash_inj by blast
qed (simp add: Clean_cases)

lemma joinSlash_append: "xs \<noteq> [] \<Longrightarrow> ys \<noteq> [] \<Longrightarrow> joinSlash (xs @ ys) = joinSlash xs @ CHR ''/'' # joinSlash ys"
proof (induction xs rule: joinSlash.induct)
  case (2 c)
  then show ?case by (cases ys) auto
qed auto

lemma joinSlash_prefix:
  assumes "\<forall>c\<in>set ps. part_ok c" "\<forall>c\<in>set rs. part_ok c" "ps \<noteq> []"
  shows "hasPrefix (joinSlash rs) (joinSlash ps @ ''/'') \<longleftrightarrow> strict_prefix ps rs"
proof
  assume "hasPrefix (joinSlash rs) (joinSlash ps @ ''/'')"
  then obtain z where z: "joinSlash rs = joinSlash ps @ CHR ''/'' # z"
    unfolding hasPrefix_def by (metis append_take_drop_id append_Cons append_Nil append_assoc)
  then have "rs \<noteq> []" by auto
  then have "rs = splitSlash (joinSlash ps @ CHR ''/'' # z)" using splitSlash_joinSlash [of rs] assms(2) z by (simp add: part_ok_def)
  also have "\<dots> = ps @ splitSlash z" using splitSlash_joinSlash [of ps] assms(1,3) by (simp add: splitSlash_append part_ok_def)
  finally show "strict_prefix ps rs" by (auto simp: strict_prefix_def)
next
  assume "strict_prefix ps rs"
  then obtain zs where "rs = ps @ zs" "zs \<noteq> []" by (auto simp: strict_prefix_def prefix_def)
  then show "hasPrefix (joinSlash rs) (joinSlash ps @ ''/'')" using assms(3) by (simp add: joinSlash_append hasPrefix_def)
qed

lemma strContains_slash: "strContains ''..'' (a @ CHR ''/'' # b) \<longleftrightarrow> strContains ''..'' a \<or> strContains ''..'' b"
proof (induction a)
  case (Cons c a)
  then show ?case by (cases a) auto
qed simp

lemma strContains_join: "strContains ''..'' (joinSlash cs) \<longleftrightarrow> (\<exists>c\<in>set cs. strContains ''..'' c)"
  by (induction cs rule: joinSlash.induct) (auto simp: strContains_slash)

lemma strContains_Clean: "strContains ''..'' (Clean p) \<longleftrightarrow> (\<exists>c\<in>set (partsOf p). strContains ''..'' c)"
  by (auto simp: Clean_cases strContains_join)

definition insideOf :: "string \<Rightarrow> string \<Rightarrow> bool" where
  \<comment> \<open>the elements of the directory start those of the path, and none of these contains two dots\<close>
  "insideOf dir path \<longleftrightarrow> isRooted path = isRooted dir \<and> prefix (partsOf dir) (partsOf path) \<and>
     (partsOf dir = [] \<longrightarrow> partsOf path = []) \<and> (\<forall>c\<in>set (partsOf path). \<not> strContains ''..'' c)"

lemma hasPrefix_iff: "hasPrefix s p \<longleftrightarrow> (\<exists>z. s = p @ z)"
  unfolding hasPrefix_def by (metis append_eq_conv_conj append_take_drop_id)

lemma Clean_first: "Clean q \<noteq> [] \<and> (hd (Clean q) = CHR ''/'' \<longleftrightarrow> isRooted q)"
  using joinSlash_hd [of "partsOf q"] joinSlash_partsOf [of q] partsOf_ok by (auto simp: Clean_cases)

lemma Clean_dot: "\<not> hasPrefix (joinSlash (partsOf q)) ''./'' \<and> \<not> hasPrefix (joinSlash (partsOf q)) ''/''"
proof -
  have "hd (splitSlash (''.'' @ CHR ''/'' # z)) = ''.''" "hd (splitSlash (CHR ''/'' # z)) = []" for z by simp_all
  moreover have "partsOf q \<noteq> [] \<Longrightarrow> part_ok (hd (splitSlash (joinSlash (partsOf q))))"
    using splitSlash_joinSlash [OF _ partsOf_no_slash] partsOf_ok by (metis list.set_sel(1))
  ultimately show ?thesis using joinSlash_partsOf [of q] unfolding hasPrefix_iff part_ok_def by (cases "partsOf q = []") auto
qed

lemma Clean_prefix:
  "hasPrefix (Clean r) (Clean p @ ''/'') \<longleftrightarrow> isRooted r = isRooted p \<and> partsOf p \<noteq> [] \<and> strict_prefix (partsOf p) (partsOf r)"
proof (cases "isRooted r = isRooted p")
  case False
  then have "\<not> hasPrefix (Clean r) (Clean p @ ''/'')" using Clean_first [of r] Clean_first [of p] by (auto simp: hasPrefix_iff)
  then show ?thesis using False by simp
next
  case True
  have ok: "\<forall>c\<in>set (partsOf q). part_ok c" for q using partsOf_ok by blast
  note J = joinSlash_prefix [OF ok ok]
  show ?thesis
  proof (cases "partsOf p = []")
    case empty: True
    have "\<not> hasPrefix (Clean r) (Clean p @ ''/'')"
      using True empty Clean_dot [of r] by (auto simp: Clean_cases hasPrefix_def)
    then show ?thesis using empty by simp
  next
    case False
    have "hasPrefix (Clean r) (Clean p @ ''/'') \<longleftrightarrow> hasPrefix (joinSlash (partsOf r)) (joinSlash (partsOf p) @ ''/'')"
    proof (cases "isRooted p \<or> partsOf r \<noteq> []")
      case True
      then show ?thesis using False \<open>isRooted r = isRooted p\<close> by (auto simp: Clean_cases hasPrefix_def)
    next
      case F: False
      then have "\<not> hasPrefix ''.'' (joinSlash (partsOf p) @ ''/'')" "\<not> hasPrefix [] (joinSlash (partsOf p) @ ''/'')"
        using False joinSlash_partsOf [of p] by (auto simp: hasPrefix_iff Cons_eq_append_conv)
      then show ?thesis using F False \<open>isRooted r = isRooted p\<close> by (simp add: Clean_cases)
    qed
    then show ?thesis using J [OF False] False True by simp
  qed
qed

lemma pathWithinPrefix_iff: "pathWithinPrefix r p \<longleftrightarrow> insideOf p r"
  unfolding pathWithinPrefix_def Let_def strContains_Clean Clean_inj insideOf_def Clean_prefix
  by (auto simp: strict_prefix_def)

section \<open>Decisions\<close>

datatype auth_op =
    OpLoad int PeerConfig | OpRevoke int string string string string | OpReinstate string
  | OpAuthorize int string string string string | OpSetDeny bool

definition auth_do :: "audit_env \<Rightarrow> auth_op \<Rightarrow> CapabilityEngine \<Rightarrow> CapabilityEngine" where
  "auth_do E op e =
     (case op of
        OpLoad now c \<Rightarrow> LoadPeerConfig now c e
      | OpRevoke now p by' sig reason \<Rightarrow> Revoke now p by' sig reason e
      | OpReinstate p \<Rightarrow> Reinstate p e
      | OpAuthorize now p cap res ip \<Rightarrow> snd (AuthorizeWithSourceIP E allOK now p cap res ip e)
      | OpSetDeny b \<Rightarrow> SetDenyCallback b e)"

text \<open>
  What a history says about a peer: the configuration loaded last, and whether it was revoked after it
  was last reinstated.
\<close>

definition lastConfig :: "auth_op list \<Rightarrow> string \<Rightarrow> PeerConfig option" where
  "lastConfig ops p = fold (\<lambda>op r. case op of OpLoad _ c \<Rightarrow> if pc_PublicKey c = p then Some c else r | _ \<Rightarrow> r) ops None"

definition revokedNow :: "auth_op list \<Rightarrow> string \<Rightarrow> bool" where
  "revokedNow ops p =
     fold (\<lambda>op r. case op of OpRevoke _ q _ _ _ \<Rightarrow> q = p \<or> r | OpReinstate q \<Rightarrow> q \<noteq> p \<and> r | _ \<Rightarrow> r) ops False"

definition permits :: "PeerConfig \<Rightarrow> string \<Rightarrow> string \<Rightarrow> bool" where
  "permits c cap res \<longleftrightarrow> cap \<in> set (pc_Capabilities c) \<and>
     (cap = CapServiceManage \<longrightarrow> pc_ServiceManage c = [] \<or> res \<in> set (pc_ServiceManage c)) \<and>
     (cap = CapFileTransfer \<longrightarrow> pc_FileTransferPaths c = [] \<or> (\<exists>dir\<in>set (pc_FileTransferPaths c). insideOf dir res)) \<and>
     (cap \<in> {CapMonitorRead, CapMonitorWrite} \<longrightarrow> pc_MonitorScopes c = [] \<or> res = [] \<or> res \<in> set (pc_MonitorScopes c))"

definition grants_as :: "PeerGrant option \<Rightarrow> PeerConfig option \<Rightarrow> bool" where
  "grants_as g c \<longleftrightarrow> (case (g, c) of
      (None, None) \<Rightarrow> True
    | (Some g, Some c) \<Rightarrow> set (pg_Capabilities g) = set (pc_Capabilities c) \<and> set (pg_ServiceScopes g) = set (pc_ServiceManage c) \<and>
        pg_FileTransferPaths g = pc_FileTransferPaths c \<and> pg_MonitorScopes g = pc_MonitorScopes c
    | _ \<Rightarrow> False)"

lemma lastConfig_snoc:
  "lastConfig [] p = None"
  "lastConfig (ops @ [op]) p = (case op of OpLoad _ c \<Rightarrow> if pc_PublicKey c = p then Some c else lastConfig ops p | _ \<Rightarrow> lastConfig ops p)"
  unfolding lastConfig_def by simp_all

lemma revokedNow_snoc:
  "\<not> revokedNow [] p"
  "revokedNow (ops @ [op]) p = (case op of OpRevoke _ q _ _ _ \<Rightarrow> q = p \<or> revokedNow ops p | OpReinstate q \<Rightarrow> q \<noteq> p \<and> revokedNow ops p | _ \<Rightarrow> revokedNow ops p)"
  unfolding revokedNow_def by simp_all

lemma set_fold_insert: "set (fold List.insert xs ys) = set xs \<union> set ys"
  by (induction xs arbitrary: ys) auto

lemma logAudit_keeps [simp]: "grants (logAudit E io r e) = grants e" "revoked (logAudit E io r e) = revoked e" "denyCB (logAudit E io r e) = denyCB e"
  by (simp_all add: logAudit_def Let_def)

lemma AuthorizeWithSourceIP_keeps [simp]:
  "grants (snd (AuthorizeWithSourceIP E io now p cap res ip e)) = grants e" "revoked (snd (AuthorizeWithSourceIP E io now p cap res ip e)) = revoked e"
  by (simp_all add: AuthorizeWithSourceIP_def split_beta Let_def)

lemma LoadPeerConfig_grants:
  "grants_as (map_of (grants (LoadPeerConfig now c e)) p) (if pc_PublicKey c = p then Some c else r) \<longleftrightarrow>
     pc_PublicKey c = p \<or> grants_as (map_of (grants e) p) r"
  by (auto simp: LoadPeerConfig_def Let_def update_conv' grants_as_def set_fold_insert)

lemma LoadPeerConfig_revoked [simp]: "revoked (LoadPeerConfig now c e) = revoked e"
  by (simp add: LoadPeerConfig_def Let_def)

lemma NewCapabilityEngine_loads:
  "NewCapabilityEngine now peers al = fold (auth_do E) (map (OpLoad now) (filter (\<lambda>c. pc_Capabilities c \<noteq> []) peers))
     \<lparr>grants = [], revoked = [], audit = al, denyCB = False, denials = []\<rparr>"
proof -
  have "fold (\<lambda>peer e. if pc_Capabilities peer = [] then e else LoadPeerConfig now peer e) peers e =
      fold (auth_do E) (map (OpLoad now) (filter (\<lambda>c. pc_Capabilities c \<noteq> []) peers)) e" for e
    by (induction peers arbitrary: e) (simp_all add: auth_do_def)
  then show ?thesis by (simp add: NewCapabilityEngine_def)
qed

lemma engine_state:
  fixes al
  defines "e0 \<equiv> \<lparr>grants = [], revoked = [], audit = al, denyCB = False, denials = []\<rparr>"
  shows "grants_as (map_of (grants (fold (auth_do E) ops e0)) p) (lastConfig ops p) \<and>
    (map_of (revoked (fold (auth_do E) ops e0)) p \<noteq> None \<longleftrightarrow> revokedNow ops p)"
proof (induction ops rule: rev_induct)
  case Nil
  then show ?case by (simp add: e0_def grants_as_def lastConfig_snoc revokedNow_snoc)
next
  case (snoc op ops)
  then show ?case
    by (cases op) (auto simp: auth_do_def lastConfig_snoc revokedNow_snoc LoadPeerConfig_grants Revoke_def Reinstate_def
        SetDenyCallback_def update_conv' delete_conv')
qed

lemma capability_names_differ:
  "CapServiceManage \<noteq> CapFileTransfer" "CapServiceManage \<noteq> CapMonitorRead" "CapServiceManage \<noteq> CapMonitorWrite"
  "CapFileTransfer \<noteq> CapMonitorRead" "CapFileTransfer \<noteq> CapMonitorWrite"
  by code_simp+

lemma decide_iff:
  assumes "grants_as (map_of (grants e) p) cfg"
  shows "fst (decide e p cap res) \<longleftrightarrow> map_of (revoked e) p = None \<and> (\<exists>c. cfg = Some c \<and> permits c cap res)"
proof (cases cfg)
  case None
  then have "map_of (grants e) p = None" using assms by (auto simp: grants_as_def split: option.splits)
  with None show ?thesis by (simp add: decide_def)
next
  case (Some c)
  then obtain g where g: "map_of (grants e) p = Some g" "set (pg_Capabilities g) = set (pc_Capabilities c)"
    "set (pg_ServiceScopes g) = set (pc_ServiceManage c)" "pg_FileTransferPaths g = pc_FileTransferPaths c" "pg_MonitorScopes g = pc_MonitorScopes c"
    using assms by (auto simp: grants_as_def split: option.splits)
  from g(3) have "pg_ServiceScopes g = [] \<longleftrightarrow> pc_ServiceManage c = []" by (metis set_empty)
  with Some g capability_names_differ show ?thesis
    by (auto simp: decide_def permits_def list_ex_iff pathWithinPrefix_iff)
qed


definition auditStep :: "audit_env \<Rightarrow> AuthResult \<Rightarrow> audit_step" where
  "auditStep E r = LogEntry (ar_Timestamp r)
     \<lparr>ae_Sequence = 0, ae_PrevHash = [], ae_Timestamp = rfc3339 E (ar_Timestamp r), ae_SourcePeer = ar_SourcePeer r,
      ae_SourceIP = ar_SourceIP r, ae_RequestedCapability = ar_Capability r, ae_TargetResource = ar_Resource r,
      ae_Result = allowDeny (ar_Allowed r), ae_Reason = ar_Reason r\<rparr>"

fun decisions :: "audit_env \<Rightarrow> auth_op list \<Rightarrow> CapabilityEngine \<Rightarrow> AuthResult list" where
  "decisions E [] e = []"
| "decisions E (op # ops) e =
     (case op of OpAuthorize now p cap res ip \<Rightarrow> [fst (AuthorizeWithSourceIP E allOK now p cap res ip e)] | _ \<Rightarrow> []) @
     decisions E ops (auth_do E op e)"

lemma Authorize_audit:
  "audit (snd (AuthorizeWithSourceIP E allOK now p cap res ip e)) =
     map_option (audit_do E (auditStep E (fst (AuthorizeWithSourceIP E allOK now p cap res ip e)))) (audit e)"
  by (cases "audit e") (simp_all add: AuthorizeWithSourceIP_def split_beta Let_def logAudit_def auditStep_def audit_do_log)

lemma other_audit [simp]:
  "audit (LoadPeerConfig now c e) = audit e" "audit (Revoke now p q sig reason e) = audit e" "audit (Reinstate p e) = audit e"
  "audit (SetDenyCallback b e) = audit e"
  by (simp_all add: LoadPeerConfig_def Let_def Revoke_def Reinstate_def SetDenyCallback_def)

lemma auth_do_audit: "audit (auth_do E op e) = map_option (fold (audit_do E) (map (auditStep E)
   (case op of OpAuthorize now p cap res ip \<Rightarrow> [fst (AuthorizeWithSourceIP E allOK now p cap res ip e)] | _ \<Rightarrow> []))) (audit e)"
  by (cases op; cases "audit e") (simp_all add: auth_do_def Authorize_audit)

lemma engine_audit:
  "audit (fold (auth_do E) ops e) = map_option (fold (audit_do E) (map (auditStep E) (decisions E ops e))) (audit e)"
proof (induction ops arbitrary: e)
  case (Cons op ops)
  then show ?case by (cases "audit e") (simp_all add: auth_do_audit)
qed (simp add: option.map_id0 id_def [symmetric])

lemma NewCapabilityEngine_audit: "audit (NewCapabilityEngine now peers al) = al"
proof -
  have "audit (fold (\<lambda>peer e. if pc_Capabilities peer = [] then e else LoadPeerConfig now peer e) peers e) = audit e" for e
    by (induction peers arbitrary: e) simp_all
  then show ?thesis by (simp add: NewCapabilityEngine_def)
qed

definition engineHistory :: "int \<Rightarrow> PeerConfig list \<Rightarrow> auth_op list \<Rightarrow> auth_op list" where
  \<comment> \<open>construction loads the configured peers that have a capability\<close>
  "engineHistory now peers ops = map (OpLoad now) (filter (\<lambda>c. pc_Capabilities c \<noteq> []) peers) @ ops"


section \<open>Challenges and notices\<close>

lemma challenge_single_use:
  "nonce_Verify edVerify now p pub sig nc = (r, nc') \<Longrightarrow> nonce_Verify edVerify' now' p pub' sig' nc' = (err NoPending, nc')"
  by (auto simp: nonce_Verify_def delete_conv' split: option.splits)

lemma challenge_roundtrip:
  assumes "Issue rnd now p nc = (ok nonce, nc')" "length pub = 32" "edVerify pub nonce (edSign priv nonce)" "now' \<le> now + nc_ttl nc"
  shows "fst (nonce_Verify edVerify now' p (EncodeToString pub) (SignNonce edSign priv nonce) nc') = ok ()"
  using assms by (auto simp: Issue_def nonce_Verify_def SignNonce_def parseHexKey_def update_conv' Let_def split: if_splits)

lemma challenge_expires:
  assumes "Issue rnd now p nc = (ok nonce, nc')" "now' > now + nc_ttl nc"
  shows "fst (nonce_Verify edVerify now' p pub sig nc') = err ChallengeExpired"
  using assms by (auto simp: Issue_def nonce_Verify_def update_conv' Let_def split: if_splits)

lemma notice_roundtrip:
  assumes "length priv = 64" "\<And>m. edVerify (drop 32 priv) m (edSign priv m)"
  shows "VerifyByHexKey edVerify (rn_RevokedBy (SignRevocation E edSign now p priv reason)) (SignRevocation E edSign now p priv reason) = ok ()"
  using assms by (simp add: VerifyByHexKey_def SignRevocation_def Let_def parseHexKey_def rn_Verify_def)

text \<open>
  The signed message joins its fields without separators: a signature also holds for a notice whose
  fields are cut elsewhere, here one that moves the start of the reason into the time.
\<close>

lemma notice_ambiguous:
  "rn_Verify edVerify pub \<lparr>rn_RevokedPeer = p, rn_RevokedBy = b, rn_RevokedAt = t, rn_Reason = x @ y, rn_Signature = sig\<rparr> =
   rn_Verify edVerify pub \<lparr>rn_RevokedPeer = p, rn_RevokedBy = b, rn_RevokedAt = t @ x, rn_Reason = y, rn_Signature = sig\<rparr>"
  by (simp add: rn_Verify_def signableRevocationMessage_def split: option.split)

text \<open>
  A root directory in the list of allowed paths admits only itself, and a file name with two dots in it
  is refused everywhere.
\<close>

lemma path_prefix_corner_cases:
  "\<not> pathWithinPrefix ''/etc'' ''/''" "\<not> pathWithinPrefix ''/data/a..b'' ''/data''" "pathWithinPrefix ''/data/x/../y'' ''/data''"
  "\<not> pathWithinPrefix ''/data/../etc'' ''/data''" "\<not> pathWithinPrefix ''/database'' ''/data''"
  by code_simp+

end
