(* ===== verification/Spec2Isabelle.thy ===== *)
theory Spec2Isabelle
  imports Smux_Session Proxy_Pipeline Ipam Routing_Table Tun_Forwarder Udp_Conn Secure_Session Authorization
begin

text \<open>
  MeshDesk: a verification library for the mesh node (\<open>src/internal\<close>).
\<close>

end
